(* ===== verification/NPE_Prelude.thy ===== *)
theory NPE_Prelude
  imports Main "HOL-Library.Word"
begin

text \<open>
  Shared vocabulary of the development: the machine integer types of the sources, the
  collections of rewrite rules that the component theories add to, and generic facts on lists
  that more than one component uses.
\<close>

unbundle bit_operations_syntax

section \<open>Machine integers\<close>

type_synonym u8 = "8 word"
type_synonym u16 = "16 word"
type_synonym u32 = "32 word"
type_synonym u48 = "48 word"
type_synonym u64 = "64 word"

text \<open>
  \<open>bits\<close> collects the equations that say what a bit of a compound word is; \<open>lane\<close> those
  that say what a byte lane is; \<open>edge\<close> those that say what one clock edge does to a register.
\<close>

named_theorems bits
named_theorems lane
named_theorems edge

section \<open>Words seen bit by bit\<close>

lemma word_eq_bitsI:
  fixes a b :: "'a::len word"
  assumes "\<And>n. n < LENGTH('a) \<Longrightarrow> bit a n = bit b n"
  shows "a = b"
  by (rule bit_word_eqI) (rule assms)

lemma bit_ucast_word [bits]:
  "bit (ucast (w :: 'a::len word) :: 'b::len word) n \<longleftrightarrow> n < LENGTH('b) \<and> bit w n"
  by (simp add: bit_ucast_iff)

lemma bit_drop_word [bits]: "bit (drop_bit k (w :: 'a::len word)) n \<longleftrightarrow> bit w (k + n)"
  by (simp add: bit_drop_bit_eq)

lemma bit_push_word [bits]:
  "bit (push_bit k (w :: 'a::len word)) n \<longleftrightarrow> k \<le> n \<and> n < LENGTH('a) \<and> bit w (n - k)"
  by (auto simp: bit_push_bit_iff)

lemmas bits_logic [bits] = bit_and_iff bit_or_iff bit_xor_iff bit_not_iff bit_mask_iff

section \<open>Lists cut into chunks\<close>

text \<open>
  \<open>chunks n xs\<close> cuts \<open>xs\<close> into pieces of \<open>n\<close> elements, the last one shorter: the beats in
  which the test benches send a packet.
\<close>

function chunks :: "nat \<Rightarrow> 'a list \<Rightarrow> 'a list list" where
  "chunks n xs = (if n = 0 \<or> xs = [] then [] else take n xs # chunks n (drop n xs))"
  by pat_completeness auto
termination
  by (relation "measure (\<lambda>(n, xs). length xs)") auto

declare chunks.simps [simp del]

lemma chunks_Nil [simp]: "chunks n [] = []"
  by (simp add: chunks.simps)

lemma chunks_step: "0 < n \<Longrightarrow> xs \<noteq> [] \<Longrightarrow> chunks n xs = take n xs # chunks n (drop n xs)"
  by (subst chunks.simps) simp

lemma chunks_eq_Nil [simp]: "0 < n \<Longrightarrow> chunks n xs = [] \<longleftrightarrow> xs = []"
  by (subst chunks.simps) simp

lemma concat_chunks: "0 < n \<Longrightarrow> concat (chunks n xs) = xs"
proof (induction n xs rule: chunks.induct)
  case (1 n xs)
  then show ?case by (cases "xs = []") (simp_all add: chunks_step)
qed

lemma chunks_single: "0 < n \<Longrightarrow> xs \<noteq> [] \<Longrightarrow> length xs \<le> n \<Longrightarrow> chunks n xs = [xs]"
  by (simp add: chunks_step)

lemma chunks_length_le: "c \<in> set (chunks n xs) \<Longrightarrow> length c \<le> n"
proof (induction n xs rule: chunks.induct)
  case (1 n xs)
  then show ?case
    by (cases "n = 0 \<or> xs = []") (auto simp: chunks.simps [of n xs])
qed

lemma chunks_length_pos: "c \<in> set (chunks n xs) \<Longrightarrow> c \<noteq> []"
proof (induction n xs rule: chunks.induct)
  case (1 n xs)
  then show ?case
    by (cases "n = 0 \<or> xs = []") (auto simp: chunks.simps [of n xs])
qed

section \<open>The ceiling logarithm of SystemVerilog\<close>

text \<open>\<open>$clog2(n)\<close>: the number of address bits of an array of \<open>n\<close> entries.\<close>

fun clog2 :: "nat \<Rightarrow> nat" where
  "clog2 n = (if n \<le> 1 then 0 else Suc (clog2 ((n + 1) div 2)))"

declare clog2.simps [simp del]

lemma clog2_power: "clog2 (2 ^ k) = k"
proof (induction k)
  case 0
  show ?case by (subst clog2.simps) simp
next
  case (Suc k)
  have "(2 ^ Suc k + 1) div 2 = (2 ^ k :: nat)" by simp
  moreover have "\<not> (2 ^ Suc k :: nat) \<le> 1"
    by (metis not_le one_less_numeral_iff one_less_power semiring_norm(76) zero_less_Suc)
  ultimately show ?case using Suc.IH by (subst clog2.simps) simp
qed

end
