(* ===== verification/Byte_Lanes.thy ===== *)
theory Byte_Lanes
  imports NPE_Prelude
begin

text \<open>
  The 512-bit AXI-Stream data bus as byte lanes. The RTL reads and writes it with the indexed
  part selects \<open>d[i*8 +: 8]\<close>; the test benches see the same bits through Verilator's \<open>VlWide\<close>,
  an array of 32-bit words of which word \<open>i\<close> holds bits \<open>32*i\<close> to \<open>32*i+31\<close>. This theory
  defines both views and the helpers \<open>set32\<close>, \<open>vlwide_set_bytes\<close>, \<open>vlwide_get_bytes\<close> of the
  test benches, and shows that what is written is read back.
\<close>

type_synonym bus = "512 word"
type_synonym keep = "64 word"

section \<open>Part selects of the RTL\<close>

text \<open>\<open>d[i*8 +: 8]\<close> as a value. Past the end of the bus the selected bits read 0, as they do in
  the two-state simulation model; no property below depends on such a read.\<close>

definition byte_at :: "'a::len word \<Rightarrow> nat \<Rightarrow> u8" where
  "byte_at d idx = ucast (drop_bit (idx * 8) d)"

text \<open>\<open>d[i*8 +: 8] = b\<close> as an assignment; bits past the end of the bus are not written.\<close>

definition put_byte :: "'a::len word \<Rightarrow> nat \<Rightarrow> u8 \<Rightarrow> 'a word" where
  "put_byte d idx b =
     (d AND NOT (push_bit (idx * 8) (mask 8))) OR push_bit (idx * 8) (ucast b)"

definition word16_be :: "'a::len word \<Rightarrow> nat \<Rightarrow> u16" where
  "word16_be d idx = push_bit 8 (ucast (byte_at d idx)) OR ucast (byte_at d (idx + 1))"

definition word32_be :: "'a::len word \<Rightarrow> nat \<Rightarrow> u32" where
  "word32_be d idx =
     push_bit 24 (ucast (byte_at d idx)) OR push_bit 16 (ucast (byte_at d (idx + 1))) OR
     push_bit 8 (ucast (byte_at d (idx + 2))) OR ucast (byte_at d (idx + 3))"

definition mac_be :: "'a::len word \<Rightarrow> nat \<Rightarrow> u48" where
  "mac_be d idx =
     push_bit 40 (ucast (byte_at d idx)) OR push_bit 32 (ucast (byte_at d (idx + 1))) OR
     push_bit 24 (ucast (byte_at d (idx + 2))) OR push_bit 16 (ucast (byte_at d (idx + 3))) OR
     push_bit 8 (ucast (byte_at d (idx + 4))) OR ucast (byte_at d (idx + 5))"

lemma bit_byte_at [bits]: "bit (byte_at d idx) n \<longleftrightarrow> n < 8 \<and> bit d (idx * 8 + n)"
  by (simp add: byte_at_def bits)

lemma bit_put_byte [bits]:
  "bit (put_byte (d :: 'a::len word) idx b) n \<longleftrightarrow> n < LENGTH('a) \<and>
     (if idx * 8 \<le> n \<and> n < idx * 8 + 8 then bit b (n - idx * 8) else bit d n)"
  by (auto simp: put_byte_def bits dest: bit_imp_le_length)

lemma byte_at_put_byte [lane]:
  assumes "j * 8 + 8 \<le> LENGTH('a)"
  shows "byte_at (put_byte (d :: 'a::len word) i b) j = (if i = j then b else byte_at d j)"
proof (rule word_eq_bitsI)
  fix n assume "n < LENGTH(8)"
  with assms show "bit (byte_at (put_byte d i b) j) n =
      bit (if i = j then b else byte_at d j) n"
    by (auto simp: bits)
qed

text \<open>Two buses with the same 64 byte lanes are the same bus.\<close>

lemma bus_eqI:
  assumes "\<And>i. i < 64 \<Longrightarrow> byte_at (d :: bus) i = byte_at e i"
  shows "d = e"
proof (rule word_eq_bitsI)
  fix n assume n: "n < LENGTH(512)"
  have "bit (byte_at d (n div 8)) (n mod 8) = bit (byte_at e (n div 8)) (n mod 8)"
    using assms [of "n div 8"] n by simp
  then show "bit d n = bit e n" by (simp add: bits)
qed

section \<open>The word array of the simulation model\<close>

definition vl_word :: "bus \<Rightarrow> nat \<Rightarrow> u32" where
  "vl_word d i = ucast (drop_bit (i * 32) d)"

definition vl_put :: "bus \<Rightarrow> nat \<Rightarrow> u32 \<Rightarrow> bus" where
  "vl_put d i w = (d AND NOT (push_bit (i * 32) (mask 32))) OR push_bit (i * 32) (ucast w)"

lemma bit_vl_word [bits]: "bit (vl_word d i) n \<longleftrightarrow> n < 32 \<and> bit d (i * 32 + n)"
  by (simp add: vl_word_def bits)

lemma bit_vl_put [bits]:
  "bit (vl_put d i w) n \<longleftrightarrow> n < 512 \<and>
     (if i * 32 \<le> n \<and> n < i * 32 + 32 then bit w (n - i * 32) else bit d n)"
  by (auto simp: vl_put_def bits dest: bit_imp_le_length)

lemma byte_at_vl_word: "j < 4 \<Longrightarrow> byte_at (vl_word d i) j = byte_at d (i * 4 + j)"
  by (rule word_eq_bitsI) (auto simp: bits algebra_simps)

lemma byte_at_vl_put [lane]:
  assumes "k < 64"
  shows "byte_at (vl_put d i w) k = (if k div 4 = i then byte_at w (k mod 4) else byte_at d k)"
proof (rule word_eq_bitsI)
  fix n assume n: "n < LENGTH(8)"
  have eq: "k = 4 * (k div 4) + k mod 4" by simp
  have "bit (byte_at (vl_put d i w) k) n \<longleftrightarrow>
      (if i * 32 \<le> k * 8 + n \<and> k * 8 + n < i * 32 + 32 then bit w (k * 8 + n - i * 32)
       else bit d (k * 8 + n))"
    using assms n by (simp add: bits)
  moreover have "i * 32 \<le> k * 8 + n \<and> k * 8 + n < i * 32 + 32 \<longleftrightarrow> k div 4 = i"
    using n by auto
  moreover have "k div 4 = i \<Longrightarrow> k * 8 + n - i * 32 = (k mod 4) * 8 + n"
    using eq by arith
  ultimately show "bit (byte_at (vl_put d i w) k) n =
      bit (if k div 4 = i then byte_at w (k mod 4) else byte_at d k) n"
    using n by (simp add: bits)
qed

section \<open>Helpers of the test benches\<close>

text \<open>
  The inner loop of \<open>set32\<close> and \<open>vlwide_set_bytes\<close>: word \<open>i\<close> collects the source bytes
  \<open>4*i\<close> to \<open>4*i+3\<close> that exist, lowest byte first; the loop stops at the end of the source.
\<close>

definition le_word :: "u8 list \<Rightarrow> nat \<Rightarrow> nat \<Rightarrow> u32" where
  "le_word src n i =
     fold (\<lambda>j w. w OR push_bit (j * 8) (ucast (src ! (i * 4 + j)))) [0..<min 4 (n - i * 4)] 0"

definition set32 :: "bus \<Rightarrow> u8 list \<Rightarrow> nat \<Rightarrow> bus" where
  "set32 dst src n = fold (\<lambda>i d. vl_put d i (le_word src n i)) [0..<(n + 3) div 4] dst"

definition vlwide_set_bytes :: "bus \<Rightarrow> u8 list \<Rightarrow> nat \<Rightarrow> bus" where
  "vlwide_set_bytes dst src nbytes =
     fold (\<lambda>i d. vl_put d i (le_word src nbytes i)) [0..<(nbytes + 3) div 4] dst"

text \<open>\<open>vlwide_get_bytes\<close>: the bytes written to the front of the destination array.\<close>

definition vlwide_get_bytes :: "bus \<Rightarrow> nat \<Rightarrow> u8 list" where
  "vlwide_get_bytes src nbytes =
     concat (map (\<lambda>i. let w = vl_word src i
                      in map (\<lambda>j. ucast (drop_bit (j * 8) w AND 0xFF)) [0..<min 4 (nbytes - i * 4)])
                 [0..<(nbytes + 3) div 4])"

text \<open>The lanes that \<open>tkeep\<close> marks among the first \<open>dw\<close>: the byte count the benches capture.\<close>

definition keep_count :: "nat \<Rightarrow> keep \<Rightarrow> nat" where
  "keep_count dw k = length (filter (\<lambda>b. k AND push_bit b 1 \<noteq> 0) [0..<dw])"

text \<open>\<open>(1ULL << nb) - 1\<close>\<close>

definition keep_mask :: "nat \<Rightarrow> keep" where
  "keep_mask nb = push_bit nb 1 - 1"

lemma vlwide_set_bytes_eq [simp]: "vlwide_set_bytes = set32"
  by (simp add: fun_eq_iff vlwide_set_bytes_def set32_def)

lemma byte_at_or_push:
  assumes "k < 4" "j < 4"
  shows "byte_at (w OR push_bit (j * 8) (ucast (b :: u8)) :: u32) k =
    (if k = j then byte_at w k OR b else byte_at w k)"
proof (rule word_eq_bitsI)
  fix n assume "n < LENGTH(8)"
  with assms show "bit (byte_at (w OR push_bit (j * 8) (ucast b)) k) n =
      bit (if k = j then byte_at w k OR b else byte_at w k) n"
    by (auto simp: bits dest: bit_imp_le_length)
qed

lemma byte_at_zero [lane]: "byte_at 0 k = 0"
  by (simp add: byte_at_def)

lemma le_word_fold:
  assumes "m \<le> 4" "k < 4"
  shows "byte_at (fold (\<lambda>j w. w OR push_bit (j * 8) (ucast (f j :: u8))) [0..<m] (0 :: u32)) k =
    (if k < m then f k else 0)"
  using assms(1)
proof (induction m)
  case 0
  show ?case by (simp add: lane)
next
  case (Suc m)
  then show ?case using assms(2) by (auto simp: byte_at_or_push less_Suc_eq)
qed

lemma byte_at_le_word [lane]:
  "k < 4 \<Longrightarrow> byte_at (le_word src n i) k = (if i * 4 + k < n then src ! (i * 4 + k) else 0)"
  unfolding le_word_def by (subst le_word_fold) auto

lemma set32_fold:
  assumes "k < 64"
  shows "byte_at (fold (\<lambda>i d. vl_put d i (g i)) [0..<m] dst) k =
    (if k div 4 < m then byte_at (g (k div 4)) (k mod 4) else byte_at dst k)"
  using assms by (induction m) (auto simp: lane less_Suc_eq)

lemma byte_at_set32 [lane]:
  assumes "k < 64"
  shows "byte_at (set32 dst src n) k =
    (if k < n then src ! k else if k < 4 * ((n + 3) div 4) then 0 else byte_at dst k)"
proof -
  have eq: "k div 4 * 4 + k mod 4 = k" by simp
  have "k div 4 < (n + 3) div 4 \<longleftrightarrow> k < 4 * ((n + 3) div 4)" by auto
  moreover have "k < n \<Longrightarrow> k div 4 < (n + 3) div 4" by auto
  ultimately show ?thesis
    using eq by (auto simp: set32_def set32_fold [OF assms] lane)
qed

lemma get_byte_word: "j < 4 \<Longrightarrow> ucast (drop_bit (j * 8) w AND 0xFF) = byte_at (w :: u32) j"
proof -
  have mask: "(0xFF :: u32) = mask 8" by (simp add: mask_eq_decr_exp)
  show ?thesis unfolding mask
    by (rule word_eq_bitsI) (auto simp: bits)
qed

lemma concat_map_upt:
  "n \<le> 4 * m \<Longrightarrow> concat (map (\<lambda>i. map (\<lambda>j. f (i * 4 + j)) [0..<min 4 (n - i * 4)]) [0..<m]) = map f [0..<n]"
proof (induction m arbitrary: n)
  case 0
  then show ?case by simp
next
  case (Suc m)
  show ?case
  proof (cases "n \<le> 4 * m")
    case True
    then show ?thesis using Suc.IH [of n] by simp
  next
    case False
    define r where "r = n - 4 * m"
    have n: "n = 4 * m + r" and r: "r \<le> 4" using False Suc.prems by (auto simp: r_def)
    have "concat (map (\<lambda>i. map (\<lambda>j. f (i * 4 + j)) [0..<min 4 (n - i * 4)]) [0..<m]) =
        concat (map (\<lambda>i. map (\<lambda>j. f (i * 4 + j)) [0..<min 4 (4 * m - i * 4)]) [0..<m])"
      by (intro arg_cong [where f = concat] map_cong refl) (auto simp: n min_def)
    then have front: "concat (map (\<lambda>i. map (\<lambda>j. f (i * 4 + j)) [0..<min 4 (n - i * 4)]) [0..<m]) =
        map f [0..<4 * m]"
      using Suc.IH [of "4 * m"] by simp
    have "map f [0..<n] = map f [0..<4 * m] @ map (\<lambda>j. f (m * 4 + j)) [0..<r]"
      unfolding n upt_add_eq_append [OF le0]
      by (auto intro!: nth_equalityI simp: algebra_simps)
    moreover have "min 4 (n - m * 4) = r" using n r by simp
    ultimately show ?thesis by (simp only: upt_Suc_append le0 map_append concat_append front) simp
  qed
qed

lemma vlwide_get_bytes_lanes: "vlwide_get_bytes d n = map (byte_at d) [0..<n]"
proof -
  have "vlwide_get_bytes d n =
      concat (map (\<lambda>i. map (\<lambda>j. byte_at d (i * 4 + j)) [0..<min 4 (n - i * 4)]) [0..<(n + 3) div 4])"
    unfolding vlwide_get_bytes_def Let_def
    by (intro arg_cong [where f = concat] map_cong refl)
      (simp add: get_byte_word byte_at_vl_word)
  then show ?thesis by (simp add: concat_map_upt)
qed

text \<open>What \<open>set32\<close> puts on the bus, \<open>vlwide_get_bytes\<close> reads back.\<close>

lemma get_set_bytes:
  assumes "n \<le> length src" "n \<le> 64"
  shows "vlwide_get_bytes (set32 dst src n) n = take n src"
  unfolding vlwide_get_bytes_lanes
  by (rule nth_equalityI) (use assms in \<open>auto simp: lane\<close>)

lemma keep_mask_eq: "keep_mask nb = mask nb"
  by (simp add: keep_mask_def mask_eq_exp_minus_1)

lemma keep_count_mask:
  assumes "nb \<le> dw" "dw \<le> 63"
  shows "keep_count dw (keep_mask nb) = nb"
proof -
  have test: "keep_mask nb AND push_bit b 1 \<noteq> 0 \<longleftrightarrow> b < nb" if "b < dw" for b
    using that assms unfolding bit_iff_and_push_bit_not_eq_0 [symmetric]
    by (simp add: keep_mask_eq bits)
  have "filter (\<lambda>b. keep_mask nb AND push_bit b 1 \<noteq> 0) [0..<dw] = filter (\<lambda>b. b < nb) [0..<dw]"
    by (rule filter_cong) (simp_all only: test set_upt atLeastLessThan_iff)
  also have "\<dots> = [0..<nb]"
    using assms(1) by (induction dw) (auto simp: le_Suc_eq)
  finally show ?thesis by (simp add: keep_count_def)
qed

section \<open>The bytes of an integer object\<close>

text \<open>The bytes of a word from the lowest up: the order in which an integer object lies in the
  memory of the (little-endian) simulation host, and in which the CRC consumes a data word.\<close>

definition word_bytes :: "'w::len word \<Rightarrow> u8 list" where
  "word_bytes w = map (byte_at w) [0..<LENGTH('w) div 8]"

lemma length_word_bytes [simp]: "length (word_bytes (w :: 'w::len word)) = LENGTH('w) div 8"
  by (simp add: word_bytes_def)

lemma word_bytes_16: "word_bytes (w :: u16) = [byte_at w 0, byte_at w 1]"
  by (simp add: word_bytes_def upt_rec)

lemma word_bytes_32: "word_bytes (w :: u32) = [byte_at w 0, byte_at w 1, byte_at w 2, byte_at w 3]"
proof -
  have "[0..<4] = [0, 1, 2, 3 :: nat]" by code_simp
  then show ?thesis by (simp add: word_bytes_def)
qed

end
