(* ===== verification/Axis_Stage.thy ===== *)
theory Axis_Stage
  imports Byte_Lanes
begin

text \<open>
  The AXI-Stream ready/valid contract between neighbouring modules of the engine, as a locale,
  and the simplest module that keeps it, \<open>rtl/interfaces/axis_register.sv\<close>.

  A stage holds a list of accepted beats that it has not delivered yet. In a cycle out of reset
  it sees an input beat or none (\<open>s_tvalid\<close>) and the ready bit of its successor (\<open>m_tready\<close>); it
  accepts the input exactly when its own ready output is high and delivers its output exactly
  when that is valid and the successor is ready.
\<close>

section \<open>Beats\<close>

text \<open>The forward bus \<open>axis_fwd_t\<close> without its valid bit, which is the option around a beat.\<close>

record axis_beat =
  tdata :: bus
  tkeep :: keep
  tlast :: bool

section \<open>Runs of a stage\<close>

text \<open>A run over the cycles of an environment, and what crossed the two interfaces in it: an
  input is accepted in a cycle where the stage is ready, an output delivered in a cycle where the
  successor is.\<close>

fun stage_run :: "('i option \<Rightarrow> bool \<Rightarrow> 's \<Rightarrow> 's) \<Rightarrow> ('i option \<times> bool) list \<Rightarrow> 's \<Rightarrow> 's" where
  "stage_run step [] s = s"
| "stage_run step ((i, r) # cs) s = stage_run step cs (step i r s)"

fun stage_accepted ::
  "(bool \<Rightarrow> 's \<Rightarrow> bool) \<Rightarrow> ('i option \<Rightarrow> bool \<Rightarrow> 's \<Rightarrow> 's) \<Rightarrow> ('i option \<times> bool) list \<Rightarrow> 's \<Rightarrow> 'i list" where
  "stage_accepted ready step [] s = []"
| "stage_accepted ready step ((i, r) # cs) s =
     (case i of Some b \<Rightarrow> if ready r s then [b] else [] | None \<Rightarrow> []) @
     stage_accepted ready step cs (step i r s)"

text \<open>What enters is what the stage makes of an accepted input, which its state may decide.\<close>

fun stage_entered ::
  "('s \<Rightarrow> 'i \<Rightarrow> 'v) \<Rightarrow> (bool \<Rightarrow> 's \<Rightarrow> bool) \<Rightarrow> ('i option \<Rightarrow> bool \<Rightarrow> 's \<Rightarrow> 's) \<Rightarrow>
     ('i option \<times> bool) list \<Rightarrow> 's \<Rightarrow> 'v list" where
  "stage_entered vin ready step [] s = []"
| "stage_entered vin ready step ((i, r) # cs) s =
     (case i of Some b \<Rightarrow> if ready r s then [vin s b] else [] | None \<Rightarrow> []) @
     stage_entered vin ready step cs (step i r s)"

fun stage_delivered ::
  "('s \<Rightarrow> 'o option) \<Rightarrow> ('i option \<Rightarrow> bool \<Rightarrow> 's \<Rightarrow> 's) \<Rightarrow> ('i option \<times> bool) list \<Rightarrow> 's \<Rightarrow> 'o list" where
  "stage_delivered out step [] s = []"
| "stage_delivered out step ((i, r) # cs) s =
     (case out s of Some b \<Rightarrow> if r then [b] else [] | None \<Rightarrow> []) @
     stage_delivered out step cs (step i r s)"

lemma stage_run_append: "stage_run step (xs @ ys) s = stage_run step ys (stage_run step xs s)"
  by (induction step xs s rule: stage_run.induct) simp_all

lemma stage_entered_pure:
  "stage_entered (\<lambda>_. f) ready step cs s = map f (stage_accepted ready step cs s)"
  by (induction cs arbitrary: s) (auto split: option.split)

lemma stage_entered_id [simp]:
  "stage_entered (\<lambda>_ b. b) ready step cs s = stage_accepted ready step cs s"
  using stage_entered_pure [of "\<lambda>b. b"] by simp

section \<open>The contract\<close>

locale axis_stage =
  fixes inv :: "'s \<Rightarrow> bool"
    and ready :: "bool \<Rightarrow> 's \<Rightarrow> bool"
    and out :: "'s \<Rightarrow> 'o option"
    and step :: "'i option \<Rightarrow> bool \<Rightarrow> 's \<Rightarrow> 's"
    and contents :: "'s \<Rightarrow> 'v list"
    and vin :: "'s \<Rightarrow> 'i \<Rightarrow> 'v"
    and vout :: "'o \<Rightarrow> 'v"
  assumes inv_step: "inv s \<Longrightarrow> inv (step i r s)"
    and contents_step: "inv s \<Longrightarrow> contents (step i r s) =
      (if r \<and> out s \<noteq> None then tl (contents s) else contents s) @
      (case i of Some b \<Rightarrow> if ready r s then [vin s b] else [] | None \<Rightarrow> [])"
    and out_first: "inv s \<Longrightarrow> out s = Some b \<Longrightarrow> contents s \<noteq> [] \<and> hd (contents s) = vout b"
begin

lemma inv_run: "inv s \<Longrightarrow> inv (stage_run step cs s)"
  by (induction cs arbitrary: s) (auto simp: inv_step)

text \<open>Nothing is lost, invented, duplicated or reordered, under any input and back-pressure.\<close>

lemma stream_preserved:
  "inv s \<Longrightarrow> contents s @ stage_entered vin ready step cs s =
     map vout (stage_delivered out step cs s) @ contents (stage_run step cs s)"
proof (induction cs arbitrary: s)
  case Nil
  show ?case by simp
next
  case (Cons c cs)
  obtain i r where c: "c = (i, r)" by (cases c)
  note IH = Cons.IH [OF inv_step [OF Cons.prems], of i r]
  have deliver: "contents s =
      map vout (case out s of Some b \<Rightarrow> if r then [b] else [] | None \<Rightarrow> []) @
      (if r \<and> out s \<noteq> None then tl (contents s) else contents s)"
    using out_first [OF Cons.prems] by (cases "out s") (auto simp: neq_Nil_conv)
  show ?case
    using IH contents_step [OF Cons.prems, of i r]
    by (subst deliver) (simp add: c)
qed

end

text \<open>A stage that never refuses a beat when its successor is ready and holds a valid output
  whenever it holds anything: it empties one beat per cycle.\<close>

locale axis_prompt_stage = axis_stage inv ready out step contents vin vout
  for inv :: "'s \<Rightarrow> bool" and ready :: "bool \<Rightarrow> 's \<Rightarrow> bool" and out :: "'s \<Rightarrow> 'o option"
    and step :: "'i option \<Rightarrow> bool \<Rightarrow> 's \<Rightarrow> 's" and contents :: "'s \<Rightarrow> 'v list"
    and vin :: "'s \<Rightarrow> 'i \<Rightarrow> 'v" and vout :: "'o \<Rightarrow> 'v" +
  assumes prompt: "inv s \<Longrightarrow> out s = None \<longleftrightarrow> contents s = []"
begin

lemma drain_step: "inv s \<Longrightarrow> contents (step None True s) = tl (contents s)"
  using contents_step [of s None True] prompt [of s] by simp

lemma drains:
  "inv s \<Longrightarrow> length (contents s) \<le> n \<Longrightarrow> contents (stage_run step (replicate n (None, True)) s) = []"
proof (induction n arbitrary: s)
  case 0
  then show ?case by simp
next
  case (Suc n)
  have "length (contents (step None True s)) \<le> n"
    using Suc.prems drain_step by simp
  then show ?case using Suc.IH [OF inv_step] Suc.prems by simp
qed

end

text \<open>A stage that a bounded number of cycles without input and with a ready successor empties. Then
  everything that entered comes out.\<close>

locale axis_flush_stage = axis_stage inv ready out step contents vin vout
  for inv :: "'s \<Rightarrow> bool" and ready :: "bool \<Rightarrow> 's \<Rightarrow> bool" and out :: "'s \<Rightarrow> 'o option"
    and step :: "'i option \<Rightarrow> bool \<Rightarrow> 's \<Rightarrow> 's" and contents :: "'s \<Rightarrow> 'v list"
    and vin :: "'s \<Rightarrow> 'i \<Rightarrow> 'v" and vout :: "'o \<Rightarrow> 'v" +
  fixes depth :: nat
  assumes flush: "inv s \<Longrightarrow> contents (stage_run step (replicate depth (None, True)) s) = []"
begin

lemma all_delivered:
  assumes "inv s"
  shows "map vout (stage_delivered out step (cs @ replicate depth (None, True)) s) =
    contents s @ stage_entered vin ready step cs s"
proof -
  have "stage_entered vin ready step (cs @ replicate n (None, True)) s = stage_entered vin ready step cs s" for n
  proof (induction cs arbitrary: s)
    case Nil
    show ?case by (induction n arbitrary: s) simp_all
  next
    case (Cons c cs)
    then show ?case by (cases c) simp
  qed
  then show ?thesis
    using stream_preserved [OF assms, of "cs @ replicate depth (None, True)"] flush [OF inv_run [OF assms]]
    by (simp add: stage_run_append)
qed

end

text \<open>A prompt stage of bounded capacity is one.\<close>

locale axis_bounded_stage = axis_prompt_stage inv ready out step contents vin vout
  for inv :: "'s \<Rightarrow> bool" and ready :: "bool \<Rightarrow> 's \<Rightarrow> bool" and out :: "'s \<Rightarrow> 'o option"
    and step :: "'i option \<Rightarrow> bool \<Rightarrow> 's \<Rightarrow> 's" and contents :: "'s \<Rightarrow> 'v list"
    and vin :: "'s \<Rightarrow> 'i \<Rightarrow> 'v" and vout :: "'o \<Rightarrow> 'v" +
  fixes capacity :: nat
  assumes bounded: "inv s \<Longrightarrow> length (contents s) \<le> capacity"

sublocale axis_bounded_stage \<subseteq> axis_flush_stage inv ready out step contents vin vout capacity
  by unfold_locales (rule drains [OF _ bounded])

section \<open>The rule of the handshake\<close>

text \<open>An output that is offered is binding: as long as the successor does not take it, the stage may
  neither withdraw nor change it.\<close>

locale axis_source =
  fixes inv :: "'s \<Rightarrow> bool" and out :: "'s \<Rightarrow> 'o option" and step :: "'i option \<Rightarrow> bool \<Rightarrow> 's \<Rightarrow> 's"
  assumes source_inv: "inv s \<Longrightarrow> inv (step i r s)"
    and hold: "inv s \<Longrightarrow> out s = Some b \<Longrightarrow> out (step i False s) = Some b"
begin

lemma source_run: "inv s \<Longrightarrow> inv (stage_run step cs s)"
  by (induction cs arbitrary: s) (auto simp: source_inv)

lemma offer_binding:
  assumes "inv s" "out s = Some b"
  shows "if list_ex snd cs then hd (stage_delivered out step cs s) = b \<and> stage_delivered out step cs s \<noteq> []
    else stage_delivered out step cs s = [] \<and> out (stage_run step cs s) = Some b"
  using assms
proof (induction cs arbitrary: s)
  case (Cons c cs)
  obtain i r where c: "c = (i, r)" by (cases c)
  show ?case
  proof (cases r)
    case False
    then show ?thesis using Cons.IH [OF source_inv hold, of s i] Cons.prems by (simp add: c)
  qed (simp add: c Cons.prems)
qed simp

end

text \<open>A prompt stage keeps the rule, as the first of what it holds stays the first.\<close>

sublocale axis_prompt_stage \<subseteq> src: axis_source inv "\<lambda>s. map_option vout (out s)" step
proof
  fix s i r b
  assume inv: "inv s"
  show "inv (step i r s)" by (rule inv_step [OF inv])
  assume "map_option vout (out s) = Some b"
  then have first: "contents s \<noteq> []" "hd (contents s) = b" using out_first [OF inv] by auto
  have "contents (step i False s) \<noteq> []" "hd (contents (step i False s)) = b"
    using contents_step [OF inv, of i False] first by simp_all
  then show "map_option vout (out (step i False s)) = Some b"
    using prompt [OF inv_step [OF inv], of i False] out_first [OF inv_step [OF inv], of i False] by auto
qed

section \<open>The pipeline register \<open>axis_register\<close>\<close>

record axis_reg =
  pipe_beat :: axis_beat
  pipe_valid :: bool

definition reg_ready :: "bool \<Rightarrow> axis_reg \<Rightarrow> bool" where
  "reg_ready m_tready s \<longleftrightarrow> m_tready \<or> \<not> pipe_valid s"

definition reg_out :: "axis_reg \<Rightarrow> axis_beat option" where
  "reg_out s = (if pipe_valid s then Some (pipe_beat s) else None)"

text \<open>The clocked process; \<open>s_b\<close> are the pins \<open>s_tdata\<close>, \<open>s_tkeep\<close>, \<open>s_tlast\<close>.\<close>

definition axis_register_step ::
  "bool \<Rightarrow> axis_beat \<Rightarrow> bool \<Rightarrow> bool \<Rightarrow> axis_reg \<Rightarrow> axis_reg" where
  "axis_register_step rst_n s_b s_tvalid m_tready s =
     (if \<not> rst_n then s\<lparr>pipe_valid := False\<rparr>
      else if m_tready \<or> \<not> pipe_valid s then s\<lparr>pipe_beat := s_b, pipe_valid := s_tvalid\<rparr>
      else s)"

text \<open>A cycle out of reset as the contract sees it; without a valid input the data pins carry
  anything, here \<open>x\<close>.\<close>

definition reg_cycle :: "axis_beat \<Rightarrow> axis_beat option \<Rightarrow> bool \<Rightarrow> axis_reg \<Rightarrow> axis_reg" where
  "reg_cycle x i r s =
     (case i of Some b \<Rightarrow> axis_register_step True b True r s
      | None \<Rightarrow> axis_register_step True x False r s)"

definition reg_contents :: "axis_reg \<Rightarrow> axis_beat list" where
  "reg_contents s = (if pipe_valid s then [pipe_beat s] else [])"

interpretation areg: axis_bounded_stage "\<lambda>_. True" reg_ready reg_out "reg_cycle x" reg_contents "\<lambda>_ b. b" "\<lambda>b. b" 1
  for x
  by unfold_locales
    (auto simp: reg_cycle_def axis_register_step_def reg_contents_def reg_ready_def reg_out_def
      split: option.splits if_splits)

end
