(* ===== verification/Verilated.thy ===== *)
theory Verilated
  imports NPE_Prelude
begin

text \<open>
  The protocol by which the C++ test benches drive a Verilated module. A module object holds
  the input pins, the clock pin and the registers; \<open>eval\<close> runs the module's clocked processes
  once when the clock pin has risen since the last \<open>eval\<close>, with the pin values of that moment.
  The clocked processes of a module are its step function \<open>'p \<Rightarrow> 's \<Rightarrow> 's\<close>, a parameter here and
  given by the RTL theories; output pins are functions of registers and input pins there.

  The power-on values of registers that reset does not write are not determined by the RTL, so
  every property below starts from an arbitrary register state \<open>s\<close>.
\<close>

record ('p, 's) vdut =
  pins :: 'p
  clk :: bool
  clk_prev :: bool
  vregs :: 's

definition power_on :: "'p \<Rightarrow> 's \<Rightarrow> ('p, 's) vdut" where
  "power_on p s = \<lparr>pins = p, clk = False, clk_prev = False, vregs = s\<rparr>"

definition eval :: "('p \<Rightarrow> 's \<Rightarrow> 's) \<Rightarrow> ('p, 's) vdut \<Rightarrow> ('p, 's) vdut" where
  "eval step d =
     d\<lparr>vregs := (if clk d \<and> \<not> clk_prev d then step (pins d) (vregs d) else vregs d),
       clk_prev := clk d\<rparr>"

definition set_clk :: "('p \<Rightarrow> 's \<Rightarrow> 's) \<Rightarrow> bool \<Rightarrow> ('p, 's) vdut \<Rightarrow> ('p, 's) vdut" where
  "set_clk step v d = eval step (d\<lparr>clk := v\<rparr>)"

definition pre :: "('p \<Rightarrow> 's \<Rightarrow> 's) \<Rightarrow> ('p, 's) vdut \<Rightarrow> ('p, 's) vdut" where
  "pre step d = set_clk step False d"

definition post :: "('p \<Rightarrow> 's \<Rightarrow> 's) \<Rightarrow> ('p, 's) vdut \<Rightarrow> ('p, 's) vdut" where
  "post step d = set_clk step True d"

definition tick :: "('p \<Rightarrow> 's \<Rightarrow> 's) \<Rightarrow> ('p, 's) vdut \<Rightarrow> ('p, 's) vdut" where
  "tick step d = post step (pre step d)"

text \<open>\<open>reset(n)\<close>: the reset pin, which \<open>rst\<close> writes, low for \<open>n\<close> cycles and high for one.\<close>

definition reset_dut ::
  "('p \<Rightarrow> 's \<Rightarrow> 's) \<Rightarrow> (bool \<Rightarrow> 'p \<Rightarrow> 'p) \<Rightarrow> nat \<Rightarrow> ('p, 's) vdut \<Rightarrow> ('p, 's) vdut" where
  "reset_dut step rst n d =
     (let d1 = d\<lparr>pins := rst False (pins d)\<rparr>;
          d2 = (tick step ^^ n) d1;
          d3 = d2\<lparr>pins := rst True (pins d2)\<rparr>
      in tick step d3)"

text \<open>
  A test bench moves between two phases: before an edge (\<open>low\<close>, after \<open>pre\<close>) and after one.
  Only \<open>post\<close> of a module whose clock was low runs the clocked processes.
\<close>

lemma pre_simps [edge]:
  "vregs (pre step d) = vregs d"
  "pins (pre step d) = pins d"
  "\<not> clk_prev (pre step d)"
  by (simp_all add: pre_def set_clk_def eval_def)

lemma post_simps [edge]:
  "\<not> clk_prev d \<Longrightarrow> vregs (post step d) = step (pins d) (vregs d)"
  "pins (post step d) = pins d"
  by (simp_all add: post_def set_clk_def eval_def)

lemma tick_simps [edge]:
  "vregs (tick step d) = step (pins d) (vregs d)"
  "pins (tick step d) = pins d"
  by (simp_all add: tick_def edge)

lemma tick_pow_simps [edge]:
  "vregs ((tick step ^^ n) d) = (step (pins d) ^^ n) (vregs d)"
  "pins ((tick step ^^ n) d) = pins d"
  by (induction n) (simp_all add: edge)

lemma reset_dut_simps [edge]:
  "vregs (reset_dut step rst n d) =
     step (rst True (rst False (pins d))) ((step (rst False (pins d)) ^^ n) (vregs d))"
  "pins (reset_dut step rst n d) = rst True (rst False (pins d))"
  by (simp_all add: reset_dut_def Let_def edge)

lemma power_on_simps [edge]:
  "vregs (power_on p s) = s" "pins (power_on p s) = p" "\<not> clk_prev (power_on p s)"
  by (simp_all add: power_on_def)

text \<open>A step that only a reset decides makes any number of reset cycles one.\<close>

lemma funpow_const: "0 < n \<Longrightarrow> (\<And>s. f s = (c :: 's)) \<Longrightarrow> (f ^^ n) (s :: 's) = c"
  by (cases n) auto

end
