(* ===== verification/Axis_Fifo.thy ===== *)
theory Axis_Fifo
  imports Axis_Stage Verilated
begin

text \<open>
  The synchronous FIFO \<open>rtl/interfaces/axis_fifo.sv\<close>, for every power-of-two \<open>DEPTH\<close>: a ring
  buffer with read and write pointers one bit wider than an address and a registered output
  valid bit. It is shown to refine a bounded list queue, and to have the properties that
  \<open>formal/fifo.sv\<close> asserts for depth 4, here for every depth and without a bound on time.
\<close>

section \<open>The module\<close>

text \<open>The payload of an entry is a type parameter: the code stores \<open>{tlast, tkeep, tdata}\<close>.
  A write past the end of the list leaves it unchanged, as a write past the end of a
  SystemVerilog array does.\<close>

record 'a axis_fifo =
  wr_ptr :: nat
  rd_ptr :: nat
  m_tvalid :: bool
  ram :: "'a list"

definition a_width :: "nat \<Rightarrow> nat" where
  "a_width depth = clog2 depth"

definition ptr_diff :: "nat \<Rightarrow> 'a axis_fifo \<Rightarrow> nat" where
  "ptr_diff depth f =
     (let m = 2 ^ (a_width depth + 1) in (wr_ptr f + m - rd_ptr f) mod m)"

definition fifo_used :: "nat \<Rightarrow> 'a axis_fifo \<Rightarrow> nat" where
  "fifo_used depth f = ptr_diff depth f"

definition fifo_empty :: "nat \<Rightarrow> 'a axis_fifo \<Rightarrow> bool" where
  "fifo_empty depth f \<longleftrightarrow> ptr_diff depth f = 0"

definition fifo_full :: "nat \<Rightarrow> 'a axis_fifo \<Rightarrow> bool" where
  "fifo_full depth f \<longleftrightarrow> ptr_diff depth f = depth"

definition almost_full :: "nat \<Rightarrow> nat \<Rightarrow> 'a axis_fifo \<Rightarrow> bool" where
  "almost_full depth th f \<longleftrightarrow> ptr_diff depth f \<ge> th"

definition almost_empty :: "nat \<Rightarrow> nat \<Rightarrow> 'a axis_fifo \<Rightarrow> bool" where
  "almost_empty depth th f \<longleftrightarrow> ptr_diff depth f \<le> th"

definition s_tready :: "nat \<Rightarrow> 'a axis_fifo \<Rightarrow> bool" where
  "s_tready depth f \<longleftrightarrow> \<not> fifo_full depth f"

text \<open>The combinational read port.\<close>

definition rd_raw :: "nat \<Rightarrow> 'a axis_fifo \<Rightarrow> 'a" where
  "rd_raw depth f = ram f ! (rd_ptr f mod 2 ^ a_width depth)"

definition axis_fifo_step ::
  "nat \<Rightarrow> bool \<Rightarrow> 'a \<Rightarrow> bool \<Rightarrow> bool \<Rightarrow> 'a axis_fifo \<Rightarrow> 'a axis_fifo" where
  "axis_fifo_step depth rst_n s_b s_tvalid m_tready f =
     (if \<not> rst_n then f\<lparr>wr_ptr := 0, rd_ptr := 0, m_tvalid := False\<rparr>
      else
        let m = 2 ^ (a_width depth + 1);
            wren = (s_tvalid \<and> s_tready depth f);
            rden = (m_tvalid f \<and> m_tready);
            f1 = (if wren then f\<lparr>wr_ptr := (wr_ptr f + 1) mod m,
                                 ram := (ram f)[wr_ptr f mod 2 ^ a_width depth := s_b]\<rparr>
                  else f)
        in if rden \<and> wren then f1\<lparr>rd_ptr := (rd_ptr f + 1) mod m\<rparr>
           else if rden then
             f1\<lparr>rd_ptr := (rd_ptr f + 1) mod m,
                m_tvalid := (if ptr_diff depth f \<le> 1 then False else m_tvalid f)\<rparr>
           else if wren then f1\<lparr>m_tvalid := True\<rparr>
           else if \<not> m_tvalid f \<and> \<not> fifo_empty depth f then f1\<lparr>m_tvalid := True\<rparr>
           else f1)"

section \<open>Abstraction to a list\<close>

definition fifo_contents :: "nat \<Rightarrow> 'a axis_fifo \<Rightarrow> 'a list" where
  "fifo_contents depth f =
     map (\<lambda>i. ram f ! ((rd_ptr f + i) mod 2 ^ a_width depth)) [0..<ptr_diff depth f]"

text \<open>\<open>fifo_rep k f xs\<close>: the FIFO \<open>f\<close> of depth \<open>2 ^ k\<close> holds exactly the entries \<open>xs\<close>.\<close>

definition fifo_rep :: "nat \<Rightarrow> 'a axis_fifo \<Rightarrow> 'a list \<Rightarrow> bool" where
  "fifo_rep k f xs \<longleftrightarrow>
     length (ram f) = 2 ^ k \<and> rd_ptr f < 2 ^ (k + 1) \<and> length xs \<le> 2 ^ k \<and>
     wr_ptr f = (rd_ptr f + length xs) mod 2 ^ (k + 1) \<and>
     (m_tvalid f \<longleftrightarrow> xs \<noteq> []) \<and>
     (\<forall>i < length xs. ram f ! ((rd_ptr f + i) mod 2 ^ k) = xs ! i)"

definition fifo_inv :: "nat \<Rightarrow> 'a axis_fifo \<Rightarrow> bool" where
  "fifo_inv k f \<longleftrightarrow> fifo_rep k f (fifo_contents (2 ^ k) f)"

lemma a_width_power [simp]: "a_width (2 ^ k) = k"
  by (simp add: a_width_def clog2_power)

lemma ring_diff:
  fixes m :: nat
  assumes "r < m" "n < m"
  shows "((r + n) mod m + m - r) mod m = n"
proof (cases "r + n < m")
  case True
  then show ?thesis using assms by simp
next
  case False
  then have "(r + n) mod m = r + n - m" using assms by (simp add: mod_if)
  then show ?thesis using False assms by simp
qed

lemma ring_index: "(x mod 2 ^ (k + 1) + i) mod 2 ^ k = (x + i) mod (2 ^ k :: nat)"
proof -
  have "x mod 2 ^ (k + 1) mod 2 ^ k = x mod (2 ^ k :: nat)"
    by (rule mod_mod_cancel) simp
  then show ?thesis by (metis mod_add_left_eq)
qed

lemma ring_index_0: "(x mod 2 ^ (k + 1)) mod 2 ^ k = x mod (2 ^ k :: nat)"
  using ring_index [of x k 0] by simp

lemma fifo_repD:
  assumes "fifo_rep k f xs"
  shows "length (ram f) = 2 ^ k" "rd_ptr f < 2 ^ (k + 1)" "length xs \<le> 2 ^ k"
    "wr_ptr f = (rd_ptr f + length xs) mod 2 ^ (k + 1)" "m_tvalid f \<longleftrightarrow> xs \<noteq> []"
    "i < length xs \<Longrightarrow> ram f ! ((rd_ptr f + i) mod 2 ^ k) = xs ! i"
  using assms unfolding fifo_rep_def by blast+

lemma fifo_repI:
  assumes "length (ram f) = 2 ^ k" "rd_ptr f < 2 ^ (k + 1)" "length xs \<le> 2 ^ k"
    "wr_ptr f = (rd_ptr f + length xs) mod 2 ^ (k + 1)" "m_tvalid f \<longleftrightarrow> xs \<noteq> []"
    "\<And>i. i < length xs \<Longrightarrow> ram f ! ((rd_ptr f + i) mod 2 ^ k) = xs ! i"
  shows "fifo_rep k f xs"
  using assms unfolding fifo_rep_def by blast

lemma ptr_diff_rep:
  assumes "fifo_rep k f xs"
  shows "ptr_diff (2 ^ k) f = length xs"
proof -
  have "length xs < 2 ^ (k + 1)"
    using fifo_repD(3) [OF assms] by (rule le_less_trans) simp
  then show ?thesis
    using ring_diff [OF fifo_repD(2) [OF assms]] fifo_repD(4) [OF assms]
    by (simp only: ptr_diff_def Let_def a_width_power)
qed

lemma contents_rep: "fifo_rep k f xs \<Longrightarrow> fifo_contents (2 ^ k) f = xs"
  by (rule nth_equalityI) (simp_all add: fifo_contents_def ptr_diff_rep fifo_repD(6))

lemma fifo_inv_rep: "fifo_inv k f \<longleftrightarrow> (\<exists>xs. fifo_rep k f xs)"
  unfolding fifo_inv_def by (metis contents_rep)

lemma rd_raw_rep:
  assumes "fifo_rep k f xs" "xs \<noteq> []"
  shows "rd_raw (2 ^ k) f = hd xs"
  using fifo_repD(6) [OF assms(1), of 0] assms(2) by (simp add: rd_raw_def hd_conv_nth)

lemma fifo_flags_rep:
  assumes "fifo_rep k f xs"
  shows "fifo_empty (2 ^ k) f \<longleftrightarrow> xs = []" "fifo_full (2 ^ k) f \<longleftrightarrow> length xs = 2 ^ k"
    "fifo_used (2 ^ k) f = length xs" "s_tready (2 ^ k) f \<longleftrightarrow> length xs < 2 ^ k"
    "m_tvalid f \<longleftrightarrow> xs \<noteq> []"
  using fifo_repD(3,5) [OF assms]
  by (auto simp: fifo_empty_def fifo_full_def fifo_used_def s_tready_def ptr_diff_rep [OF assms])

section \<open>One cycle on the abstract list\<close>

text \<open>What a cycle does to a bounded queue: deliver the head, accept the input.\<close>

definition queue_step :: "nat \<Rightarrow> 'a option \<Rightarrow> bool \<Rightarrow> 'a list \<Rightarrow> 'a list" where
  "queue_step n i r xs =
     (if r then tl xs else xs) @
     (case i of Some b \<Rightarrow> if length xs < n then [b] else [] | None \<Rightarrow> [])"

lemma rep_read:
  assumes "fifo_rep k f xs" "xs \<noteq> []"
  shows "fifo_rep k (f\<lparr>rd_ptr := (rd_ptr f + 1) mod 2 ^ (k + 1), m_tvalid := (tl xs \<noteq> [])\<rparr>) (tl xs)"
proof -
  note rep = fifo_repD [OF assms(1)]
  obtain x ys where xs: "xs = x # ys" using assms(2) by (meson neq_Nil_conv)
  have wr: "wr_ptr f = ((rd_ptr f + 1) mod 2 ^ (k + 1) + length ys) mod 2 ^ (k + 1)"
    unfolding rep(4) xs by (simp add: mod_simps)
  have "ram f ! (((rd_ptr f + 1) mod 2 ^ (k + 1) + i) mod 2 ^ k) = ys ! i" if "i < length ys" for i
    using rep(6) [of "Suc i"] that by (simp only: ring_index) (simp add: xs)
  then show ?thesis
    using rep(1,3) wr unfolding xs by (intro fifo_repI) (simp_all del: power_Suc)
qed

lemma rep_write:
  assumes "fifo_rep k f xs" "length xs < 2 ^ k"
  shows "fifo_rep k (f\<lparr>wr_ptr := (wr_ptr f + 1) mod 2 ^ (k + 1),
      ram := (ram f)[wr_ptr f mod 2 ^ k := b], m_tvalid := True\<rparr>) (xs @ [b])"
proof -
  note rep = fifo_repD [OF assms(1)]
  have at: "wr_ptr f mod 2 ^ k = (rd_ptr f + length xs) mod 2 ^ k"
    by (simp only: rep(4) ring_index_0)
  have wr: "(wr_ptr f + 1) mod 2 ^ (k + 1) = (rd_ptr f + length (xs @ [b])) mod 2 ^ (k + 1)"
    by (simp add: rep(4) mod_simps)
  have old: "(rd_ptr f + i) mod 2 ^ k \<noteq> (rd_ptr f + length xs) mod 2 ^ k" if "i < length xs" for i
  proof
    assume "(rd_ptr f + i) mod 2 ^ k = (rd_ptr f + length xs) mod 2 ^ k"
    then have "2 ^ k dvd (rd_ptr f + length xs) - (rd_ptr f + i)"
      using that by (intro mod_eq_dvd_iff_nat [THEN iffD1]) auto
    then have "2 ^ k \<le> length xs - i" using that by (intro dvd_imp_le) auto
    then show False using assms(2) by simp
  qed
  have "(ram f)[wr_ptr f mod 2 ^ k := b] ! ((rd_ptr f + i) mod 2 ^ k) = (xs @ [b]) ! i"
    if "i < length (xs @ [b])" for i
    using that old [of i] rep(1) rep(6) [of i] unfolding at
    by (cases "i < length xs") (auto simp: nth_append less_Suc_eq)
  then show ?thesis
    using rep(1,2) assms(2) wr by (intro fifo_repI) (simp_all del: power_Suc)
qed

lemma fifo_valid_update:
  "m_tvalid f \<Longrightarrow> f\<lparr>wr_ptr := w, ram := m, rd_ptr := r, m_tvalid := True\<rparr> =
    f\<lparr>wr_ptr := w, ram := m, rd_ptr := r\<rparr>"
  by (cases f) simp

lemma rep_step:
  assumes "fifo_rep k f xs"
  shows "fifo_rep k (axis_fifo_step (2 ^ k) True b v r f)
    (queue_step (2 ^ k) (if v then Some b else None) r xs)"
proof -
  note flags = fifo_flags_rep [OF assms] ptr_diff_rep [OF assms]
  define wren where "wren \<longleftrightarrow> v \<and> length xs < 2 ^ k"
  define rden where "rden \<longleftrightarrow> xs \<noteq> [] \<and> r"
  consider (both) "rden" "wren" | (rd) "rden" "\<not> wren" | (wr) "\<not> rden" "wren" | (idle) "\<not> rden" "\<not> wren"
    by blast
  then show ?thesis
  proof cases
    case both
    let ?f = "f\<lparr>wr_ptr := (wr_ptr f + 1) mod 2 ^ (k + 1),
      ram := (ram f)[wr_ptr f mod 2 ^ k := b], m_tvalid := True\<rparr>"
    have "fifo_rep k ?f (xs @ [b])"
      using both by (intro rep_write [OF assms]) (simp add: wren_def)
    from rep_read [OF this]
    have "fifo_rep k (?f\<lparr>rd_ptr := (rd_ptr f + 1) mod 2 ^ (k + 1), m_tvalid := True\<rparr>) (tl xs @ [b])"
      using both by (simp add: rden_def)
    moreover have "m_tvalid f" using both flags by (simp add: rden_def)
    ultimately have "fifo_rep k (f\<lparr>wr_ptr := (wr_ptr f + 1) mod 2 ^ (k + 1),
        ram := (ram f)[wr_ptr f mod 2 ^ k := b], rd_ptr := (rd_ptr f + 1) mod 2 ^ (k + 1)\<rparr>) (tl xs @ [b])"
      using fifo_valid_update [of f] by simp
    then show ?thesis
      using both by (simp add: axis_fifo_step_def Let_def flags queue_step_def wren_def rden_def)
  next
    case rd
    have "fifo_rep k (f\<lparr>rd_ptr := (rd_ptr f + 1) mod 2 ^ (k + 1), m_tvalid := (tl xs \<noteq> [])\<rparr>) (tl xs)"
      using rd by (intro rep_read [OF assms]) (simp add: rden_def)
    moreover have "tl xs \<noteq> [] \<longleftrightarrow> \<not> length xs \<le> 1" by (cases xs) auto
    ultimately show ?thesis
      using rd by (auto simp: axis_fifo_step_def Let_def flags queue_step_def wren_def rden_def)
  next
    case wr
    have "fifo_rep k (f\<lparr>wr_ptr := (wr_ptr f + 1) mod 2 ^ (k + 1),
        ram := (ram f)[wr_ptr f mod 2 ^ k := b], m_tvalid := True\<rparr>) (xs @ [b])"
      using wr by (intro rep_write [OF assms]) (simp add: wren_def)
    then show ?thesis
      using wr by (auto simp: axis_fifo_step_def Let_def flags queue_step_def wren_def rden_def)
  next
    case idle
    then show ?thesis
      using assms by (auto simp: axis_fifo_step_def Let_def flags queue_step_def wren_def rden_def)
  qed
qed

lemma rep_reset: "length (ram f) = 2 ^ k \<Longrightarrow> fifo_rep k (axis_fifo_step (2 ^ k) False b v r f) []"
  by (simp add: axis_fifo_step_def fifo_rep_def)

section \<open>The stream contract\<close>

text \<open>One cycle out of reset as the contract sees it; without a valid input the data pins carry
  anything, here \<open>x\<close>.\<close>

definition fifo_cycle :: "nat \<Rightarrow> 'a \<Rightarrow> 'a option \<Rightarrow> bool \<Rightarrow> 'a axis_fifo \<Rightarrow> 'a axis_fifo" where
  "fifo_cycle depth x i r f =
     (case i of Some b \<Rightarrow> axis_fifo_step depth True b True r f
      | None \<Rightarrow> axis_fifo_step depth True x False r f)"

definition fifo_ready :: "nat \<Rightarrow> bool \<Rightarrow> 'a axis_fifo \<Rightarrow> bool" where
  "fifo_ready depth r f = s_tready depth f"

definition fifo_out :: "nat \<Rightarrow> 'a axis_fifo \<Rightarrow> 'a option" where
  "fifo_out depth f = (if m_tvalid f then Some (rd_raw depth f) else None)"

definition fifo_reset :: "nat \<Rightarrow> 'a \<Rightarrow> 'a axis_fifo \<Rightarrow> 'a axis_fifo" where
  "fifo_reset depth x f = axis_fifo_step depth False x False False f"

lemma rep_cycle:
  "fifo_rep k f xs \<Longrightarrow> fifo_rep k (fifo_cycle (2 ^ k) x i r f) (queue_step (2 ^ k) i r xs)"
  using rep_step [of k f xs _ True r] rep_step [of k f xs x False r]
  by (cases i) (simp_all add: fifo_cycle_def)

lemma fifo_out_rep:
  "fifo_rep k f xs \<Longrightarrow> fifo_out (2 ^ k) f = (case xs of [] \<Rightarrow> None | b # _ \<Rightarrow> Some b)"
  using rd_raw_rep [of k f xs] fifo_flags_rep(5) [of k f xs]
  by (cases xs) (auto simp: fifo_out_def)

interpretation afifo: axis_prompt_stage "fifo_inv k" "fifo_ready (2 ^ k)" "fifo_out (2 ^ k)"
  "fifo_cycle (2 ^ k) x" "fifo_contents (2 ^ k)" "\<lambda>_ b. b" "\<lambda>b. b"
  for k :: nat and x :: 'a
proof unfold_locales
  fix s :: "'a axis_fifo" and i r b
  assume "fifo_inv k s"
  then have rep: "fifo_rep k s (fifo_contents (2 ^ k) s)" by (simp add: fifo_inv_def)
  note step = rep_cycle [OF rep, of x i r]
  show "fifo_inv k (fifo_cycle (2 ^ k) x i r s)"
    using step by (auto simp: fifo_inv_rep)
  show "fifo_contents (2 ^ k) (fifo_cycle (2 ^ k) x i r s) =
      (if r \<and> fifo_out (2 ^ k) s \<noteq> None then tl (fifo_contents (2 ^ k) s) else fifo_contents (2 ^ k) s) @
      (case i of None \<Rightarrow> [] | Some b \<Rightarrow> if fifo_ready (2 ^ k) r s then [b] else [])"
    using contents_rep [OF step] fifo_out_rep [OF rep] fifo_flags_rep(4) [OF rep]
    by (auto simp: queue_step_def fifo_ready_def split: option.splits list.splits)
  show "fifo_out (2 ^ k) s = Some b \<Longrightarrow>
      fifo_contents (2 ^ k) s \<noteq> [] \<and> hd (fifo_contents (2 ^ k) s) = b"
    using fifo_out_rep [OF rep] by (auto split: list.splits)
  show "(fifo_out (2 ^ k) s = None) = (fifo_contents (2 ^ k) s = [])"
    using fifo_out_rep [OF rep] by (auto split: list.splits)
qed

lemma reset_empty:
  assumes "length (ram f) = 2 ^ k"
  shows "fifo_inv k (fifo_reset (2 ^ k) x f)" "fifo_contents (2 ^ k) (fifo_reset (2 ^ k) x f) = []"
  using rep_reset [OF assms, of x False False] contents_rep
  unfolding fifo_reset_def fifo_inv_rep by blast+

section \<open>Properties\<close>

text \<open>Refinement of a bounded queue: for every power-of-two depth and every cycle out of
  reset, the ring buffer with its wrapping pointers does to its contents what a list queue of
  that capacity does: the head leaves when the successor is ready, the input enters when there
  is room, both in the same cycle if both apply; and the representation invariant is kept.\<close>

theorem fifo_refines_queue:
  assumes "fifo_inv k f"
  shows "fifo_inv k (fifo_cycle (2 ^ k) x i r f) \<and>
    fifo_contents (2 ^ k) (fifo_cycle (2 ^ k) x i r f) = queue_step (2 ^ k) i r (fifo_contents (2 ^ k) f)"
  using rep_cycle assms contents_rep unfolding fifo_inv_rep by metis

theorem fifo_refines_queue_witness:
  fixes f :: "nat axis_fifo"
  defines "f \<equiv> fifo_reset 4 0 \<lparr>wr_ptr = 3, rd_ptr = 1, m_tvalid = True, ram = [9, 9, 9, 9]\<rparr>"
  shows "fifo_contents 4 (fifo_cycle 4 0 (Some 7) True f) = [7]"
proof -
  have "fifo_inv 2 f" "fifo_contents 4 f = []"
    using reset_empty [where k = 2 and x = "0 :: nat"] by (simp_all add: f_def)
  then show ?thesis
    using fifo_refines_queue [of 2 f 0 "Some 7" True] by (simp add: queue_step_def)
qed

text \<open>C5: Data integrity of the FIFO after reset, for every power-of-two depth and every
  sequence of inputs and back-pressure: the accepted beats are the delivered beats followed by
  the beats still stored, in order (no loss, duplication or reordering), at most \<open>depth\<close> are
  stored, and \<open>depth\<close> cycles of a ready successor without input empty it.\<close>

theorem fifo_data_integrity:
  fixes f :: "'a axis_fifo" and x :: 'a and cs :: "('a option \<times> bool) list"
  assumes "length (ram f) = 2 ^ k"
  defines "f0 \<equiv> fifo_reset (2 ^ k) x f"
  defines "f' \<equiv> stage_run (fifo_cycle (2 ^ k) x) cs f0"
  shows "stage_accepted (fifo_ready (2 ^ k)) (fifo_cycle (2 ^ k) x) cs f0 =
      stage_delivered (fifo_out (2 ^ k)) (fifo_cycle (2 ^ k) x) cs f0 @ fifo_contents (2 ^ k) f'
    \<and> length (fifo_contents (2 ^ k) f') \<le> 2 ^ k
    \<and> fifo_contents (2 ^ k) (stage_run (fifo_cycle (2 ^ k) x) (replicate (2 ^ k) (None, True)) f') = []"
proof -
  have inv0: "fifo_inv k f0" and empty: "fifo_contents (2 ^ k) f0 = []"
    using reset_empty [OF assms(1)] by (simp_all add: f0_def)
  have inv: "fifo_inv k f'"
    unfolding f'_def by (rule afifo.inv_run [OF inv0])
  then have len: "length (fifo_contents (2 ^ k) f') \<le> 2 ^ k"
    unfolding fifo_inv_def by (rule fifo_repD(3))
  show ?thesis
    using afifo.stream_preserved [OF inv0, of x cs] empty len afifo.drains [OF inv len, of x]
    by (simp add: f'_def)
qed

theorem fifo_data_integrity_witness:
  fixes f :: "nat axis_fifo"
  defines "f \<equiv> \<lparr>wr_ptr = 3, rd_ptr = 1, m_tvalid = True, ram = [9, 9]\<rparr>"
  shows "length (fifo_contents 2 (stage_run (fifo_cycle 2 0)
    [(Some 1, False), (Some 2, False), (Some 3, True)] (fifo_reset 2 0 f))) \<le> 2"
  using fifo_data_integrity [of f 1 0 "[(Some 1, False), (Some 2, False), (Some 3, True)]"]
  by (simp add: f_def)

end
