(* ===== verification/Crc32.thy ===== *)
theory Crc32
  imports Byte_Lanes Verilated
begin

text \<open>
  CRC-32: the bit-serial generator \<open>rtl/interfaces/crc32.sv\<close>, the table-driven
  \<open>PacketMon::crc32\<close> of \<open>sim/packet_monitors/packet_mon.h\<close>, and the test bench
  \<open>sim/testbenches/tb_crc.cpp\<close>. The two implementations are shown to agree on every packet.
\<close>

section \<open>The generator of the RTL\<close>

record crc_regs =
  crc_state :: u32
  crc_out :: u32
  crc_valid :: bool

record 'w crc_pins =
  crc_rst_n :: bool
  data_in :: 'w
  data_valid :: bool
  data_last :: bool

text \<open>One iteration of the combinational loop, for the data bit \<open>b\<close>.\<close>

definition crc_bit :: "bool \<Rightarrow> u32 \<Rightarrow> u32" where
  "crc_bit b crc =
     (let fb = (bit crc 0 \<noteq> b); shifted = drop_bit 1 crc
      in if fb then shifted XOR 0xEDB88320 else shifted)"

definition crc_next :: "'w::len word \<Rightarrow> u32 \<Rightarrow> u32" where
  "crc_next d crc = fold (\<lambda>i. crc_bit (bit d i)) [0..<LENGTH('w)] crc"

definition crc32_step :: "'w::len word crc_pins \<Rightarrow> crc_regs \<Rightarrow> crc_regs" where
  "crc32_step p s =
     (if \<not> crc_rst_n p then \<lparr>crc_state = 0xFFFFFFFF, crc_out = 0, crc_valid = False\<rparr>
      else if data_valid p then
        if data_last p then
          \<lparr>crc_state = 0xFFFFFFFF, crc_out = NOT (crc_next (data_in p) (crc_state s)), crc_valid = True\<rparr>
        else s\<lparr>crc_state := crc_next (data_in p) (crc_state s), crc_valid := False\<rparr>
      else s\<lparr>crc_valid := False\<rparr>)"

section \<open>The table-driven CRC of the packet monitor\<close>

definition crc32_table :: "u32 list" where
  "crc32_table = [
     0x00000000, 0x77073096, 0xEE0E612C, 0x990951BA, 0x076DC419, 0x706AF48F, 0xE963A535, 0x9E6495A3,
     0x0EDB8832, 0x79DCB8A4, 0xE0D5E91E, 0x97D2D988, 0x09B64C2B, 0x7EB17CBD, 0xE7B82D07, 0x90BF1D91,
     0x1DB71064, 0x6AB020F2, 0xF3B97148, 0x84BE41DE, 0x1ADAD47D, 0x6DDDE4EB, 0xF4D4B551, 0x83D385C7,
     0x136C9856, 0x646BA8C0, 0xFD62F97A, 0x8A65C9EC, 0x14015C4F, 0x63066CD9, 0xFA0F3D63, 0x8D080DF5,
     0x3B6E20C8, 0x4C69105E, 0xD56041E4, 0xA2677172, 0x3C03E4D1, 0x4B04D447, 0xD20D85FD, 0xA50AB56B,
     0x35B5A8FA, 0x42B2986C, 0xDBBBC9D6, 0xACBCF940, 0x32D86CE3, 0x45DF5C75, 0xDCD60DCF, 0xABD13D59,
     0x26D930AC, 0x51DE003A, 0xC8D75180, 0xBFD06116, 0x21B4F4B5, 0x56B3C423, 0xCFBA9599, 0xB8BDA50F,
     0x2802B89E, 0x5F058808, 0xC60CD9B2, 0xB10BE924, 0x2F6F7C87, 0x58684C11, 0xC1611DAB, 0xB6662D3D,
     0x76DC4190, 0x01DB7106, 0x98D220BC, 0xEFD5102A, 0x71B18589, 0x06B6B51F, 0x9FBFE4A5, 0xE8B8D433,
     0x7807C9A2, 0x0F00F934, 0x9609A88E, 0xE10E9818, 0x7F6A0DBB, 0x086D3D2D, 0x91646C97, 0xE6635C01,
     0x6B6B51F4, 0x1C6C6162, 0x856530D8, 0xF262004E, 0x6C0695ED, 0x1B01A57B, 0x8208F4C1, 0xF50FC457,
     0x65B0D9C6, 0x12B7E950, 0x8BBEB8EA, 0xFCB9887C, 0x62DD1DDF, 0x15DA2D49, 0x8CD37CF3, 0xFBD44C65,
     0x4DB26158, 0x3AB551CE, 0xA3BC0074, 0xD4BB30E2, 0x4ADFA541, 0x3DD895D7, 0xA4D1C46D, 0xD3D6F4FB,
     0x4369E96A, 0x346ED9FC, 0xAD678846, 0xDA60B8D0, 0x44042D73, 0x33031DE5, 0xAA0A4C5F, 0xDD0D7CC9,
     0x5005713C, 0x270241AA, 0xBE0B1010, 0xC90C2086, 0x5768B525, 0x206F85B3, 0xB966D409, 0xCE61E49F,
     0x5EDEF90E, 0x29D9C998, 0xB0D09822, 0xC7D7A8B4, 0x59B33D17, 0x2EB40D81, 0xB7BD5C3B, 0xC0BA6CAD,
     0xEDB88320, 0x9ABFB3B6, 0x03B6E20C, 0x74B1D29A, 0xEAD54739, 0x9DD277AF, 0x04DB2615, 0x73DC1683,
     0xE3630B12, 0x94643B84, 0x0D6D6A3E, 0x7A6A5AA8, 0xE40ECF0B, 0x9309FF9D, 0x0A00AE27, 0x7D079EB1,
     0xF00F9344, 0x8708A3D2, 0x1E01F268, 0x6906C2FE, 0xF762575D, 0x806567CB, 0x196C3671, 0x6E6B06E7,
     0xFED41B76, 0x89D32BE0, 0x10DA7A5A, 0x67DD4ACC, 0xF9B9DF6F, 0x8EBEEFF9, 0x17B7BE43, 0x60B08ED5,
     0xD6D6A3E8, 0xA1D1937E, 0x38D8C2C4, 0x4FDFF252, 0xD1BB67F1, 0xA6BC5767, 0x3FB506DD, 0x48B2364B,
     0xD80D2BDA, 0xAF0A1B4C, 0x36034AF6, 0x41047A60, 0xDF60EFC3, 0xA867DF55, 0x316E8EEF, 0x4669BE79,
     0xCB61B38C, 0xBC66831A, 0x256FD2A0, 0x5268E236, 0xCC0C7795, 0xBB0B4703, 0x220216B9, 0x5505262F,
     0xC5BA3BBE, 0xB2BD0B28, 0x2BB45A92, 0x5CB36A04, 0xC2D7FFA7, 0xB5D0CF31, 0x2CD99E8B, 0x5BDEAE1D,
     0x9B64C2B0, 0xEC63F226, 0x756AA39C, 0x026D930A, 0x9C0906A9, 0xEB0E363F, 0x72076785, 0x05005713,
     0x95BF4A82, 0xE2B87A14, 0x7BB12BAE, 0x0CB61B38, 0x92D28E9B, 0xE5D5BE0D, 0x7CDCEFB7, 0x0BDBDF21,
     0x86D3D2D4, 0xF1D4E242, 0x68DDB3F8, 0x1FDA836E, 0x81BE16CD, 0xF6B9265B, 0x6FB077E1, 0x18B74777,
     0x88085AE6, 0xFF0F6A70, 0x66063BCA, 0x11010B5C, 0x8F659EFF, 0xF862AE69, 0x616BFFD3, 0x166CCF45,
     0xA00AE278, 0xD70DD2EE, 0x4E048354, 0x3903B3C2, 0xA7672661, 0xD06016F7, 0x4969474D, 0x3E6E77DB,
     0xAED16A4A, 0xD9D65ADC, 0x40DF0B66, 0x37D83BF0, 0xA9BCAE53, 0xDEBB9EC5, 0x47B2CF7F, 0x30B5FFE9,
     0xBDBDF21C, 0xCABAC28A, 0x53B39330, 0x24B4A3A6, 0xBAD03605, 0xCDD70693, 0x54DE5729, 0x23D967BF,
     0xB3667A2E, 0xC4614AB8, 0x5D681B02, 0x2A6F2B94, 0xB40BBE37, 0xC30C8EA1, 0x5A05DF1B, 0x2D02EF8D]"

definition crc_byte :: "u8 \<Rightarrow> u32 \<Rightarrow> u32" where
  "crc_byte b crc = (crc32_table ! unat ((crc XOR ucast b) AND 0xFF)) XOR drop_bit 8 crc"

definition crc32 :: "u8 list \<Rightarrow> u32" where
  "crc32 data = fold crc_byte data 0xFFFFFFFF XOR 0xFFFFFFFF"

section \<open>Shifting out bits is linear\<close>

text \<open>\<open>crc_shift\<close> is one step of the register with no data; every CRC step reduces to it.\<close>

definition crc_shift :: "u32 \<Rightarrow> u32" where
  "crc_shift c = drop_bit 1 c XOR (if bit c 0 then 0xEDB88320 else 0)"

lemma crc_bit_shift: "crc_bit b c = crc_shift (c XOR of_bool b)"
proof -
  have "drop_bit 1 (c XOR of_bool b) = drop_bit 1 c"
    by (rule word_eq_bitsI) (auto simp: bits bit_1_iff)
  then show ?thesis
    by (cases b) (auto simp: crc_bit_def crc_shift_def Let_def bits bit_1_iff)
qed

lemma crc_shift_xor: "crc_shift (a XOR b) = crc_shift a XOR crc_shift b"
  by (rule word_eq_bitsI) (auto simp: crc_shift_def bits)

lemma crc_shifts_xor: "(crc_shift ^^ n) (a XOR b) = (crc_shift ^^ n) a XOR (crc_shift ^^ n) b"
  by (induction n) (simp_all add: crc_shift_xor)

lemma crc_shifts_low_zero:
  "(\<And>k. k < n \<Longrightarrow> \<not> bit c k) \<Longrightarrow> (crc_shift ^^ n) c = drop_bit n c"
proof (induction n)
  case 0
  show ?case by simp
next
  case (Suc n)
  then have "(crc_shift ^^ n) c = drop_bit n c" and "\<not> bit c n" by simp_all
  moreover have "crc_shift (drop_bit n c) = drop_bit (Suc n) c" if "\<not> bit c n"
    using that by (simp add: crc_shift_def bits)
  ultimately show ?case by simp
qed

lemma crc_bits_take:
  assumes "n \<le> 8"
  shows "fold (\<lambda>i. crc_bit (bit (b :: u8) i)) [0..<n] c = (crc_shift ^^ n) (c XOR ucast (take_bit n b))"
  using assms
proof (induction n)
  case 0
  show ?case by simp
next
  case (Suc n)
  have one: "(crc_shift ^^ n) (push_bit n (of_bool (bit b n))) = of_bool (bit b n)"
    using Suc.prems
    by (subst crc_shifts_low_zero)
      (auto simp: bit_push_bit_iff intro!: word_eq_bitsI simp: bit_drop_bit_eq bit_exp_iff bit_1_iff)
  have split: "ucast (take_bit (Suc n) b) = (ucast (take_bit n b) :: u32) XOR push_bit n (of_bool (bit b n))"
    using Suc.prems
    by (intro word_eq_bitsI) (auto simp: bits bit_1_iff bit_take_bit_iff less_Suc_eq)
  have "fold (\<lambda>i. crc_bit (bit b i)) [0..<Suc n] c =
      crc_bit (bit b n) ((crc_shift ^^ n) (c XOR ucast (take_bit n b)))"
    using Suc by simp
  also have "\<dots> = crc_shift ((crc_shift ^^ n) (c XOR ucast (take_bit n b)) XOR of_bool (bit b n))"
    by (rule crc_bit_shift)
  also have "\<dots> = (crc_shift ^^ Suc n) (c XOR ucast (take_bit (Suc n) b))"
    using one by (simp add: split crc_shifts_xor crc_shift_xor xor.assoc)
  finally show ?case .
qed

text \<open>The table holds the value of eight shifts for every byte; each entry is evaluated.\<close>

definition crc_shift8 :: "u32 \<Rightarrow> u32" where
  "crc_shift8 c =
     crc_shift (crc_shift (crc_shift (crc_shift (crc_shift (crc_shift (crc_shift (crc_shift c)))))))"

fun shifts_from :: "nat \<Rightarrow> u32 list \<Rightarrow> bool" where
  "shifts_from i [] = True"
| "shifts_from i (x # xs) = (crc_shift8 (of_nat i) = x \<and> shifts_from (Suc i) xs)"

lemma crc_shift8_pow: "(crc_shift ^^ 8) c = crc_shift8 c"
  by (simp add: crc_shift8_def numeral_eq_Suc)

lemma shifts_from_nth: "shifts_from i xs \<Longrightarrow> k < length xs \<Longrightarrow> xs ! k = crc_shift8 (of_nat (i + k))"
proof (induction i xs arbitrary: k rule: shifts_from.induct)
  case (2 i x xs)
  then show ?case by (cases k) auto
qed simp

lemma shifts_from_table: "shifts_from 0 crc32_table"
  by (simp add: crc32_table_def crc_shift8_def crc_shift_def)

lemma crc32_table_nth: "k < 256 \<Longrightarrow> crc32_table ! k = crc_shift8 (of_nat k)"
  using shifts_from_nth [OF shifts_from_table, of k] by (simp add: crc32_table_def)

text \<open>So one table step is eight bit steps.\<close>

lemma crc_byte_shifts: "crc_byte b c = (crc_shift ^^ 8) (c XOR ucast b)"
proof -
  define x where "x = c XOR ucast b"
  have mask: "(0xFF :: u32) = mask 8" by (simp add: mask_eq_decr_exp)
  have low: "x AND 0xFF = take_bit 8 x" by (simp add: mask take_bit_eq_mask)
  have "unat (x AND 0xFF) < 256"
    unfolding low unsigned_take_bit_eq by (simp add: take_bit_eq_mod)
  then have table: "crc32_table ! unat (x AND 0xFF) = (crc_shift ^^ 8) (take_bit 8 x)"
    by (simp add: crc32_table_nth crc_shift8_pow low)
  have split: "x = take_bit 8 x XOR push_bit 8 (drop_bit 8 x)"
    by (rule word_eq_bitsI) (auto simp: bits bit_take_bit_iff)
  have high: "(crc_shift ^^ 8) (push_bit 8 (drop_bit 8 x)) = drop_bit 8 x"
    by (subst crc_shifts_low_zero)
      (auto simp: bits intro!: word_eq_bitsI, drule bit_imp_le_length, simp)
  have drop: "drop_bit 8 x = drop_bit 8 c"
    by (rule word_eq_bitsI) (auto simp: x_def bits dest: bit_imp_le_length)
  have "(crc_shift ^^ 8) x = (crc_shift ^^ 8) (take_bit 8 x) XOR drop_bit 8 x"
    by (subst split) (simp only: crc_shifts_xor high)
  then show ?thesis
    by (simp add: crc_byte_def table drop flip: x_def)
qed

lemma crc_byte_bits: "fold (\<lambda>i. crc_bit (bit b i)) [0..<8] c = crc_byte b c"
proof -
  have "take_bit 8 b = b" by (rule word_eq_bitsI) (simp add: bit_take_bit_iff)
  then show ?thesis using crc_bits_take [of 8 b c] by (simp add: crc_byte_shifts)
qed

section \<open>The two implementations agree\<close>

lemma crc_next_prefix:
  fixes d :: "'w::len word"
  shows "fold (\<lambda>i. crc_bit (bit d i)) [0..<8 * m] c = fold crc_byte (map (byte_at d) [0..<m]) c"
proof (induction m arbitrary: c)
  case 0
  show ?case by simp
next
  case (Suc m)
  have upt: "[0..<8 * Suc m] = [0..<8 * m] @ map (\<lambda>i. i + 8 * m) [0..<8]"
    unfolding map_add_upt using upt_add_eq_append [of 0 "8 * m" 8] by (simp add: algebra_simps)
  have "fold (\<lambda>i. crc_bit (bit d i)) (map (\<lambda>i. i + 8 * m) [0..<8]) e =
      fold (\<lambda>i. crc_bit (bit (byte_at d m) i)) [0..<8] e" for e
    unfolding fold_map comp_def
    by (rule fold_cong) (auto simp: bits algebra_simps)
  then show ?case
    by (simp only: upt fold_append comp_apply Suc.IH crc_byte_bits upt_Suc_append le0
        map_append list.map fold_simps)
qed

lemma crc_next_bytes:
  assumes "LENGTH('w) mod 8 = 0"
  shows "crc_next (d :: 'w::len word) c = fold crc_byte (word_bytes d) c"
proof -
  have "LENGTH('w) = 8 * (LENGTH('w) div 8)" using assms by presburger
  then show ?thesis
    unfolding crc_next_def word_bytes_def by (metis crc_next_prefix)
qed

text \<open>
  The stream view of the generator: the values on \<open>crc_out\<close> in the cycles where \<open>crc_valid\<close>
  is high, and the frames that an input stream delimits with \<open>data_valid\<close> and \<open>data_last\<close>.
\<close>

fun crc_outputs :: "'w::len word crc_pins list \<Rightarrow> crc_regs \<Rightarrow> u32 list" where
  "crc_outputs [] s = []"
| "crc_outputs (p # ps) s =
     (let s' = crc32_step p s
      in (if crc_valid s' then [crc_out s'] else []) @ crc_outputs ps s')"

fun crc_frames :: "'w list \<Rightarrow> 'w crc_pins list \<Rightarrow> 'w list list" where
  "crc_frames acc [] = []"
| "crc_frames acc (p # ps) =
     (if \<not> data_valid p then crc_frames acc ps
      else if data_last p then (acc @ [data_in p]) # crc_frames [] ps
      else crc_frames (acc @ [data_in p]) ps)"

definition frame_bytes :: "'w::len word list \<Rightarrow> u8 list" where
  "frame_bytes ws = concat (map word_bytes ws)"

lemma frame_bytes_simps [simp]:
  "frame_bytes [] = []"
  "frame_bytes (xs @ ys) = frame_bytes xs @ frame_bytes ys"
  "frame_bytes [w] = word_bytes w"
  by (simp_all add: frame_bytes_def)

lemma not_eq_xor: "NOT (x :: u32) = x XOR 0xFFFFFFFF"
proof -
  have mask: "(0xFFFFFFFF :: u32) = mask 32" by (simp add: mask_eq_decr_exp)
  show ?thesis unfolding mask by (rule word_eq_bitsI) (auto simp: bits)
qed

lemma crc_outputs_frames:
  fixes ps :: "'w::len word crc_pins list"
  assumes "LENGTH('w) mod 8 = 0"
  shows "list_all crc_rst_n ps \<Longrightarrow> crc_state s = fold crc_byte (frame_bytes acc) 0xFFFFFFFF \<Longrightarrow>
    crc_outputs ps s = map (\<lambda>f. crc32 (frame_bytes f)) (crc_frames acc ps)"
proof (induction ps arbitrary: s acc)
  case Nil
  show ?case by simp
next
  case (Cons p ps)
  show ?case
    using Cons.prems Cons.IH [of _ "[]"] Cons.IH [of _ acc] Cons.IH [of _ "acc @ [data_in p]"]
    by (auto simp: crc32_step_def Let_def crc_next_bytes [OF assms] crc32_def not_eq_xor)
qed

section \<open>The test bench \<open>tb_crc\<close>\<close>

type_synonym crc_dut = "(u32 crc_pins, crc_regs) vdut"

definition crc_pins0 :: "u32 crc_pins" where
  "crc_pins0 = \<lparr>crc_rst_n = False, data_in = 0, data_valid = False, data_last = False\<rparr>"

definition crc_reset :: "crc_dut \<Rightarrow> crc_dut" where
  "crc_reset d = reset_dut crc32_step (\<lambda>b p. p\<lparr>crc_rst_n := b\<rparr>) 4 d"

definition crc_set_valid :: "bool \<Rightarrow> crc_dut \<Rightarrow> crc_dut" where
  "crc_set_valid v d = d\<lparr>pins := (pins d)\<lparr>data_valid := v\<rparr>\<rparr>"

text \<open>\<open>pre(); data_in = w; data_valid = 1; data_last = last; post();\<close>\<close>

definition crc_send :: "u32 \<Rightarrow> bool \<Rightarrow> crc_dut \<Rightarrow> crc_dut" where
  "crc_send w lst d =
     (let d1 = pre crc32_step d;
          d2 = d1\<lparr>pins := (pins d1)\<lparr>data_in := w, data_valid := True, data_last := lst\<rparr>\<rparr>
      in post crc32_step d2)"

text \<open>The tail of both tests: look at the output at once, else one cycle later.\<close>

definition crc_check :: "u32 \<Rightarrow> crc_dut \<Rightarrow> bool" where
  "crc_check expected d =
     (let d1 = crc_set_valid False (pre crc32_step d)
      in if crc_valid (vregs d1) then crc_out (vregs d1) = expected
         else let d2 = pre crc32_step (post crc32_step d1)
              in if crc_valid (vregs d2) then crc_out (vregs d2) = expected else False)"

definition test_known_vector :: "crc_regs \<Rightarrow> bool" where
  "test_known_vector s0 =
     (let d = crc_set_valid False (crc_reset (power_on crc_pins0 s0));
          beat0 = 0x31 OR push_bit 8 0x32 OR push_bit 16 0x33 OR push_bit 24 0x34;
          beat1 = 0x35 OR push_bit 8 0x36 OR push_bit 16 0x37 OR push_bit 24 0x38
      in crc_check 0x9AE0DAAF (crc_send beat1 True (crc_send beat0 False d)))"

definition test_single_word :: "crc_regs \<Rightarrow> bool" where
  "test_single_word s0 =
     (let d = crc_set_valid False (crc_reset (power_on crc_pins0 s0));
          word = 0x31 OR push_bit 8 0x32 OR push_bit 16 0x33 OR push_bit 24 0x34
      in crc_check 0x9BE3E0A3 (crc_send word True d))"

definition tb_crc_main :: "crc_regs \<Rightarrow> crc_regs \<Rightarrow> int" where
  "tb_crc_main s1 s2 = (if test_known_vector s1 \<and> test_single_word s2 then 0 else 1)"

lemma crc_send_simps [edge]:
  "vregs (crc_send w lst d) =
     crc32_step ((pins d)\<lparr>data_in := w, data_valid := True, data_last := lst\<rparr>) (vregs d)"
  "pins (crc_send w lst d) = (pins d)\<lparr>data_in := w, data_valid := True, data_last := lst\<rparr>"
  by (simp_all add: crc_send_def Let_def edge)

lemma crc_reset_simps [edge]:
  "vregs (crc_reset d) = (crc32_step (pins (crc_reset d)) ^^ 1)
     \<lparr>crc_state = 0xFFFFFFFF, crc_out = 0, crc_valid = False\<rparr>"
  "pins (crc_reset d) = (pins d)\<lparr>crc_rst_n := True\<rparr>"
  by (simp_all add: crc_reset_def edge funpow_const crc32_step_def)

text \<open>
  After reset the bench sends a frame beat by beat and reads the check value of the monitor.
\<close>

definition crc_send_frame :: "u32 list \<Rightarrow> crc_dut \<Rightarrow> crc_dut" where
  "crc_send_frame ws d = crc_send (last ws) True (fold (\<lambda>w. crc_send w False) (butlast ws) d)"

lemma crc_sends_state:
  assumes "crc_rst_n (pins d)" "crc_state (vregs d) = c"
  shows "crc_rst_n (pins (fold (\<lambda>w. crc_send w False) ws d)) \<and>
    crc_state (vregs (fold (\<lambda>w. crc_send w False) ws d)) = fold crc_byte (frame_bytes ws) c"
  using assms
proof (induction ws arbitrary: d c)
  case (Cons w ws)
  have "frame_bytes (w # ws) = word_bytes w @ frame_bytes ws" by (simp add: frame_bytes_def)
  then show ?case
    using Cons.IH [of "crc_send w False d" "crc_next w c"] Cons.prems
    by (simp add: edge crc32_step_def crc_next_bytes)
qed simp

lemma crc_send_frame_out:
  assumes "crc_rst_n (pins d)" "crc_state (vregs d) = 0xFFFFFFFF" "ws \<noteq> []"
  shows "crc_valid (vregs (crc_send_frame ws d))"
    and "crc_out (vregs (crc_send_frame ws d)) = crc32 (frame_bytes ws)"
proof -
  have ws: "frame_bytes ws = frame_bytes (butlast ws) @ word_bytes (last ws)"
    using assms(3) by (metis append_butlast_last_id frame_bytes_simps(2,3))
  show "crc_valid (vregs (crc_send_frame ws d))"
    and "crc_out (vregs (crc_send_frame ws d)) = crc32 (frame_bytes ws)"
    using crc_sends_state [OF assms(1,2), of "butlast ws"]
    by (simp_all add: crc_send_frame_def edge crc32_step_def crc_next_bytes crc32_def ws not_eq_xor)
qed

section \<open>Properties\<close>

text \<open>One bus cycle of the stream interface: \<open>data_valid\<close>, \<open>data_last\<close> and the word.\<close>

definition crc_cycle :: "bool \<times> bool \<times> u32 \<Rightarrow> u32 crc_pins" where
  "crc_cycle c = (case c of (v, l, w) \<Rightarrow>
     \<lparr>crc_rst_n = True, data_in = w, data_valid = v, data_last = l\<rparr>)"

text \<open>C10: After reset, whatever the register contents were, and for every sequence of bus cycles
  with idle cycles anywhere, the values the RTL generator presents on \<open>crc_out\<close> under
  \<open>crc_valid\<close> are exactly the table-driven CRC-32 values of \<open>PacketMon::crc32\<close> over the bytes
  of the frames on the bus, one per frame and in order: the bit-serial and the table-driven
  implementations compute the same function, and no state leaks from one frame to the next.\<close>

theorem crc_stream_equals_monitor_crc:
  "crc_outputs (map crc_cycle cs) (crc32_step crc_pins0 s0) =
     map (\<lambda>f. crc32 (frame_bytes f)) (crc_frames [] (map crc_cycle cs))"
proof (rule crc_outputs_frames)
  show "list_all crc_rst_n (map crc_cycle cs)"
    by (auto simp: list_all_iff crc_cycle_def)
qed (simp_all add: crc32_step_def crc_pins0_def)

lemma crc_check_vectors:
  "crc32 [0x31, 0x32, 0x33, 0x34, 0x35, 0x36, 0x37, 0x38] = 0x9AE0DAAF"
  "crc32 [0x31, 0x32, 0x33, 0x34] = 0x9BE3E0A3"
  by (simp_all add: crc32_def crc_byte_shifts crc_shift8_pow crc_shift8_def crc_shift_def)

lemma crc_bench_words:
  "word_bytes (0x34333231 :: u32) = [0x31, 0x32, 0x33, 0x34]"
  "word_bytes (0x38373635 :: u32) = [0x35, 0x36, 0x37, 0x38]"
  by (simp_all add: word_bytes_def byte_at_def upt_rec)

lemma crc_check_after_frame:
  assumes "crc_rst_n (pins d)" "crc_state (vregs d) = 0xFFFFFFFF" "ws \<noteq> []"
  shows "crc_check expected (crc_send_frame ws d) \<longleftrightarrow> crc32 (frame_bytes ws) = expected"
  using crc_send_frame_out [OF assms] by (simp add: crc_check_def crc_set_valid_def Let_def edge)

lemma crc_ready_after_reset:
  "crc_rst_n (pins (crc_set_valid False (crc_reset (power_on crc_pins0 s))))"
  "crc_state (vregs (crc_set_valid False (crc_reset (power_on crc_pins0 s)))) = 0xFFFFFFFF"
  by (simp_all add: crc_set_valid_def crc_pins0_def edge crc32_step_def)

text \<open>The test bench \<open>tb_crc\<close> passes (exit code 0) from every power-on state of the
  generator: the generator's check values of "12345678" and "1234" are the published ones.\<close>

theorem tb_crc_passes: "tb_crc_main s1 s2 = 0"
proof -
  have "test_known_vector s1"
    using crc_check_after_frame [OF crc_ready_after_reset, of "[0x34333231, 0x38373635]"]
    by (simp add: test_known_vector_def crc_send_frame_def frame_bytes_def crc_bench_words
        crc_check_vectors)
  moreover have "test_single_word s2"
    using crc_check_after_frame [OF crc_ready_after_reset, of "[0x34333231]"]
    by (simp add: test_single_word_def crc_send_frame_def frame_bytes_def crc_bench_words
        crc_check_vectors)
  ultimately show ?thesis by (simp add: tb_crc_main_def)
qed

end
