(* ===== verification/Packet_Mon.thy ===== *)
theory Packet_Mon
  imports Crc32
begin

text \<open>
  The scoreboard of the test benches, class \<open>PacketMon\<close> of \<open>sim/packet_monitors/packet_mon.h\<close>:
  it reassembles output beats into packets and compares them with a queue of expected packets.
  Error messages are not modelled; the counters they go with are.
\<close>

record packet_mon =
  rx_beats :: "u8 list"
  rx_bytes :: "u8 list"
  expected :: "u8 list list"
  pkt_count :: int
  error_count :: int

text \<open>\<open>reset\<close> does not touch the queue of expected packets.\<close>

definition mon_reset :: "packet_mon \<Rightarrow> packet_mon" where
  "mon_reset m = m\<lparr>rx_beats := [], rx_bytes := [], pkt_count := 0, error_count := 0\<rparr>"

definition mon_new :: packet_mon where
  "mon_new = mon_reset \<lparr>rx_beats = [], rx_bytes = [], expected = [], pkt_count = 0, error_count = 0\<rparr>"

definition pending :: "packet_mon \<Rightarrow> int" where
  "pending m = int (length (expected m))"

definition mon_expect :: "u8 list \<Rightarrow> packet_mon \<Rightarrow> packet_mon" where
  "mon_expect packet m = m\<lparr>expected := expected m @ [packet]\<rparr>"

definition check_next :: "packet_mon \<Rightarrow> bool \<times> packet_mon" where
  "check_next m =
     (case expected m of
        [] \<Rightarrow> (False, m\<lparr>error_count := error_count m + 1\<rparr>)
      | e # es \<Rightarrow>
          if rx_bytes m \<noteq> e then
            (False, m\<lparr>error_count := error_count m + 1, expected := es, rx_bytes := []\<rparr>)
          else (True, m\<lparr>expected := es, rx_bytes := []\<rparr>))"

text \<open>The last four bytes read as a frame check sequence, first byte most significant.\<close>

definition stored_crc :: "u8 list \<Rightarrow> u32" where
  "stored_crc pkt = (let n = length pkt in
     0 OR push_bit 24 (ucast (pkt ! (n - 4))) OR push_bit 16 (ucast (pkt ! (n - 3)))
       OR push_bit 8 (ucast (pkt ! (n - 2))) OR ucast (pkt ! (n - 1)))"

definition validate_packet :: "u8 list \<Rightarrow> bool" where
  "validate_packet pkt =
     (if length pkt < 64 then True
      else if length pkt \<ge> 4 then
        if crc32 (take (length pkt - 4) pkt) \<noteq> stored_crc pkt then True else True
      else True)"

definition process_complete_packet :: "u8 list \<Rightarrow> packet_mon \<Rightarrow> packet_mon" where
  "process_complete_packet pkt m =
     (let m1 = m\<lparr>rx_bytes := pkt\<rparr>
      in if \<not> validate_packet pkt then m1
         else let m2 = (if expected m1 \<noteq> [] then snd (check_next m1) else m1)
              in m2\<lparr>pkt_count := pkt_count m2 + 1\<rparr>)"

definition push_beat :: "u8 list \<Rightarrow> bool \<Rightarrow> packet_mon \<Rightarrow> packet_mon" where
  "push_beat data lst m =
     (let m1 = m\<lparr>rx_beats := rx_beats m @ data\<rparr>
      in if lst then (process_complete_packet (rx_beats m1) m1)\<lparr>rx_beats := []\<rparr> else m1)"

definition push_beats :: "(u8 list \<times> bool) list \<Rightarrow> packet_mon \<Rightarrow> packet_mon" where
  "push_beats bs m = fold (\<lambda>(d, l). push_beat d l) bs m"

section \<open>What the scoreboard computes\<close>

text \<open>The packets a stream of beats completes, given the bytes of the packet under way.\<close>

fun reassemble :: "u8 list \<Rightarrow> (u8 list \<times> bool) list \<Rightarrow> u8 list list" where
  "reassemble acc [] = []"
| "reassemble acc ((d, l) # bs) =
     (if l then (acc @ d) # reassemble [] bs else reassemble (acc @ d) bs)"

fun leftover :: "u8 list \<Rightarrow> (u8 list \<times> bool) list \<Rightarrow> u8 list" where
  "leftover acc [] = acc"
| "leftover acc ((d, l) # bs) = (if l then leftover [] bs else leftover (acc @ d) bs)"

definition mismatches :: "u8 list list \<Rightarrow> u8 list list \<Rightarrow> nat" where
  "mismatches rx ex = length (filter (\<lambda>(a, b). a \<noteq> b) (zip rx ex))"

lemma mismatches_simps [simp]:
  "mismatches [] ex = 0"
  "mismatches rx [] = 0"
  "mismatches (r # rx) (e # ex) = (if r = e then 0 else 1) + mismatches rx ex"
  by (simp_all add: mismatches_def)

lemma mismatches_self [simp]: "mismatches xs xs = 0"
  by (induction xs) simp_all

lemma validate_packet_True [simp]: "validate_packet pkt"
  by (simp add: validate_packet_def)

lemma push_beats_simps [simp]:
  "push_beats [] m = m"
  "push_beats ((d, l) # bs) m = push_beats bs (push_beat d l m)"
  by (simp_all add: push_beats_def)

lemma push_beats_append: "push_beats (xs @ ys) m = push_beats ys (push_beats xs m)"
  by (simp add: push_beats_def)

lemma push_beat_fields:
  "rx_beats (push_beat d l m) = (if l then [] else rx_beats m @ d)"
  "expected (push_beat d l m) = (if l then tl (expected m) else expected m)"
  "pkt_count (push_beat d l m) = pkt_count m + (if l then 1 else 0)"
  "error_count (push_beat d l m) =
     error_count m + (if l then int (mismatches [rx_beats m @ d] (expected m)) else 0)"
  by (auto simp: push_beat_def process_complete_packet_def check_next_def Let_def
      split: list.split)

lemma push_beats_fields:
  "rx_beats (push_beats bs m) = leftover (rx_beats m) bs \<and>
   expected (push_beats bs m) = drop (length (reassemble (rx_beats m) bs)) (expected m) \<and>
   pkt_count (push_beats bs m) = pkt_count m + int (length (reassemble (rx_beats m) bs)) \<and>
   error_count (push_beats bs m) =
     error_count m + int (mismatches (reassemble (rx_beats m) bs) (expected m))"
proof (induction bs arbitrary: m)
  case Nil
  show ?case by simp
next
  case (Cons b bs)
  obtain d l where b: "b = (d, l)" by (cases b)
  show ?case
    using Cons.IH [of "push_beat d l m"]
    by (cases "expected m") (auto simp: b push_beat_fields drop_Suc)
qed

text \<open>A packet cut into beats of which only the last one is marked reassembles to itself.\<close>

fun mark_last :: "'a list \<Rightarrow> ('a \<times> bool) list" where
  "mark_last [] = []"
| "mark_last [x] = [(x, True)]"
| "mark_last (x # y # xs) = (x, False) # mark_last (y # xs)"

lemma mark_last_snoc: "mark_last (xs @ [x]) = map (\<lambda>y. (y, False)) xs @ [(x, True)]"
proof (induction xs)
  case (Cons y ys)
  then show ?case by (cases "ys @ [x]") simp_all
qed simp

lemma length_mark_last [simp]: "length (mark_last xs) = length xs"
  by (induction xs rule: mark_last.induct) simp_all

lemma reassemble_mark_last:
  "ds \<noteq> [] \<Longrightarrow> reassemble acc (mark_last ds @ bs) = (acc @ concat ds) # reassemble [] bs"
  by (induction ds arbitrary: acc rule: mark_last.induct) simp_all

lemma leftover_mark_last:
  "ds \<noteq> [] \<Longrightarrow> leftover acc (mark_last ds @ bs) = leftover [] bs"
  by (induction ds arbitrary: acc rule: mark_last.induct) simp_all

definition packet_beats :: "nat \<Rightarrow> u8 list \<Rightarrow> (u8 list \<times> bool) list" where
  "packet_beats dw pkt = mark_last (chunks dw pkt)"

lemma reassemble_packets:
  assumes "0 < dw" "list_all (\<lambda>p. p \<noteq> []) ps"
  shows "reassemble [] (concat (map (packet_beats dw) ps)) = ps"
    and "leftover [] (concat (map (packet_beats dw) ps)) = []"
  using assms(2)
  by (induction ps)
    (simp_all add: packet_beats_def assms(1) reassemble_mark_last leftover_mark_last concat_chunks)

lemma reassemble_append:
  "reassemble acc (xs @ ys) = reassemble acc xs @ reassemble (leftover acc xs) ys"
  by (induction acc xs rule: reassemble.induct) simp_all

lemma leftover_append: "leftover acc (xs @ ys) = leftover (leftover acc xs) ys"
  by (induction acc xs rule: leftover.induct) simp_all

text \<open>The first beat of a packet, and the beats of what is left of it.\<close>

lemma packet_beats_step:
  assumes "0 < dw" "pkt \<noteq> []"
  shows "packet_beats dw pkt = (take dw pkt, length pkt \<le> dw) # packet_beats dw (drop dw pkt)"
proof (cases "length pkt \<le> dw")
  case True
  then show ?thesis using assms by (simp add: packet_beats_def chunks_step)
next
  case False
  then have "drop dw pkt \<noteq> []" by simp
  then show ?thesis
    using False assms chunks_step [of dw pkt] chunks_step [of dw "drop dw pkt"]
    by (simp add: packet_beats_def)
qed

lemma packet_beats_Nil [simp]: "packet_beats dw [] = []"
  by (simp add: packet_beats_def)

text \<open>A packet under way: only its last beat is marked.\<close>

definition ends :: "(u8 list \<times> bool) list \<Rightarrow> bool" where
  "ends q \<longleftrightarrow> q \<noteq> [] \<and> snd (last q) \<and> list_all (\<lambda>x. \<not> snd x) (butlast q)"

lemma ends_suffix: "ends (out @ q) \<Longrightarrow> q \<noteq> [] \<Longrightarrow> ends q"
  by (auto simp: ends_def butlast_append)

lemma ends_packet:
  assumes "0 < dw" "pkt \<noteq> []"
  shows "ends (packet_beats dw pkt)"
proof -
  have "chunks dw pkt \<noteq> []" using assms by simp
  then obtain ys y where "chunks dw pkt = ys @ [y]" by (meson rev_exhaust)
  then show ?thesis by (simp add: ends_def packet_beats_def mark_last_snoc list_all_iff)
qed

lemma length_packet_beats:
  assumes "0 < dw"
  shows "length (packet_beats dw pkt) = (length pkt + dw - 1) div dw"
proof -
  have "length (chunks dw pkt) = (length pkt + dw - 1) div dw"
    using assms
  proof (induction dw pkt rule: chunks.induct)
    case (1 n xs)
    show ?case
    proof (cases "xs = []")
      case False
      then have len: "length (chunks n xs) = Suc ((length xs - n + n - 1) div n)"
        using 1 by (simp add: chunks_step)
      show ?thesis
      proof (cases "length xs \<le> n")
        case True
        then have "length xs + n - 1 = n + (length xs - 1)" "length xs - 1 < n" using False "1.prems" by (cases xs; auto)+
        moreover have "(n + (length xs - 1)) div n = 1" using calculation(2) "1.prems" by (simp add: div_add_self1)
        ultimately have "(length xs + n - 1) div n = 1" by simp
        then show ?thesis using len True "1.prems" by simp
      next
        case False
        then have "length xs + n - 1 = n + (length xs - n + n - 1)" using "1.prems" by simp
        moreover have "(n + (length xs - n + n - 1)) div n = Suc ((length xs - n + n - 1) div n)"
          using "1.prems" div_add_self1 [of n "length xs - n + n - 1"] by simp
        ultimately show ?thesis unfolding len by (simp only:)
      qed
    next
      case True
      then show ?thesis using "1.prems" by simp
    qed
  qed
  then show ?thesis by (simp add: packet_beats_def)
qed

lemma packet_bytes:
  assumes "0 < dw"
  shows "concat (map fst (packet_beats dw pkt)) = pkt"
proof -
  have "map fst (mark_last xs) = xs" for xs :: "u8 list list"
    by (induction xs rule: mark_last.induct) simp_all
  then show ?thesis by (simp add: packet_beats_def concat_chunks [OF assms])
qed

text \<open>The beats of a sequence of packets, and a scoreboard that has met the first \<open>popped\<close> of
  them without an error.\<close>

definition stream_of :: "nat \<Rightarrow> u8 list list \<Rightarrow> (u8 list \<times> bool) list" where
  "stream_of dw ps = concat (map (packet_beats dw) ps)"

definition tracks :: "u8 list list \<Rightarrow> (u8 list \<times> bool) list \<Rightarrow> packet_mon \<Rightarrow> bool" where
  "tracks ps popped mon \<longleftrightarrow>
     reassemble [] popped @ expected mon = ps \<and> rx_beats mon = leftover [] popped \<and>
     error_count mon = 0 \<and> pkt_count mon = int (length (reassemble [] popped))"

lemma stream_of_simps [simp]:
  "stream_of dw [] = []" "stream_of dw (p # ps) = packet_beats dw p @ stream_of dw ps"
  "stream_of dw (ps @ qs) = stream_of dw ps @ stream_of dw qs"
  by (simp_all add: stream_of_def)

lemma reassemble_stream:
  assumes "0 < dw" "list_all (\<lambda>p. p \<noteq> []) ps"
  shows "reassemble [] (stream_of dw ps) = ps" "leftover [] (stream_of dw ps) = []"
  using reassemble_packets [OF assms] by (simp_all add: stream_of_def)

lemma tracks_new: "tracks [] [] mon_new"
  by (simp add: tracks_def mon_new_def mon_reset_def)

lemma tracks_expect: "tracks ps popped mon \<Longrightarrow> tracks (ps @ [p]) popped (mon_expect p mon)"
  by (auto simp: tracks_def mon_expect_def)

lemma tracks_push:
  assumes "tracks ps popped mon" "(popped @ [(d, l)]) @ rest = stream_of dw ps"
    "0 < dw" "list_all (\<lambda>p. p \<noteq> []) ps"
  shows "tracks ps (popped @ [(d, l)]) (push_beat d l mon)"
proof -
  note mon = assms(1) [unfolded tracks_def]
  have "reassemble [] ((popped @ [(d, l)]) @ rest) = ps"
    unfolding assms(2) by (rule reassemble_stream [OF assms(3,4)])
  then have ps: "reassemble [] popped @ reassemble (leftover [] popped) [(d, l)] @
      reassemble (leftover (leftover [] popped) [(d, l)]) rest = ps"
    by (cases l) (simp_all add: reassemble_append)
  then have "expected mon = reassemble (leftover [] popped) [(d, l)] @
      reassemble (leftover (leftover [] popped) [(d, l)]) rest"
    using mon by (metis same_append_eq)
  then show ?thesis
    using mon ps by (cases l) (simp_all add: tracks_def push_beat_fields reassemble_append leftover_append)
qed

lemma tracks_end:
  assumes "tracks ps (stream_of dw ps) mon" "0 < dw" "list_all (\<lambda>p. p \<noteq> []) ps"
  shows "error_count mon = 0" "pending mon = 0" "pkt_count mon = int (length ps)"
  using assms reassemble_stream [OF assms(2,3)] by (simp_all add: tracks_def pending_def)

section \<open>Properties\<close>

text \<open>C28: The scoreboard counts exactly: fed any sequence of beats, \<open>PacketMon\<close> reassembles the
  packets they delimit, compares the n-th completed packet with the n-th expected one, counts one
  error per differing pair and one packet per completed packet, and keeps the expectations that
  no packet has met yet. Packets beyond the last expectation are counted but never an error.\<close>

theorem scoreboard_counts:
  fixes m :: packet_mon
  defines "rx \<equiv> \<lambda>bs. reassemble (rx_beats m) bs"
  shows "error_count (push_beats bs m) = error_count m + int (mismatches (rx bs) (expected m))
    \<and> pkt_count (push_beats bs m) = pkt_count m + int (length (rx bs))
    \<and> expected (push_beats bs m) = drop (length (rx bs)) (expected m)
    \<and> rx_beats (push_beats bs m) = leftover (rx_beats m) bs"
  using push_beats_fields [of bs m] by (simp add: rx_def)

text \<open>The scoreboard accepts a faithful device: when every expected packet is non-empty and
  the device emits them in order, cut into beats of at most \<open>dw > 0\<close> bytes with \<open>last\<close> on the
  final beat of each, no error is counted, nothing stays pending, and the packet counter is the
  number of packets.\<close>

theorem scoreboard_accepts:
  assumes "0 < dw" "list_all (\<lambda>p. p \<noteq> []) ps"
  shows "let m = push_beats (concat (map (packet_beats dw) ps)) (fold mon_expect ps mon_new)
    in error_count m = 0 \<and> pending m = 0 \<and> pkt_count m = int (length ps) \<and> rx_beats m = []"
proof -
  have ex: "expected (fold mon_expect ps m) = expected m @ ps" for m
    by (induction ps arbitrary: m) (simp_all add: mon_expect_def)
  have rest: "rx_beats (fold mon_expect ps m) = rx_beats m \<and>
      pkt_count (fold mon_expect ps m) = pkt_count m \<and>
      error_count (fold mon_expect ps m) = error_count m" for m
    by (induction ps arbitrary: m) (simp_all add: mon_expect_def)
  show ?thesis
    using push_beats_fields [of _ "fold mon_expect ps mon_new"] reassemble_packets [OF assms]
    by (simp add: ex rest mon_new_def mon_reset_def pending_def Let_def)
qed

theorem scoreboard_accepts_witness:
  "let m = push_beats (concat (map (packet_beats 8) [[1, 2], [3]])) (fold mon_expect [[1, 2], [3]] mon_new)
   in error_count m = 0 \<and> pending m = 0 \<and> pkt_count m = 2 \<and> rx_beats m = []"
  using scoreboard_accepts [of 8 "[[1, 2], [3]]"] by simp

end
