(* ===== verification/Packet_Gen.thy ===== *)
theory Packet_Gen
  imports Byte_Lanes
begin

text \<open>
  The packet generator of the test benches, class \<open>PacketGen\<close> of
  \<open>sim/packet_generators/packet_gen.h\<close>: Ethernet/IPv4/UDP, Ethernet/IPv4/TCP and Ethernet/ARP
  packets as byte vectors. The header structs have no padding; their bytes in memory are those of
  their fields on the little-endian host for which the code's byte swaps are written.
\<close>

section \<open>Byte order\<close>

definition bswap16 :: "u16 \<Rightarrow> u16" where
  "bswap16 x = push_bit 8 x OR drop_bit 8 x"

definition bswap32 :: "u32 \<Rightarrow> u32" where
  "bswap32 x = push_bit 24 x OR (push_bit 8 x AND 0xFF0000) OR (drop_bit 8 x AND 0xFF00) OR drop_bit 24 x"

definition ntohs :: "u16 \<Rightarrow> u16" where "ntohs x = bswap16 x"
definition ntohl :: "u32 \<Rightarrow> u32" where "ntohl x = bswap32 x"
definition htons :: "u16 \<Rightarrow> u16" where "htons x = bswap16 x"
definition htonl :: "u32 \<Rightarrow> u32" where "htonl x = bswap32 x"

section \<open>Header structs and their bytes\<close>

record ipv4_hdr =
  ver_ihl :: u8
  dscp_ecn :: u8
  total_length :: u16
  identification :: u16
  flags_frag_offset :: u16
  ip_ttl :: u8
  ip_protocol :: u8
  header_checksum :: u16
  ip_src :: u32
  ip_dst :: u32

record udp_hdr =
  udp_src_port :: u16
  udp_dst_port :: u16
  udp_length :: u16
  udp_checksum :: u16

record tcp_hdr =
  tcp_src_port :: u16
  tcp_dst_port :: u16
  seq_number :: u32
  ack_number :: u32
  data_offset :: u8
  tcp_hdr_flags :: u8
  window_size :: u16
  tcp_checksum :: u16
  urgent_ptr :: u16

definition ipv4_bytes :: "ipv4_hdr \<Rightarrow> u8 list" where
  "ipv4_bytes h =
     [ver_ihl h, dscp_ecn h] @ word_bytes (total_length h) @ word_bytes (identification h) @
     word_bytes (flags_frag_offset h) @ [ip_ttl h, ip_protocol h] @ word_bytes (header_checksum h) @
     word_bytes (ip_src h) @ word_bytes (ip_dst h)"

definition udp_bytes :: "udp_hdr \<Rightarrow> u8 list" where
  "udp_bytes h = word_bytes (udp_src_port h) @ word_bytes (udp_dst_port h) @
     word_bytes (udp_length h) @ word_bytes (udp_checksum h)"

definition tcp_bytes :: "tcp_hdr \<Rightarrow> u8 list" where
  "tcp_bytes h = word_bytes (tcp_src_port h) @ word_bytes (tcp_dst_port h) @
     word_bytes (seq_number h) @ word_bytes (ack_number h) @ [data_offset h, tcp_hdr_flags h] @
     word_bytes (window_size h) @ word_bytes (tcp_checksum h) @ word_bytes (urgent_ptr h)"

section \<open>The Internet checksum\<close>

text \<open>The summing loop over the bytes from index \<open>i\<close> on, two at a time.\<close>

fun sum_words :: "u8 list \<Rightarrow> u32 \<Rightarrow> u32" where
  "sum_words [] acc = acc"
| "sum_words [a] acc = acc + ucast (push_bit 8 (ucast a :: u16))"
| "sum_words (a # b # rest) acc =
     sum_words rest (acc + ucast (push_bit 8 (ucast a :: u16) OR ucast b))"

text \<open>\<open>while (sum >> 16) sum = (sum & 0xFFFF) + (sum >> 16);\<close>\<close>

function fold_carry :: "u32 \<Rightarrow> u32" where
  "fold_carry s =
     (if drop_bit 16 s \<noteq> 0 then fold_carry ((s AND 0xFFFF) + drop_bit 16 s) else s)"
  by pat_completeness auto

lemma unat_low16: "unat ((s :: u32) AND 0xFFFF) = unat s mod 65536"
proof -
  have mask: "(0xFFFF :: u32) = mask 16" by (simp add: mask_eq_decr_exp)
  show ?thesis
    unfolding mask take_bit_eq_mask [symmetric] unsigned_take_bit_eq by (simp add: take_bit_eq_mod)
qed

lemma unat_high16: "unat (drop_bit 16 (s :: u32)) = unat s div 65536"
proof -
  have "unat (drop_bit 16 s) = drop_bit 16 (unat s)" by (rule unat_drop_bit_eq)
  then show ?thesis by (simp only: drop_bit_eq_div) simp
qed

lemma unat_fold_step: "unat ((s AND 0xFFFF) + drop_bit 16 (s :: u32)) = unat s mod 65536 + unat s div 65536"
proof -
  have "unat s < 2 ^ 32" using unsigned_less [of s] by simp
  then have "unat s mod 65536 + unat s div 65536 < 2 ^ 32"
    by (simp add: less_mult_imp_div_less algebra_simps)
  then show ?thesis
    by (subst unat_add_lem [THEN iffD1]) (simp_all add: unat_low16 unat_high16)
qed

lemma fold_carry_cond: "drop_bit 16 (s :: u32) \<noteq> 0 \<longleftrightarrow> 65536 \<le> unat s"
proof -
  have "drop_bit 16 s \<noteq> 0 \<longleftrightarrow> unat s div 65536 \<noteq> 0"
    unfolding unat_high16 [symmetric] unat_eq_0 ..
  then show ?thesis by (simp add: div_eq_0_iff not_less)
qed

lemma fold_step_less: "65536 \<le> n \<Longrightarrow> n mod 65536 + n div 65536 < (n :: nat)"
proof -
  assume "65536 \<le> n"
  then have "1 \<le> n div 65536" by simp
  then show ?thesis using mult_div_mod_eq [of 65536 n] by linarith
qed

termination fold_carry
  by (relation "measure unat") (auto simp: unat_fold_step fold_carry_cond intro: fold_step_less)

declare fold_carry.simps [simp del]

definition ip_checksum :: "u8 list \<Rightarrow> u16" where
  "ip_checksum data = ucast (NOT (fold_carry (sum_words data 0)) AND 0xFFFF)"

section \<open>The generator\<close>

record packet_gen =
  ip_id_counter :: u16

definition resize :: "nat \<Rightarrow> u8 list \<Rightarrow> u8 list" where
  "resize n pkt = take n pkt @ replicate (n - length pkt) 0"

text \<open>\<open>memcpy\<close> into a vector at an offset that leaves room for all the bytes.\<close>

definition memcpy_at :: "u8 list \<Rightarrow> nat \<Rightarrow> u8 list \<Rightarrow> u8 list" where
  "memcpy_at pkt off bs = take off pkt @ bs @ drop (off + length bs) pkt"

definition fill_eth :: "u8 list \<Rightarrow> u8 list \<Rightarrow> u8 list \<Rightarrow> u16 \<Rightarrow> u8 list" where
  "fill_eth pkt src_mac dst_mac ethertype =
     (let pkt = resize 14 pkt;
          pkt = memcpy_at pkt 0 (take 6 dst_mac);
          pkt = memcpy_at pkt 6 (take 6 src_mac);
          pkt = pkt[12 := ucast (drop_bit 8 ethertype AND 0xFF)]
      in pkt[13 := ucast (ethertype AND 0xFF)])"

definition fill_ipv4 :: "u8 list \<Rightarrow> nat \<Rightarrow> ipv4_hdr \<Rightarrow> packet_gen \<Rightarrow> u8 list \<times> packet_gen" where
  "fill_ipv4 pkt payload_offset hdr g =
     (let hdr = hdr\<lparr>ver_ihl := 0x45, dscp_ecn := 0,
            total_length := htons (word_of_nat (length pkt - payload_offset)),
            identification := htons (ip_id_counter g),
            flags_frag_offset := 0, ip_ttl := 64, header_checksum := 0\<rparr>;
          hdr = hdr\<lparr>header_checksum := ip_checksum (ipv4_bytes hdr)\<rparr>
      in (memcpy_at pkt payload_offset (ipv4_bytes hdr),
          g\<lparr>ip_id_counter := ip_id_counter g + 1\<rparr>))"

text \<open>The local header object: the builder sets three fields and \<open>fill_ipv4\<close> all the others,
  whose indeterminate values \<open>h0\<close> therefore do not matter.\<close>

definition make_udp_packet ::
  "ipv4_hdr \<Rightarrow> u8 list \<Rightarrow> u8 list \<Rightarrow> u32 \<Rightarrow> u32 \<Rightarrow> u16 \<Rightarrow> u16 \<Rightarrow> u8 list \<Rightarrow> packet_gen \<Rightarrow> u8 list \<times> packet_gen"
where
  "make_udp_packet h0 src_mac dst_mac src_ip dst_ip src_port dst_port payload g =
     (let pkt = fill_eth [] src_mac dst_mac 0x0800;
          ip_offset = length pkt;
          pkt = resize (length pkt + 20) pkt;
          udp_offset = length pkt;
          pkt = resize (length pkt + 8) pkt;
          pkt = pkt @ payload;
          udp = \<lparr>udp_src_port = htons src_port, udp_dst_port = htons dst_port,
                 udp_length = htons (word_of_nat (8 + length payload)), udp_checksum = 0\<rparr>;
          pkt = memcpy_at pkt udp_offset (udp_bytes udp)
      in fill_ipv4 pkt ip_offset
           (h0\<lparr>ip_src := htonl src_ip, ip_dst := htonl dst_ip, ip_protocol := 17\<rparr>) g)"

definition make_tcp_packet ::
  "ipv4_hdr \<Rightarrow> u8 list \<Rightarrow> u8 list \<Rightarrow> u32 \<Rightarrow> u32 \<Rightarrow> u16 \<Rightarrow> u16 \<Rightarrow> u8 list \<Rightarrow> u8 \<Rightarrow> packet_gen \<Rightarrow> u8 list \<times> packet_gen"
where
  "make_tcp_packet h0 src_mac dst_mac src_ip dst_ip src_port dst_port payload flags g =
     (let pkt = fill_eth [] src_mac dst_mac 0x0800;
          ip_offset = length pkt;
          pkt = resize (length pkt + 20) pkt;
          tcp_offset = length pkt;
          pkt = resize (length pkt + 20) pkt;
          pkt = pkt @ payload;
          tcp = \<lparr>tcp_src_port = htons src_port, tcp_dst_port = htons dst_port,
                 seq_number = htonl 1000, ack_number = 0, data_offset = 0x50,
                 tcp_hdr_flags = flags, window_size = htons 65535, tcp_checksum = 0, urgent_ptr = 0\<rparr>;
          pkt = memcpy_at pkt tcp_offset (tcp_bytes tcp)
      in fill_ipv4 pkt ip_offset
           (h0\<lparr>ip_src := htonl src_ip, ip_dst := htonl dst_ip, ip_protocol := 6\<rparr>) g)"

definition make_arp_packet :: "u8 list \<Rightarrow> u8 list \<Rightarrow> u32 \<Rightarrow> u32 \<Rightarrow> u8 list" where
  "make_arp_packet src_mac dst_mac sender_ip target_ip =
     (let pkt = fill_eth [] src_mac dst_mac 0x0806;
          pkt = resize (length pkt + 28) pkt;
          off = 14;
          pkt = pkt[off + 0 := 0x00, off + 1 := 0x01, off + 2 := 0x08, off + 3 := 0x00,
                    off + 4 := 6, off + 5 := 4, off + 6 := 0x00, off + 7 := 0x01];
          pkt = memcpy_at pkt (off + 8) (take 6 src_mac);
          pkt = memcpy_at pkt (off + 14) (word_bytes (htonl sender_ip));
          pkt = memcpy_at pkt (off + 18) (take 6 dst_mac)
      in memcpy_at pkt (off + 24) (word_bytes (htonl target_ip)))"

text \<open>
  The values that the random engine and the distributions of \<open>make_random_packet\<close> yield in one
  call. The order in which C++ evaluates the arguments of a call is unspecified, so the draws are
  named by what they are used for; the distributions keep \<open>d_proto\<close> in \<open>{0, 1}\<close>.
\<close>

record draws =
  d_bytes :: "nat \<Rightarrow> u32"
  d_proto :: int
  d_src_ip :: u32
  d_dst_ip :: u32
  d_src_port :: u16
  d_dst_port :: u16

datatype gen_error = Length_Error

text \<open>A vector of bytes has at most \<open>PTRDIFF_MAX\<close> elements; a longer one is refused with
  \<open>std::length_error\<close>, when it is constructed and when it grows. The builders above are those of
  packets within this limit: what exceeds it is refused when the payload is appended, before the header is
  filled in. That the allocator may refuse a shorter vector is not modelled.\<close>

definition max_size :: nat where
  "max_size = 2 ^ 63 - 1"

text \<open>\<open>pkt.insert(pkt.end(), payload.begin(), payload.end())\<close>, behind headers of \<open>n\<close> bytes.\<close>

definition insert_throws :: "nat \<Rightarrow> u8 list \<Rightarrow> bool" where
  "insert_throws n payload \<longleftrightarrow> n + length payload > max_size"

text \<open>\<open>size_t\<close> arithmetic wraps at 64 bits.\<close>

definition make_random_packet ::
  "draws \<Rightarrow> ipv4_hdr \<Rightarrow> u64 \<Rightarrow> packet_gen \<Rightarrow> gen_error + (u8 list \<times> packet_gen)" where
  "make_random_packet d h0 total_bytes g =
     (let src_mac = [0x02, 0x00, 0x00, 0x00, 0x00, 0x01];
          dst_mac = [0x02, 0x00, 0x00, 0x00, 0x00, 0x02];
          payload_len = unat (total_bytes - 42)
      in if payload_len > max_size then Inl Length_Error
         else
           let payload = map (\<lambda>i. ucast (d_bytes d i AND 0xFF)) [0..<payload_len]
           in if d_proto d = 0 then
                if insert_throws (14 + 20 + 8) payload then Inl Length_Error
                else Inr (make_udp_packet h0 src_mac dst_mac (d_src_ip d) (d_dst_ip d)
                    (d_src_port d) (d_dst_port d) payload g)
              else
                if insert_throws (14 + 20 + 20) payload then Inl Length_Error
                else Inr (make_tcp_packet h0 src_mac dst_mac (d_src_ip d) (d_dst_ip d)
                    (d_src_port d) (d_dst_port d) payload 0x02 g))"

section \<open>Wire format\<close>

text \<open>Network byte order, and the byte layouts the generated packets have.\<close>

definition be16 :: "u16 \<Rightarrow> u8 list" where
  "be16 w = rev (word_bytes w)"

definition be32 :: "u32 \<Rightarrow> u8 list" where
  "be32 w = rev (word_bytes w)"

definition eth_wire :: "u8 list \<Rightarrow> u8 list \<Rightarrow> u16 \<Rightarrow> u8 list" where
  "eth_wire dst src etype = dst @ src @ be16 etype"

definition ipv4_wire :: "u16 \<Rightarrow> u16 \<Rightarrow> u8 \<Rightarrow> u8 list \<Rightarrow> u32 \<Rightarrow> u32 \<Rightarrow> u8 list" where
  "ipv4_wire tot ident proto cksum src dst =
     [0x45, 0] @ be16 tot @ be16 ident @ [0, 0] @ [64, proto] @ cksum @ be32 src @ be32 dst"

definition udp_wire :: "u16 \<Rightarrow> u16 \<Rightarrow> u16 \<Rightarrow> u8 list" where
  "udp_wire sp dp len = be16 sp @ be16 dp @ be16 len @ [0, 0]"

definition tcp_wire :: "u16 \<Rightarrow> u16 \<Rightarrow> u8 \<Rightarrow> u8 list" where
  "tcp_wire sp dp flags = be16 sp @ be16 dp @ be32 1000 @ [0, 0, 0, 0] @ [0x50, flags] @
     be16 65535 @ [0, 0] @ [0, 0]"

lemma word_bytes_htons [simp]: "word_bytes (htons w) = be16 w"
proof -
  have "byte_at (htons w) 0 = byte_at w 1" "byte_at (htons w) 1 = byte_at w 0"
    by (rule word_eq_bitsI; force simp: htons_def bswap16_def bits dest: bit_imp_le_length)+
  then show ?thesis by (simp add: be16_def word_bytes_16)
qed

lemma word_bytes_htonl [simp]: "word_bytes (htonl w) = be32 w"
proof -
  have m: "(0xFF0000 :: u32) = push_bit 16 (mask 8)" "(0xFF00 :: u32) = push_bit 8 (mask 8)"
    by (simp_all add: mask_eq_decr_exp)
  have "byte_at (htonl w) 0 = byte_at w 3" "byte_at (htonl w) 1 = byte_at w 2"
    "byte_at (htonl w) 2 = byte_at w 1" "byte_at (htonl w) 3 = byte_at w 0"
    unfolding htonl_def bswap32_def m
    by (rule word_eq_bitsI; force simp: bits dest: bit_imp_le_length)+
  then show ?thesis by (simp add: be32_def word_bytes_32)
qed

lemma length_be [simp]: "length (be16 w) = 2" "length (be32 v) = 4"
  by (simp_all add: be16_def be32_def)

lemma word_bytes_zero [simp]: "word_bytes (0 :: u16) = [0, 0]" "word_bytes (0 :: u32) = [0, 0, 0, 0]"
  by (simp_all add: word_bytes_16 word_bytes_32 lane)

lemma length_wire [simp]:
  "length (ipv4_wire tot ident proto cksum src dst) = 18 + length cksum"
  "length (udp_wire sp dp len) = 8" "length (tcp_wire sp dp flags) = 20"
  by (simp_all add: ipv4_wire_def udp_wire_def tcp_wire_def)

lemma memcpy_at_append:
  "length a = off \<Longrightarrow> length b = length b' \<Longrightarrow> memcpy_at (a @ b @ c) off b' = a @ b' @ c"
  by (simp add: memcpy_at_def)

lemma resize_extend: "resize (length a + n) a = a @ replicate n 0"
  by (simp add: resize_def)

lemma fill_eth_wire:
  assumes "length src = 6" "length dst = 6"
  shows "fill_eth [] src dst etype = eth_wire dst src etype"
proof -
  have "resize 14 [] = replicate 6 0 @ replicate 6 0 @ [0, 0 :: u8]"
    by (simp add: resize_def numeral_eq_Suc)
  then have "memcpy_at (memcpy_at (resize 14 []) 0 dst) 6 src = dst @ src @ [0, 0]"
    using assms memcpy_at_append [of "[]" 0 "replicate 6 0" dst]
      memcpy_at_append [of dst 6 "replicate 6 0" src]
    by simp
  moreover have "ucast (drop_bit 8 etype AND 0xFF) = byte_at etype 1"
    "ucast (etype AND 0xFF) = byte_at etype 0"
  proof -
    have m: "(0xFF :: u16) = mask 8" by (simp add: mask_eq_decr_exp)
    show "ucast (drop_bit 8 etype AND 0xFF) = byte_at etype 1"
      "ucast (etype AND 0xFF) = byte_at etype 0"
      unfolding m by (rule word_eq_bitsI; simp add: bits)+
  qed
  ultimately show ?thesis
    using assms
    by (simp add: fill_eth_def Let_def eth_wire_def be16_def word_bytes_16 list_update_append)
qed

definition ipv4_cksum :: "u16 \<Rightarrow> u16 \<Rightarrow> u8 \<Rightarrow> u32 \<Rightarrow> u32 \<Rightarrow> u16" where
  "ipv4_cksum tot ident proto src dst = ip_checksum (ipv4_wire tot ident proto [0, 0] src dst)"

text \<open>The header as generated: the checksum's low byte comes first.\<close>

definition gen_ipv4 :: "u16 \<Rightarrow> u16 \<Rightarrow> u8 \<Rightarrow> u32 \<Rightarrow> u32 \<Rightarrow> u8 list" where
  "gen_ipv4 tot ident proto src dst =
     ipv4_wire tot ident proto (word_bytes (ipv4_cksum tot ident proto src dst)) src dst"

lemma length_gen_ipv4 [simp]: "length (gen_ipv4 tot ident proto src dst) = 20"
  by (simp add: gen_ipv4_def)

lemma fill_ipv4_wire:
  assumes "length a = off" "ip_src h = htonl src" "ip_dst h = htonl dst"
  shows "fill_ipv4 (a @ replicate 20 0 @ c) off h g =
    (a @ gen_ipv4 (word_of_nat (20 + length c)) (ip_id_counter g) (ip_protocol h) src dst @ c,
     g\<lparr>ip_id_counter := ip_id_counter g + 1\<rparr>)"
  using assms
  by (simp add: fill_ipv4_def Let_def ipv4_bytes_def gen_ipv4_def ipv4_cksum_def ipv4_wire_def
      memcpy_at_append)

lemma make_udp_wire:
  assumes "length src_mac = 6" "length dst_mac = 6"
  shows "make_udp_packet h0 src_mac dst_mac src_ip dst_ip src_port dst_port payload g =
    (eth_wire dst_mac src_mac 0x0800 @
       gen_ipv4 (word_of_nat (28 + length payload)) (ip_id_counter g) 17 src_ip dst_ip @
       udp_wire src_port dst_port (word_of_nat (8 + length payload)) @ payload,
     g\<lparr>ip_id_counter := ip_id_counter g + 1\<rparr>)"
proof -
  define e where "e = eth_wire dst_mac src_mac 0x0800"
  have len: "length e = 14" using assms by (simp add: e_def eth_wire_def)
  have room: "resize (length (resize (length e + 20) e) + 8) (resize (length e + 20) e) =
      (e @ replicate 20 0) @ replicate 8 0"
    by (simp only: resize_extend)
  have "memcpy_at (((e @ replicate 20 0) @ replicate 8 0) @ payload) 34
      (udp_wire src_port dst_port (word_of_nat (8 + length payload))) =
    e @ replicate 20 0 @ udp_wire src_port dst_port (word_of_nat (8 + length payload)) @ payload"
    using memcpy_at_append [of "e @ replicate 20 0" 34 "replicate 8 0"] len by simp
  then show ?thesis
    using len room fill_ipv4_wire [OF len]
    by (simp add: make_udp_packet_def Let_def fill_eth_wire assms udp_bytes_def udp_wire_def
        resize_extend flip: e_def)
qed

lemma make_tcp_wire:
  assumes "length src_mac = 6" "length dst_mac = 6"
  shows "make_tcp_packet h0 src_mac dst_mac src_ip dst_ip src_port dst_port payload flags g =
    (eth_wire dst_mac src_mac 0x0800 @
       gen_ipv4 (word_of_nat (40 + length payload)) (ip_id_counter g) 6 src_ip dst_ip @
       tcp_wire src_port dst_port flags @ payload,
     g\<lparr>ip_id_counter := ip_id_counter g + 1\<rparr>)"
proof -
  define e where "e = eth_wire dst_mac src_mac 0x0800"
  have len: "length e = 14" using assms by (simp add: e_def eth_wire_def)
  have "memcpy_at (((e @ replicate 20 0) @ replicate 20 0) @ payload) 34
      (tcp_wire src_port dst_port flags) =
    e @ replicate 20 0 @ tcp_wire src_port dst_port flags @ payload"
    using memcpy_at_append [of "e @ replicate 20 0" 34 "replicate 20 0"] len by simp
  then show ?thesis
    using len fill_ipv4_wire [OF len]
    by (simp add: make_tcp_packet_def Let_def fill_eth_wire assms tcp_bytes_def tcp_wire_def
        resize_extend flip: e_def)
qed

lemma make_arp_wire:
  assumes "length src_mac = 6" "length dst_mac = 6"
  shows "make_arp_packet src_mac dst_mac sender_ip target_ip =
    eth_wire dst_mac src_mac 0x0806 @ [0, 1, 8, 0, 6, 4, 0, 1] @
      src_mac @ be32 sender_ip @ dst_mac @ be32 target_ip"
proof -
  define e where "e = eth_wire dst_mac src_mac 0x0806"
  have len: "length e = 14" using assms by (simp add: e_def eth_wire_def)
  have zeros: "replicate 28 0 = (replicate 8 0 @ replicate 6 0 @ replicate 4 0 @ replicate 6 0 @ replicate 4 (0 :: u8))"
    by (simp add: replicate_add [symmetric])
  have fixed: "(e @ replicate 8 0 @ zs)[14 := 0x00, 15 := 0x01, 16 := 0x08, 17 := 0x00,
      18 := 6, 19 := 4, 20 := 0x00, 21 := 0x01] = e @ [0, 1, 8, 0, 6, 4, 0, 1] @ zs" for zs
    using len by (simp add: list_update_append numeral_eq_Suc)
  let ?h = "e @ [0, 1, 8, 0, 6, 4, 0, 1]"
  have h: "length ?h = 22" using len by simp
  have "memcpy_at (memcpy_at (memcpy_at (memcpy_at
        (?h @ replicate 6 0 @ replicate 4 0 @ replicate 6 0 @ replicate 4 0)
        22 src_mac) 28 (be32 sender_ip)) 32 dst_mac) 38 (be32 target_ip) =
      ?h @ src_mac @ be32 sender_ip @ dst_mac @ be32 target_ip"
    using h assms memcpy_at_append [of ?h 22 "replicate 6 0" src_mac]
      memcpy_at_append [of "?h @ src_mac" 28 "replicate 4 0" "be32 sender_ip"]
      memcpy_at_append [of "?h @ src_mac @ be32 sender_ip" 32 "replicate 6 0" dst_mac]
      memcpy_at_append [of "?h @ src_mac @ be32 sender_ip @ dst_mac" 38 "replicate 4 0" "be32 target_ip" "[]"]
    by (simp del: append_Cons)
  then show ?thesis
    using len assms fixed
    by (simp add: make_arp_packet_def Let_def fill_eth_wire zeros resize_extend flip: e_def)
qed

section \<open>What the checksum computes\<close>

text \<open>The sum of the big-endian 16-bit words of a byte list, as a natural number.\<close>

fun wsum :: "u8 list \<Rightarrow> nat" where
  "wsum [] = 0"
| "wsum [a] = 256 * unat a"
| "wsum (a # b # rest) = 256 * unat a + unat b + wsum rest"

lemma unat_be_pair: "unat (ucast (push_bit 8 (ucast (a :: u8) :: u16) OR ucast (b :: u8)) :: u32) =
    256 * unat a + unat b"
proof -
  have or: "push_bit 8 (ucast a :: u16) OR ucast b = push_bit 8 (ucast a) + ucast b"
    by (rule disjunctive_add [symmetric]) (auto simp: bits dest: bit_imp_le_length)
  have a: "unat a < 256" and b: "unat b < 256"
    using unsigned_less [of a] unsigned_less [of b] by simp_all
  then have "unat (push_bit 8 (ucast a :: u16)) = 256 * unat a"
    by (simp add: push_bit_eq_mult unat_word_ariths unsigned_ucast_eq take_bit_eq_mod)
  then show ?thesis
    using a b by (simp add: or unsigned_ucast_eq unat_word_ariths take_bit_eq_mod)
qed

lemma unat_be_single: "unat (ucast (push_bit 8 (ucast (a :: u8) :: u16)) :: u32) = 256 * unat a"
  using unat_be_pair [of a 0] by simp

lemma unat_sum_words:
  "unat acc + wsum xs < 2 ^ 32 \<Longrightarrow> unat (sum_words xs acc) = unat acc + wsum xs"
proof (induction xs acc rule: sum_words.induct)
  case (2 a acc)
  then show ?case by (simp add: unat_word_ariths unat_be_single)
next
  case (3 a b rest acc)
  then show ?case by (simp add: unat_word_ariths unat_be_pair)
qed simp

lemma fold_carry_sum:
  "unat (fold_carry s) mod 65535 = unat s mod 65535 \<and> unat (fold_carry s) < 65536 \<and>
   (unat (fold_carry s) = 0 \<longleftrightarrow> unat s = 0)"
proof (induction s rule: fold_carry.induct)
  case (1 s)
  show ?case
  proof (cases "65536 \<le> unat s")
    case False
    then show ?thesis by (subst (1 2 3) fold_carry.simps) (simp_all add: fold_carry_cond)
  next
    case True
    let ?t = "(s AND 0xFFFF) + drop_bit 16 s"
    have t: "unat ?t = unat s mod 65536 + unat s div 65536" by (rule unat_fold_step)
    have fc: "fold_carry s = fold_carry ?t"
      using True by (subst fold_carry.simps) (simp add: fold_carry_cond)
    have "unat s = 65536 * (unat s div 65536) + unat s mod 65536" by simp
    then have "unat s = 65535 * (unat s div 65536) + unat ?t" using t by linarith
    then have "unat ?t mod 65535 = unat s mod 65535" by (metis mod_mult_self4)
    moreover have "unat ?t \<noteq> 0" using t True by auto
    ultimately show ?thesis
      using "1.IH" True fc by (auto simp: fold_carry_cond)
  qed
qed

lemma unat_ip_checksum:
  "unat (ip_checksum xs) = 65535 - unat (fold_carry (sum_words xs 0))"
proof -
  let ?f = "fold_carry (sum_words xs 0)"
  have small: "unat ?f < 65536" using fold_carry_sum by blast
  have m: "(0xFFFF :: u32) = mask 16" by (simp add: mask_eq_decr_exp)
  have "ip_checksum xs = NOT (ucast ?f)"
    unfolding ip_checksum_def m by (rule word_eq_bitsI) (simp add: bits)
  moreover have "unat (ucast ?f :: u16) = unat ?f"
    using small by (simp add: unsigned_ucast_eq take_bit_eq_mod)
  moreover have "unat (NOT x) = 65535 - unat x" for x :: u16
  proof -
    have "NOT x = - 1 - x" by (simp add: not_eq_complement)
    moreover have "unat (- 1 - x) = unat (- 1 :: u16) - unat x" by (rule unat_sub) simp
    moreover have "unat (- 1 :: u16) = 65535"
      by (subst unsigned_minus_1_eq_mask) (simp add: mask_eq_exp_minus_1)
    ultimately show ?thesis by simp
  qed
  ultimately show ?thesis by simp
qed

text \<open>A receiver accepts a header when the checksum over all of it, its checksum field included,
  is 0: the sum is then a positive multiple of 65535.\<close>

lemma ip_checksum_zero:
  assumes "wsum xs < 2 ^ 32"
  shows "ip_checksum xs = 0 \<longleftrightarrow> 0 < wsum xs \<and> wsum xs mod 65535 = 0"
proof -
  let ?f = "fold_carry (sum_words xs 0)"
  have sum: "unat (sum_words xs 0) = wsum xs" using assms by (subst unat_sum_words) simp_all
  have f: "unat ?f mod 65535 = wsum xs mod 65535" "unat ?f < 65536" "unat ?f = 0 \<longleftrightarrow> wsum xs = 0"
    using fold_carry_sum [of "sum_words xs 0"] sum by simp_all
  have "ip_checksum xs = 0 \<longleftrightarrow> unat (ip_checksum xs) = 0" by (rule unat_eq_0 [symmetric])
  also have "\<dots> \<longleftrightarrow> unat ?f = 65535"
    unfolding unat_ip_checksum using f(2) by auto
  also have "\<dots> \<longleftrightarrow> unat ?f \<noteq> 0 \<and> unat ?f mod 65535 = 0"
    using f(2) by (auto simp: mod_eq_0_iff_dvd)
  finally show ?thesis using f by auto
qed

lemma ip_checksum_complement:
  assumes "wsum xs < 2 ^ 32"
  shows "(wsum xs + unat (ip_checksum xs)) mod 65535 = 0"
proof -
  let ?f = "fold_carry (sum_words xs 0)"
  have sum: "unat (sum_words xs 0) = wsum xs" using assms by (subst unat_sum_words) simp_all
  have f: "unat ?f mod 65535 = wsum xs mod 65535" "unat ?f < 65536"
    using fold_carry_sum [of "sum_words xs 0"] sum by simp_all
  have "(wsum xs + unat (ip_checksum xs)) mod 65535 = (unat ?f + unat (ip_checksum xs)) mod 65535"
    using f(1) by (metis mod_add_left_eq)
  also have "unat ?f + unat (ip_checksum xs) = 65535"
    using f(2) by (simp add: unat_ip_checksum)
  finally show ?thesis by simp
qed

lemma wsum_append: "even (length xs) \<Longrightarrow> wsum (xs @ ys) = wsum xs + wsum ys"
  by (induction xs rule: wsum.induct) simp_all

lemma unat_u8: "unat (a :: u8) \<le> 255"
  using unsigned_less [of a, where ?'a = nat] by simp

lemma wsum_bound: "wsum xs \<le> 65535 * ((length xs + 1) div 2)"
proof (induction xs rule: wsum.induct)
  case (2 a)
  then show ?case using unat_u8 [of a] by simp
next
  case (3 a b rest)
  then show ?case using unat_u8 [of a] unat_u8 [of b] by simp
qed simp

text \<open>A header with checksum bytes \<open>x\<close>, \<open>y\<close>.\<close>

lemma wsum_ipv4_wire:
  "wsum (ipv4_wire tot ident proto [x, y] src dst) =
     wsum (ipv4_wire tot ident proto [0, 0] src dst) + 256 * unat x + unat y"
  by (simp add: ipv4_wire_def wsum_append be16_def be32_def word_bytes_16 word_bytes_32)

lemma wsum_ipv4_small: "wsum (ipv4_wire tot ident proto [x, y] src dst) < 2 ^ 32"
  using wsum_bound [of "ipv4_wire tot ident proto [x, y] src dst"] by simp

lemma wsum_ipv4_pos: "0 < wsum (ipv4_wire tot ident proto [x, y] src dst)"
  by (simp add: ipv4_wire_def)

lemma unat_split16: "unat (w :: u16) = 256 * unat (byte_at w 1) + unat (byte_at w 0)"
proof -
  have "unat (drop_bit 8 w) = drop_bit 8 (unat w)" by (rule unat_drop_bit_eq)
  then have "unat (drop_bit 8 w) = unat w div 256" by (simp only: drop_bit_eq_div) simp
  moreover have "unat w div 256 < 256" using unsigned_less [of w, where ?'a = nat] by simp
  ultimately have "unat (byte_at w 1) = unat w div 256"
    by (simp only: byte_at_def unsigned_ucast_eq mult_1) (simp add: take_bit_eq_mod)
  moreover have "unat (byte_at w 0) = unat w mod 256"
    by (simp add: byte_at_def unsigned_ucast_eq take_bit_eq_mod)
  ultimately show ?thesis by simp
qed

lemma cksum_sum:
  "(wsum (ipv4_wire tot ident proto [0, 0] src dst) + unat (ipv4_cksum tot ident proto src dst)) mod 65535 = 0"
  unfolding ipv4_cksum_def by (rule ip_checksum_complement [OF wsum_ipv4_small])

lemma swap_not_multiple:
  fixes x y :: nat
  assumes "y < x" "x < 256" "(s + (256 * x + y)) mod 65535 = (s + (256 * y + x)) mod 65535"
  shows False
proof -
  have "65535 dvd (s + (256 * x + y)) - (s + (256 * y + x))"
    using assms by (intro mod_eq_dvd_iff_nat [THEN iffD1]) auto
  then obtain k where "(s + (256 * x + y)) - (s + (256 * y + x)) = 65535 * k" by (elim dvdE)
  then have "x - y = 257 * k" using assms(1) by arith
  then show False using assms(1,2) by (cases k) auto
qed

lemma swapped_bytes_sum:
  fixes hi lo s :: nat
  assumes "hi < 256" "lo < 256" "(s + (256 * hi + lo)) mod 65535 = 0"
  shows "(s + (256 * lo + hi)) mod 65535 = 0 \<longleftrightarrow> lo = hi"
  using assms swap_not_multiple [of lo hi s] swap_not_multiple [of hi lo s]
  by (cases lo hi rule: linorder_cases) auto

definition zero_hdr :: ipv4_hdr where
  "zero_hdr = \<lparr>ver_ihl = 0, dscp_ecn = 0, total_length = 0, identification = 0,
     flags_frag_offset = 0, ip_ttl = 0, ip_protocol = 0, header_checksum = 0, ip_src = 0, ip_dst = 0\<rparr>"

lemma header_accepted:
  "ip_checksum (ipv4_wire tot ident proto [x, y] src dst) = 0 \<longleftrightarrow>
    (wsum (ipv4_wire tot ident proto [0, 0] src dst) + (256 * unat x + unat y)) mod 65535 = 0"
  unfolding ip_checksum_zero [OF wsum_ipv4_small] using wsum_ipv4_pos
  by (simp add: wsum_ipv4_wire [of _ _ _ x y] add.assoc)

lemma gen_header_checksum:
  "(ip_checksum (gen_ipv4 tot ident proto src dst) = 0 \<longleftrightarrow>
      byte_at (ipv4_cksum tot ident proto src dst) 0 = byte_at (ipv4_cksum tot ident proto src dst) 1)
   \<and> ip_checksum (ipv4_wire tot ident proto (be16 (ipv4_cksum tot ident proto src dst)) src dst) = 0"
proof -
  define c where "c = ipv4_cksum tot ident proto src dst"
  define s where "s = wsum (ipv4_wire tot ident proto [0, 0] src dst)"
  have bytes: "unat (byte_at c 1) < 256" "unat (byte_at c 0) < 256"
    using unat_u8 le_less_trans by fastforce+
  have sum: "(s + (256 * unat (byte_at c 1) + unat (byte_at c 0))) mod 65535 = 0"
    using cksum_sum [of tot ident proto src dst] unat_split16 [of c] by (simp only: s_def c_def)
  have "ip_checksum (gen_ipv4 tot ident proto src dst) = 0 \<longleftrightarrow> byte_at c 0 = byte_at c 1"
    unfolding gen_ipv4_def word_bytes_16 header_accepted c_def [symmetric] s_def [symmetric]
      swapped_bytes_sum [OF bytes sum] by (simp add: word_unat_eq_iff)
  moreover have "ip_checksum (ipv4_wire tot ident proto (be16 c) src dst) = 0"
    using sum unfolding be16_def word_bytes_16 rev.simps append.simps header_accepted s_def .
  ultimately show ?thesis unfolding c_def by blast
qed

section \<open>Properties\<close>

text \<open>The same of a packet: its header lies behind the 14 bytes of Ethernet.\<close>

definition header_of :: "u8 list \<Rightarrow> u8 list" where
  "header_of pkt = take 20 (drop 14 pkt)"

lemma stored_checksum:
  assumes "length e = 14" "pkt = e @ gen_ipv4 tot ident proto src dst @ rest"
  shows "(ip_checksum (header_of pkt) = 0 \<longleftrightarrow> pkt ! 24 = pkt ! 25)
    \<and> ip_checksum (header_of (pkt[24 := pkt ! 25, 25 := pkt ! 24])) = 0"
proof -
  let ?c = "ipv4_cksum tot ident proto src dst"
  have h: "header_of pkt = gen_ipv4 tot ident proto src dst"
    using assms by (simp add: header_of_def)
  have bytes: "pkt ! (14 + i) = gen_ipv4 tot ident proto src dst ! i" if "i < 20" for i
    using assms that by (simp add: nth_append)
  have at: "pkt ! 24 = byte_at ?c 0" "pkt ! 25 = byte_at ?c 1"
    using bytes [of 10] bytes [of 11]
    by (simp_all add: gen_ipv4_def ipv4_wire_def be16_def word_bytes_16)
  have "header_of (pkt[24 := x, 25 := y]) = (header_of pkt)[10 := x, 11 := y]" for x y
    by (simp add: header_of_def drop_update_swap take_update_swap)
  also have "(header_of pkt)[10 := byte_at ?c 1, 11 := byte_at ?c 0] = ipv4_wire tot ident proto (be16 ?c) src dst"
    unfolding h by (simp add: gen_ipv4_def ipv4_wire_def be16_def word_bytes_16)
  finally show ?thesis using gen_header_checksum [of tot ident proto src dst] by (auto simp: h at)
qed

section \<open>Properties\<close>

text \<open>C35: The Internet checksum of the generator is right but stored in the wrong byte order:
  over the 20 bytes of the IPv4 header of a packet that \<open>make_udp_packet\<close> or \<open>make_tcp_packet\<close> built a
  receiver computes 0 (accept) only in the case that the two checksum bytes, 24 and 25 of the packet,
  happen to be equal; with these two bytes exchanged the header is accepted always.\<close>

theorem generated_checksum_accepted_iff:
  fixes pkt payload src_mac dst_mac :: "u8 list" and h0 :: ipv4_hdr and src_ip dst_ip :: u32
    and src_port dst_port :: u16 and flags :: u8 and g :: packet_gen
  assumes "length src_mac = 6" "length dst_mac = 6"
    "pkt = fst (make_udp_packet h0 src_mac dst_mac src_ip dst_ip src_port dst_port payload g) \<or>
     pkt = fst (make_tcp_packet h0 src_mac dst_mac src_ip dst_ip src_port dst_port payload flags g)"
  shows "(ip_checksum (take 20 (drop 14 pkt)) = 0 \<longleftrightarrow> pkt ! 24 = pkt ! 25)
    \<and> ip_checksum (take 20 (drop 14 (pkt[24 := pkt ! 25, 25 := pkt ! 24]))) = 0"
proof -
  have e: "length (eth_wire dst_mac src_mac 0x0800) = 14" using assms(1,2) by (simp add: eth_wire_def)
  show ?thesis
    using assms(3) stored_checksum [OF e] make_udp_wire [OF assms(1,2)] make_tcp_wire [OF assms(1,2)]
    unfolding header_of_def by (metis fst_conv)
qed

text \<open>A packet whose header is refused.\<close>

theorem generated_checksum_accepted_iff_witness:
  fixes pkt :: "u8 list"
  defines "pkt \<equiv> fst (make_udp_packet zero_hdr [2, 0, 0, 0, 0, 1] [2, 0, 0, 0, 0, 2] 0xC0A80001 0xC0A80002
     1234 80 [0x48, 0x69] \<lparr>ip_id_counter = 0\<rparr>)"
  shows "ip_checksum (take 20 (drop 14 pkt)) \<noteq> 0
    \<and> ip_checksum (take 20 (drop 14 (pkt[24 := pkt ! 25, 25 := pkt ! 24]))) = 0"
proof -
  have "pkt ! 24 \<noteq> pkt ! 25" unfolding pkt_def by code_simp
  then show ?thesis
    using generated_checksum_accepted_iff [where pkt = pkt and src_mac = "[2, 0, 0, 0, 0, 1]" and dst_mac = "[2, 0, 0, 0, 0, 2]"
      and ?h0.0 = zero_hdr and src_ip = "0xC0A80001" and dst_ip = "0xC0A80002" and src_port = 1234 and dst_port = 80
      and payload = "[0x48, 0x69]" and g = "\<lparr>ip_id_counter = 0\<rparr>" and flags = 0]
    by (simp add: pkt_def)
qed

text \<open>C34: Wire format of generated UDP packets: with 6-byte MAC addresses the packet is the
  Ethernet header, a 20-byte IPv4 header and the UDP header in network byte order but for the
  IPv4 checksum, which is in host byte order, then the
  payload, 42 bytes longer than the payload; length fields wrap at 16 bits and the
  identification counter advances by one.\<close>

theorem make_udp_packet_format:
  assumes "length src_mac = 6" "length dst_mac = 6"
  shows "make_udp_packet h0 src_mac dst_mac src_ip dst_ip src_port dst_port payload g =
      (dst_mac @ src_mac @ [0x08, 0x00] @
       [0x45, 0] @ be16 (word_of_nat (28 + length payload)) @ be16 (ip_id_counter g) @ [0, 0] @
       [64, 17] @ word_bytes (ipv4_cksum (word_of_nat (28 + length payload)) (ip_id_counter g) 17 src_ip dst_ip) @
       be32 src_ip @ be32 dst_ip @
       be16 src_port @ be16 dst_port @ be16 (word_of_nat (8 + length payload)) @ [0, 0] @ payload,
       g\<lparr>ip_id_counter := ip_id_counter g + 1\<rparr>)
    \<and> length (fst (make_udp_packet h0 src_mac dst_mac src_ip dst_ip src_port dst_port payload g)) =
      42 + length payload"
  using assms
  by (simp add: make_udp_wire eth_wire_def gen_ipv4_def ipv4_wire_def udp_wire_def be16_def
      word_bytes_16 byte_at_def)

theorem make_udp_packet_format_witness:
  "length (fst (make_udp_packet zero_hdr [2, 0, 0, 0, 0, 1] [2, 0, 0, 0, 0, 2] 0xC0A80001 0xC0A80002
     1234 80 [0x48, 0x69] \<lparr>ip_id_counter = 0\<rparr>)) = 44"
  using make_udp_packet_format [where src_mac = "[2, 0, 0, 0, 0, 1]" and dst_mac = "[2, 0, 0, 0, 0, 2]"
      and payload = "[0x48, 0x69]"]
  by simp

text \<open>Wire format of generated TCP packets: Ethernet header, 20-byte IPv4 header and 20-byte
  TCP header (sequence number 1000, acknowledgement 0, window 65535) in network byte order, then
  the payload, 54 bytes longer than the payload.\<close>

theorem make_tcp_packet_format:
  assumes "length src_mac = 6" "length dst_mac = 6"
  shows "make_tcp_packet h0 src_mac dst_mac src_ip dst_ip src_port dst_port payload flags g =
      (dst_mac @ src_mac @ [0x08, 0x00] @
       [0x45, 0] @ be16 (word_of_nat (40 + length payload)) @ be16 (ip_id_counter g) @ [0, 0] @
       [64, 6] @ word_bytes (ipv4_cksum (word_of_nat (40 + length payload)) (ip_id_counter g) 6 src_ip dst_ip) @
       be32 src_ip @ be32 dst_ip @
       be16 src_port @ be16 dst_port @ [0, 0, 0x03, 0xE8] @ [0, 0, 0, 0] @ [0x50, flags] @
       [0xFF, 0xFF] @ [0, 0] @ [0, 0] @ payload,
       g\<lparr>ip_id_counter := ip_id_counter g + 1\<rparr>)
    \<and> length (fst (make_tcp_packet h0 src_mac dst_mac src_ip dst_ip src_port dst_port payload flags g)) =
      54 + length payload"
  using assms
  by (simp add: make_tcp_wire eth_wire_def gen_ipv4_def ipv4_wire_def tcp_wire_def be16_def be32_def
      word_bytes_16 word_bytes_32 byte_at_def)

theorem make_tcp_packet_format_witness:
  "length (fst (make_tcp_packet zero_hdr [2, 0, 0, 0, 0, 1] [2, 0, 0, 0, 0, 2] 0xC0A80001 0xC0A80002
     4321 443 [1, 2, 3] 0x02 \<lparr>ip_id_counter = 0\<rparr>)) = 57"
  using make_tcp_packet_format [where src_mac = "[2, 0, 0, 0, 0, 1]" and dst_mac = "[2, 0, 0, 0, 0, 2]"
      and payload = "[1, 2, 3]"]
  by simp

text \<open>C36: Size of random packets: with the UDP branch a request for 42 to \<open>2 ^ 63 - 1\<close> bytes makes a
  packet of exactly that size; with the TCP branch a request for 42 to \<open>2 ^ 63 - 13\<close> bytes makes one
  that is 12 bytes longer. Every other request fails: below 42 bytes the payload length wraps around,
  and above the range the packet does not fit into a vector.\<close>

theorem make_random_packet_size:
  "case make_random_packet d h0 total_bytes g of
     Inl Length_Error \<Rightarrow> total_bytes < 42 \<or> unat total_bytes + (if d_proto d = 0 then 0 else 12) \<ge> 2 ^ 63
   | Inr (pkt, g') \<Rightarrow> 42 \<le> total_bytes \<and>
       unat total_bytes + (if d_proto d = 0 then 0 else 12) < 2 ^ 63 \<and>
       length pkt = unat total_bytes + (if d_proto d = 0 then 0 else 12) \<and>
       ip_id_counter g' = ip_id_counter g + 1"
proof -
  have wrap: "unat (total_bytes - 42) =
      (if 42 \<le> total_bytes then unat total_bytes - 42 else unat total_bytes + 2 ^ 64 - 42)"
  proof (cases "42 \<le> total_bytes")
    case True
    then show ?thesis by (simp add: unat_sub)
  next
    case False
    then have "unat total_bytes < 42" by (simp add: word_less_nat_alt not_le)
    then show ?thesis using False by (simp add: unat_sub_if_size word_size word_le_nat_alt)
  qed
  have le: "42 \<le> total_bytes \<longleftrightarrow> 42 \<le> unat total_bytes" by (simp add: word_le_nat_alt)
  show ?thesis
    by (auto simp: make_random_packet_def insert_throws_def max_size_def Let_def make_udp_wire make_tcp_wire
        eth_wire_def wrap le not_le word_less_nat_alt)
qed

end
