(* ===== verification/Tb_Axis_Fifo.thy ===== *)
theory Tb_Axis_Fifo
  imports Axis_Fifo Packet_Mon Packet_Gen
begin

text \<open>
  The FIFO test bench \<open>sim/testbenches/tb_axis_fifo.cpp\<close>: packets from \<open>PacketGen\<close> are pushed
  into a FIFO of the default depth 16 and the beats that come out go to the scoreboard. Console
  output is not modelled, except the flag values that \<open>test_fifo_flags\<close> prints, which its model
  returns. The wait loop of \<open>push_packet\<close> has no bound in the code and is a partial function.
\<close>

section \<open>The device and the simulation context\<close>

record fifo_pins =
  rst_n :: bool
  s_tdata :: bus
  s_tkeep :: keep
  s_tlast :: bool
  s_tvalid :: bool
  m_tready :: bool

definition s_beat :: "fifo_pins \<Rightarrow> axis_beat" where
  "s_beat p = \<lparr>tdata = s_tdata p, tkeep = s_tkeep p, tlast = s_tlast p\<rparr>"

text \<open>\<open>Vaxis_fifo\<close>: the module with its default parameters.\<close>

definition vaxis_fifo_step :: "fifo_pins \<Rightarrow> axis_beat axis_fifo \<Rightarrow> axis_beat axis_fifo" where
  "vaxis_fifo_step p f = axis_fifo_step 16 (rst_n p) (s_beat p) (s_tvalid p) (m_tready p) f"

record sim_context =
  dut :: "(fifo_pins, axis_beat axis_fifo) vdut"
  sim_cycles :: u64

definition fifo_pins0 :: fifo_pins where
  "fifo_pins0 = \<lparr>rst_n = False, s_tdata = 0, s_tkeep = 0, s_tlast = False, s_tvalid = False, m_tready = False\<rparr>"

definition sim_new :: "axis_beat axis_fifo \<Rightarrow> sim_context" where
  "sim_new f = \<lparr>dut = power_on fifo_pins0 f, sim_cycles = 0\<rparr>"

definition sim_set_clk :: "bool \<Rightarrow> sim_context \<Rightarrow> sim_context" where
  "sim_set_clk v sim = sim\<lparr>dut := set_clk vaxis_fifo_step v (dut sim)\<rparr>"

definition eval_pre :: "sim_context \<Rightarrow> sim_context" where
  "eval_pre sim = sim_set_clk False sim"

definition eval_post :: "sim_context \<Rightarrow> sim_context" where
  "eval_post sim = (let sim = sim_set_clk True sim in sim\<lparr>sim_cycles := sim_cycles sim + 1\<rparr>)"

definition sim_tick :: "sim_context \<Rightarrow> sim_context" where
  "sim_tick sim = eval_post (eval_pre sim)"

definition set_pins :: "(fifo_pins \<Rightarrow> fifo_pins) \<Rightarrow> sim_context \<Rightarrow> sim_context" where
  "set_pins u sim = sim\<lparr>dut := (dut sim)\<lparr>pins := u (pins (dut sim))\<rparr>\<rparr>"

definition count_cycle :: "sim_context \<Rightarrow> sim_context" where
  "count_cycle sim = sim\<lparr>sim_cycles := sim_cycles sim + 1\<rparr>"

definition sim_reset :: "nat \<Rightarrow> sim_context \<Rightarrow> sim_context" where
  "sim_reset cycles sim =
     (let sim = set_pins (\<lambda>p. p\<lparr>rst_n := False\<rparr>) sim;
          sim = (sim_tick ^^ cycles) sim;
          sim = set_pins (\<lambda>p. p\<lparr>rst_n := True\<rparr>) sim
      in sim_tick sim)"

text \<open>The output pins, which depend on the registers only.\<close>

definition fifo_regs :: "sim_context \<Rightarrow> axis_beat axis_fifo" where
  "fifo_regs sim = vregs (dut sim)"

definition out_tready :: "sim_context \<Rightarrow> bool" where
  "out_tready sim = s_tready 16 (fifo_regs sim)"

definition out_tvalid :: "sim_context \<Rightarrow> bool" where
  "out_tvalid sim = m_tvalid (fifo_regs sim)"

definition out_beat :: "sim_context \<Rightarrow> axis_beat" where
  "out_beat sim = rd_raw 16 (fifo_regs sim)"

definition out_empty :: "sim_context \<Rightarrow> bool" where
  "out_empty sim = fifo_empty 16 (fifo_regs sim)"

text \<open>What a bench reads from an output beat: the bytes its \<open>tkeep\<close> counts, and \<open>tlast\<close>.\<close>

definition capture :: "nat \<Rightarrow> axis_beat \<Rightarrow> u8 list \<times> bool" where
  "capture dw b = (vlwide_get_bytes (tdata b) (keep_count dw (tkeep b)), tlast b)"

section \<open>\<open>push_packet\<close>\<close>

text \<open>One round of the wait loop while the FIFO is full: take a beat out if there is one.\<close>

definition wait_round :: "nat \<Rightarrow> sim_context \<times> packet_mon \<Rightarrow> sim_context \<times> packet_mon" where
  "wait_round dw sm =
     (let (sim, mon) = sm;
          sim = eval_pre sim;
          sim = set_pins (\<lambda>p. p\<lparr>s_tvalid := False\<rparr>) sim
      in if out_tvalid sim then
           let (bdata, l) = capture dw (out_beat sim);
               sim = set_pins (\<lambda>p. p\<lparr>m_tready := True\<rparr>) sim;
               sim = count_cycle (eval_post sim)
           in (sim, push_beat bdata l mon)
         else
           let sim = set_pins (\<lambda>p. p\<lparr>m_tready := True\<rparr>) sim
           in (count_cycle (eval_post sim), mon))"

partial_function (option) push_wait ::
  "nat \<Rightarrow> sim_context \<times> packet_mon \<Rightarrow> (sim_context \<times> packet_mon) option" where
  "push_wait dw sm = (if out_tready (fst sm) then Some sm else push_wait dw (wait_round dw sm))"

text \<open>Drive one beat of the packet, from byte \<open>pos\<close> on.\<close>

definition drive_beat :: "nat \<Rightarrow> u8 list \<Rightarrow> nat \<Rightarrow> sim_context \<Rightarrow> sim_context" where
  "drive_beat dw pkt pos sim =
     (let nb = min dw (length pkt - pos);
          lst = (pos + nb \<ge> length pkt);
          sim = eval_pre sim;
          sim = set_pins (\<lambda>p. p\<lparr>s_tdata := vlwide_set_bytes (s_tdata p) (drop pos pkt) nb,
                                s_tkeep := keep_mask nb, s_tlast := lst, s_tvalid := True\<rparr>) sim
      in count_cycle (eval_post sim))"

partial_function (option) push_loop ::
  "nat \<Rightarrow> u8 list \<Rightarrow> nat \<Rightarrow> sim_context \<times> packet_mon \<Rightarrow> (sim_context \<times> packet_mon) option" where
  "push_loop dw pkt pos sm =
     (if pos < length pkt then
        Option.bind (push_wait dw (drive_beat dw pkt pos (fst sm), snd sm))
          (\<lambda>sm'. push_loop dw pkt (pos + min dw (length pkt - pos))
                   (set_pins (\<lambda>p. p\<lparr>m_tready := False\<rparr>) (fst sm'), snd sm'))
      else Some sm)"

definition push_packet ::
  "nat \<Rightarrow> u8 list \<Rightarrow> sim_context \<times> packet_mon \<Rightarrow> (sim_context \<times> packet_mon) option" where
  "push_packet dw pkt sm =
     Option.bind (push_loop dw pkt 0 sm)
       (\<lambda>(sim, mon).
          let sim = eval_pre sim;
              sim = set_pins (\<lambda>p. p\<lparr>s_tvalid := False, m_tready := False\<rparr>) sim
          in Some (count_cycle (eval_post sim), mon))"

section \<open>\<open>drain_all\<close>\<close>

fun drain_loop :: "nat \<Rightarrow> nat \<Rightarrow> sim_context \<times> packet_mon \<Rightarrow> sim_context \<times> packet_mon" where
  "drain_loop 0 dw sm = sm"
| "drain_loop (Suc timeout) dw (sim, mon) =
     (let sim = eval_pre sim
      in if out_tvalid sim \<and> m_tready (pins (dut sim)) then
           let (bdata, l) = capture dw (out_beat sim);
               sim = count_cycle (eval_post sim)
           in drain_loop timeout dw (sim, push_beat bdata l mon)
         else
           let sim = count_cycle (eval_post sim)
           in if out_empty sim \<and> \<not> out_tvalid sim then (sim, mon)
              else drain_loop timeout dw (sim, mon))"

definition drain_all :: "nat \<Rightarrow> sim_context \<times> packet_mon \<Rightarrow> sim_context \<times> packet_mon" where
  "drain_all dw sm =
     drain_loop 10000 dw (set_pins (\<lambda>p. p\<lparr>m_tready := True\<rparr>) (fst sm), snd sm)"

section \<open>The tests\<close>

definition smac :: "u8 list" where
  "smac = [0x02, 0x00, 0x00, 0x00, 0x00, 0x01]"

definition dmac :: "u8 list" where
  "dmac = [0x02, 0x00, 0x00, 0x00, 0x00, 0x02]"

text \<open>The start of every test: reset, then both handshake inputs low.\<close>

definition bench_start :: "axis_beat axis_fifo \<Rightarrow> sim_context" where
  "bench_start f =
     set_pins (\<lambda>p. p\<lparr>m_tready := False, s_tvalid := False\<rparr>) (sim_reset 4 (sim_new f))"

definition bench_pass :: "packet_mon \<Rightarrow> bool" where
  "bench_pass mon \<longleftrightarrow> error_count mon = 0 \<and> pending mon = 0"

text \<open>A test returns \<open>None\<close> if a wait loop in it does not end.\<close>

definition test_fifo_basic :: "axis_beat axis_fifo \<Rightarrow> ipv4_hdr \<Rightarrow> bool option" where
  "test_fifo_basic f h0 =
     (let sim = bench_start f;
          gen = \<lparr>ip_id_counter = 0\<rparr>;
          (pkt1, gen) = make_udp_packet h0 smac dmac 0xC0A80001 0xC0A80002 1234 80
                          [0x48, 0x65, 0x6C, 0x6C, 0x6F] gen;
          (pkt2, gen) = make_udp_packet h0 smac dmac 0xC0A80001 0xC0A80002 5678 53
                          [0x57, 0x6F, 0x72, 0x6C, 0x64] gen;
          mon = mon_expect pkt2 (mon_expect pkt1 mon_new)
      in Option.bind (push_packet 8 pkt1 (sim, mon))
           (\<lambda>sm. Option.bind (push_packet 8 pkt2 sm)
             (\<lambda>sm. Some (bench_pass (snd (drain_all 8 sm))))))"

text \<open>One iteration of the loop of \<open>test_fifo_backpressure\<close>; \<open>rnd i\<close> is what \<open>rand()\<close> returns.\<close>

definition backpressure_packet :: "(nat \<Rightarrow> nat) \<Rightarrow> ipv4_hdr \<Rightarrow> nat \<Rightarrow> packet_gen \<Rightarrow> u8 list \<times> packet_gen" where
  "backpressure_packet rnd h0 i gen =
     (let len = 64 + rnd i mod 500
      in make_udp_packet h0 smac dmac 0xC0A80001 0xC0A80002 (word_of_nat (1234 + i)) (word_of_nat (80 + i))
           (replicate (len - 42) (word_of_nat i AND 0xFF)) gen)"

fun backpressure_loop ::
  "(nat \<Rightarrow> nat) \<Rightarrow> ipv4_hdr \<Rightarrow> nat list \<Rightarrow> packet_gen \<Rightarrow> sim_context \<times> packet_mon \<Rightarrow>
     (sim_context \<times> packet_mon) option" where
  "backpressure_loop rnd h0 [] gen sm = Some sm"
| "backpressure_loop rnd h0 (i # is) gen (sim, mon) =
     (let (pkt, gen) = backpressure_packet rnd h0 i gen
      in Option.bind (push_packet 8 pkt (sim, mon_expect pkt mon))
           (backpressure_loop rnd h0 is gen))"

definition test_fifo_backpressure :: "(nat \<Rightarrow> nat) \<Rightarrow> axis_beat axis_fifo \<Rightarrow> ipv4_hdr \<Rightarrow> bool option" where
  "test_fifo_backpressure rnd f h0 =
     Option.bind (backpressure_loop rnd h0 [0..<10] \<lparr>ip_id_counter = 0\<rparr> (bench_start f, mon_new))
       (\<lambda>sm. Some (bench_pass (snd (drain_all 8 sm))))"

text \<open>The flags \<open>test_fifo_flags\<close> prints: \<open>empty\<close>, \<open>full\<close> and \<open>used\<close>.\<close>

definition flags :: "sim_context \<Rightarrow> bool \<times> bool \<times> nat" where
  "flags sim = (fifo_empty 16 (fifo_regs sim), fifo_full 16 (fifo_regs sim), fifo_used 16 (fifo_regs sim))"

fun flags_drain :: "nat \<Rightarrow> sim_context \<Rightarrow> sim_context" where
  "flags_drain 0 sim = sim"
| "flags_drain (Suc tries) sim =
     (let sim = eval_pre sim
      in if out_tvalid sim \<and> m_tready (pins (dut sim)) then count_cycle (eval_post sim)
         else let sim = count_cycle (eval_post sim)
              in if out_empty sim then sim else flags_drain tries sim)"

definition test_fifo_flags ::
  "axis_beat axis_fifo \<Rightarrow> bool \<times> (bool \<times> bool \<times> nat) list" where
  "test_fifo_flags f =
     (let sim = sim_tick (bench_start f);
          f0 = flags sim;
          sim = drive_beat 8 [1, 2, 3, 4, 5, 6, 7, 8] 0 sim;
          sim = set_pins (\<lambda>p. p\<lparr>s_tvalid := False\<rparr>) (eval_pre sim);
          sim = count_cycle (eval_post sim);
          f1 = flags sim;
          sim = set_pins (\<lambda>p. p\<lparr>m_tready := True\<rparr>) sim;
          sim = flags_drain 100 sim
      in (True, [f0, f1, flags sim]))"

text \<open>Each test makes a device of its own, with the power-on registers \<open>f 0\<close> to \<open>f 2\<close>.\<close>

definition tb_axis_fifo_main ::
  "(nat \<Rightarrow> nat) \<Rightarrow> (nat \<Rightarrow> axis_beat axis_fifo) \<Rightarrow> ipv4_hdr \<Rightarrow> int option" where
  "tb_axis_fifo_main rnd f h0 =
     Option.bind (test_fifo_basic (f 0) h0)
       (\<lambda>t1. let t2 = fst (test_fifo_flags (f 1))
             in Option.bind (test_fifo_backpressure rnd (f 2) h0)
                  (\<lambda>t3. Some (if t1 \<and> t2 \<and> t3 then 0 else 1)))"

section \<open>One clock edge of the context\<close>

lemma sim_simps [edge]:
  "fifo_regs (eval_pre sim) = fifo_regs sim"
  "pins (dut (eval_pre sim)) = pins (dut sim)"
  "\<not> clk_prev (dut (eval_pre sim))"
  "fifo_regs (set_pins u sim) = fifo_regs sim"
  "pins (dut (set_pins u sim)) = u (pins (dut sim))"
  "clk_prev (dut (set_pins u sim)) = clk_prev (dut sim)"
  "fifo_regs (count_cycle sim) = fifo_regs sim"
  "dut (count_cycle sim) = dut sim"
  "pins (dut (eval_post sim)) = pins (dut sim)"
  "\<not> clk_prev (dut sim) \<Longrightarrow> fifo_regs (eval_post sim) = vaxis_fifo_step (pins (dut sim)) (fifo_regs sim)"
  by (simp_all add: eval_pre_def eval_post_def sim_set_clk_def set_clk_def eval_def set_pins_def
      fifo_regs_def count_cycle_def Let_def)

text \<open>\<open>holds sim xs\<close>: the device is out of reset and stores the beats \<open>xs\<close>.\<close>

definition holds :: "sim_context \<Rightarrow> axis_beat list \<Rightarrow> bool" where
  "holds sim xs \<longleftrightarrow> fifo_rep 4 (fifo_regs sim) xs \<and> rst_n (pins (dut sim))"

lemma holds_set_pins [simp]:
  "(\<And>p. rst_n (u p) = rst_n p) \<Longrightarrow> holds (set_pins u sim) xs = holds sim xs"
  by (simp add: holds_def edge)

lemma holds_pre [simp]: "holds (eval_pre sim) xs = holds sim xs"
  by (simp add: holds_def edge)

lemma holds_count [simp]: "holds (count_cycle sim) xs = holds sim xs"
  by (simp add: holds_def edge)

lemma holds_post:
  assumes "holds sim xs" "\<not> clk_prev (dut sim)"
  shows "holds (eval_post sim) (queue_step 16
    (if s_tvalid (pins (dut sim)) then Some (s_beat (pins (dut sim))) else None)
    (m_tready (pins (dut sim))) xs)"
  using assms rep_step [of 4 "fifo_regs sim" xs] by (simp add: holds_def edge vaxis_fifo_step_def)

lemma holds_outputs:
  assumes "holds sim xs"
  shows "out_tready sim \<longleftrightarrow> length xs < 16" "out_tvalid sim \<longleftrightarrow> xs \<noteq> []"
    "out_empty sim \<longleftrightarrow> xs = []" "xs \<noteq> [] \<Longrightarrow> out_beat sim = hd xs"
  using assms fifo_flags_rep [of 4 "fifo_regs sim" xs] rd_raw_rep [of 4 "fifo_regs sim" xs]
  by (simp_all add: holds_def out_tready_def out_tvalid_def out_empty_def out_beat_def)

lemma reset_step_rep:
  assumes "length (ram f) = 16" "\<not> rst_n p"
  shows "fifo_rep 4 (vaxis_fifo_step p f) []" "length (ram (vaxis_fifo_step p f)) = 16"
  using assms rep_reset [of f 4 "s_beat p" "s_tvalid p" "m_tready p"]
  by (simp_all add: vaxis_fifo_step_def axis_fifo_step_def)

lemma reset_steps_rep:
  assumes "length (ram f) = 16" "\<not> rst_n p" "0 < n"
  shows "fifo_rep 4 ((vaxis_fifo_step p ^^ n) f) []"
proof -
  have "fifo_rep 4 ((vaxis_fifo_step p ^^ Suc k) f) [] \<and> length (ram ((vaxis_fifo_step p ^^ Suc k) f)) = 16" for k
    using reset_step_rep [OF _ assms(2)] assms(1) by (induction k) simp_all
  then show ?thesis using assms(3) by (cases n) blast+
qed

lemma tick_simps_sim [edge]:
  "fifo_regs (sim_tick sim) = vaxis_fifo_step (pins (dut sim)) (fifo_regs sim)"
  "pins (dut (sim_tick sim)) = pins (dut sim)"
  by (simp_all add: sim_tick_def edge)

lemma ticks_simps_sim [edge]:
  "pins (dut ((sim_tick ^^ n) sim)) = pins (dut sim)"
  "fifo_regs ((sim_tick ^^ n) sim) = (vaxis_fifo_step (pins (dut sim)) ^^ n) (fifo_regs sim)"
  by (induction n) (simp_all add: edge)

lemma holds_reset:
  assumes "length (ram f) = 16"
  shows "holds (sim_reset 4 (sim_new f)) []"
proof -
  have new: "fifo_regs (sim_new f) = f" "pins (dut (sim_new f)) = fifo_pins0"
    by (simp_all add: sim_new_def fifo_regs_def edge)
  let ?up = "fifo_pins0\<lparr>rst_n := True\<rparr>" and ?down = "fifo_pins0\<lparr>rst_n := False\<rparr>"
  have "\<not> rst_n ?down" by simp
  note reset = reset_steps_rep [OF assms this, of 4]
  have "s_tvalid ?up = False" "m_tready ?up = False" "rst_n ?up"
    by (simp_all add: fifo_pins0_def)
  then have "fifo_rep 4 (vaxis_fifo_step ?up ((vaxis_fifo_step ?down ^^ 4) f)) []"
    using rep_step [OF reset, of "s_beat ?up" False False]
    by (simp only: vaxis_fifo_step_def [of ?up]) (simp add: queue_step_def)
  then show ?thesis
    by (simp add: holds_def sim_reset_def Let_def edge new)
qed

lemma holds_start:
  assumes "length (ram f) = 16"
  shows "holds (bench_start f) []"
  using holds_reset [OF assms] by (simp add: bench_start_def)

section \<open>What a run does\<close>

text \<open>
  \<open>bench dw ps todo xs sm\<close>: the device stores the beats \<open>xs\<close>, the scoreboard has met the beats
  before them, and with the beats \<open>todo\<close> that are still to be driven they make up the packets \<open>ps\<close>.
\<close>

definition bench ::
  "nat \<Rightarrow> u8 list list \<Rightarrow> (u8 list \<times> bool) list \<Rightarrow> axis_beat list \<Rightarrow> sim_context \<times> packet_mon \<Rightarrow> bool" where
  "bench dw ps todo xs sm \<longleftrightarrow>
     holds (fst sm) xs \<and> 0 < dw \<and> dw \<le> 63 \<and> list_all (\<lambda>p. p \<noteq> []) ps \<and>
     (\<exists>popped. popped @ map (capture dw) xs @ todo = stream_of dw ps \<and> tracks ps popped (snd sm))"

lemma benchI:
  assumes "bench dw ps todo xs (sim, mon)" "holds sim' xs"
  shows "bench dw ps todo xs (sim', mon)"
  using assms by (simp add: bench_def)

lemma bench_deliver:
  assumes "bench dw ps todo (x # xs) (sim, mon)" "holds sim' xs" "capture dw x = (d, l)"
  shows "bench dw ps todo xs (sim', push_beat d l mon)"
proof -
  obtain popped where "popped @ (d, l) # map (capture dw) xs @ todo = stream_of dw ps" "tracks ps popped mon"
    using assms(1,3) by (auto simp: bench_def)
  then have "(popped @ [(d, l)]) @ map (capture dw) xs @ todo = stream_of dw ps"
    "tracks ps (popped @ [(d, l)]) (push_beat d l mon)"
    using assms(1) by (auto simp: bench_def intro!: tracks_push)
  then show ?thesis
    using assms(1,2) unfolding bench_def by (auto intro!: exI [of _ "popped @ [(d, l)]"])
qed

lemma bench_drive:
  assumes "bench dw ps (capture dw x # todo) xs (sim, mon)" "holds sim' (xs @ [x])"
  shows "bench dw ps todo (xs @ [x]) (sim', mon)"
  using assms by (auto simp: bench_def)

text \<open>The beat that is driven carries the bytes and the end mark that belong to it.\<close>

lemma capture_driven:
  assumes "nb \<le> length src" "nb \<le> dw" "dw \<le> 63"
  shows "capture dw \<lparr>tdata = vlwide_set_bytes d src nb, tkeep = keep_mask nb, tlast = l\<rparr> = (take nb src, l)"
  using assms by (simp add: capture_def keep_count_mask get_set_bytes)

lemma drive_beat_holds:
  assumes "holds sim xs" "length xs < 16" "\<not> m_tready (pins (dut sim))"
    "pos < length pkt" "0 < dw" "dw \<le> 63"
  obtains x where "holds (drive_beat dw pkt pos sim) (xs @ [x])"
    "capture dw x = (take dw (drop pos pkt), length (drop pos pkt) \<le> dw)"
    "\<not> m_tready (pins (dut (drive_beat dw pkt pos sim)))"
proof -
  define nb where "nb = min dw (length pkt - pos)"
  define u where "u = (\<lambda>p :: fifo_pins. p\<lparr>s_tdata := vlwide_set_bytes (s_tdata p) (drop pos pkt) nb,
    s_tkeep := keep_mask nb, s_tlast := (pos + nb \<ge> length pkt), s_tvalid := True\<rparr>)"
  let ?p = "u (pins (dut sim))"
  have eq: "drive_beat dw pkt pos sim = count_cycle (eval_post (set_pins u (eval_pre sim)))"
    by (simp add: drive_beat_def Let_def u_def nb_def)
  have u: "rst_n (u p) = rst_n p" "s_tvalid (u p)" "m_tready (u p) = m_tready p" for p
    by (simp_all add: u_def)
  have "holds (set_pins u (eval_pre sim)) xs" "\<not> clk_prev (dut (set_pins u (eval_pre sim)))"
    using assms(1) by (simp_all add: u edge)
  from holds_post [OF this]
  have holds: "holds (drive_beat dw pkt pos sim) (xs @ [s_beat ?p])"
    using assms(2,3) by (simp add: eq edge u queue_step_def)
  have "s_beat ?p = \<lparr>tdata = vlwide_set_bytes (s_tdata (pins (dut sim))) (drop pos pkt) nb,
      tkeep = keep_mask nb, tlast = (pos + nb \<ge> length pkt)\<rparr>"
    by (simp add: s_beat_def u_def)
  then have "capture dw (s_beat ?p) = (take nb (drop pos pkt), pos + nb \<ge> length pkt)"
    using assms by (simp only:) (rule capture_driven; simp add: nb_def)
  moreover have "take nb (drop pos pkt) = take dw (drop pos pkt)" "pos + nb \<ge> length pkt \<longleftrightarrow> length (drop pos pkt) \<le> dw"
    using assms(4) by (auto simp: nb_def min_def)
  ultimately have "capture dw (s_beat ?p) = (take dw (drop pos pkt), length (drop pos pkt) \<le> dw)" by simp
  moreover have "\<not> m_tready (pins (dut (drive_beat dw pkt pos sim)))"
    using assms(3) by (simp add: eq edge u)
  ultimately show ?thesis using holds that by blast
qed

section \<open>Termination and result of the loops\<close>

text \<open>With a beat stored, one round of the wait loop takes out exactly one beat.\<close>

lemma wait_round_bench:
  assumes "bench dw ps todo (x # xs) (sim, mon)"
  shows "bench dw ps todo xs (wait_round dw (sim, mon))"
proof -
  let ?s1 = "set_pins (\<lambda>p. p\<lparr>s_tvalid := False\<rparr>) (eval_pre sim)"
  let ?s2 = "set_pins (\<lambda>p. p\<lparr>m_tready := True\<rparr>) ?s1"
  obtain d l where d: "capture dw x = (d, l)" by (meson surj_pair)
  have h: "holds ?s1 (x # xs)" "holds ?s2 (x # xs)" "\<not> clk_prev (dut ?s2)"
    using assms by (simp_all add: bench_def edge)
  from holds_post [OF h(2,3)] have "holds (count_cycle (eval_post ?s2)) xs"
    by (simp add: edge queue_step_def)
  from bench_deliver [OF assms this d] show ?thesis
    using holds_outputs [OF h(1)] d by (simp add: wait_round_def Let_def)
qed

lemma push_wait_bench:
  assumes "bench dw ps todo xs sm" "length xs \<le> 16"
  shows "\<exists>sm' xs'. push_wait dw sm = Some sm' \<and> bench dw ps todo xs' sm' \<and> length xs' < 16"
proof (cases "length xs < 16")
  case True
  then show ?thesis
    using assms holds_outputs(1) [of "fst sm" xs] by (subst push_wait.simps) (auto simp: bench_def)
next
  case False
  obtain sim mon where sm: "sm = (sim, mon)" by (cases sm)
  obtain y ys where xs: "xs = y # ys" using False by (cases xs) auto
  have rest: "bench dw ps todo ys (wait_round dw sm)"
    using wait_round_bench [of dw ps todo y ys sim mon] assms(1) by (simp add: sm xs)
  have "length ys < 16" using assms(2) xs by simp
  then have "push_wait dw (wait_round dw sm) = Some (wait_round dw sm)"
    using rest holds_outputs(1) [of "fst (wait_round dw sm)" ys]
    by (subst push_wait.simps) (simp add: bench_def)
  moreover have "push_wait dw sm = push_wait dw (wait_round dw sm)"
    using False assms(1) holds_outputs(1) [of "fst sm" xs]
    by (subst push_wait.simps) (simp add: bench_def)
  ultimately show ?thesis using rest \<open>length ys < 16\<close> by auto
qed

text \<open>Between two beats the output side is not ready; between two packets the input is low, too.\<close>

definition idle :: "sim_context \<times> packet_mon \<Rightarrow> bool" where
  "idle sm \<longleftrightarrow> \<not> m_tready (pins (dut (fst sm)))"

lemma push_loop_bench:
  assumes "bench dw ps (packet_beats dw (drop pos pkt) @ todo) xs sm" "length xs < 16" "idle sm"
  shows "\<exists>sm' xs'. push_loop dw pkt pos sm = Some sm' \<and> bench dw ps todo xs' sm' \<and>
    length xs' < 16 \<and> idle sm'"
  using assms
proof (induction "length pkt - pos" arbitrary: pos xs sm rule: less_induct)
  case less
  show ?case
  proof (cases "pos < length pkt")
    case False
    then show ?thesis using less.prems by (subst push_loop.simps) auto
  next
    case True
    obtain sim mon where sm: "sm = (sim, mon)" by (cases sm)
    have dw: "0 < dw" "dw \<le> 63" and holds: "holds sim xs" "\<not> m_tready (pins (dut sim))"
      using less.prems by (simp_all add: bench_def sm idle_def)
    obtain x where x: "holds (drive_beat dw pkt pos sim) (xs @ [x])"
      "capture dw x = (take dw (drop pos pkt), length (drop pos pkt) \<le> dw)"
      by (rule drive_beat_holds [OF holds(1) less.prems(2) holds(2) True dw])
    have "drop pos pkt \<noteq> []" using True by simp
    then have "bench dw ps (capture dw x # packet_beats dw (drop dw (drop pos pkt)) @ todo) xs (sim, mon)"
      using less.prems(1) packet_beats_step [OF dw(1)] x(2) by (simp add: sm)
    from bench_drive [OF this x(1)]
    have "bench dw ps (packet_beats dw (drop dw (drop pos pkt)) @ todo) (xs @ [x]) (drive_beat dw pkt pos sim, mon)" .
    from push_wait_bench [OF this] less.prems(2)
    obtain sim' mon' xs' where wait: "push_wait dw (drive_beat dw pkt pos sim, mon) = Some (sim', mon')"
      "bench dw ps (packet_beats dw (drop dw (drop pos pkt)) @ todo) xs' (sim', mon')" "length xs' < 16"
      by force
    define nb where "nb = min dw (length pkt - pos)"
    have nb: "packet_beats dw (drop (pos + nb) pkt) = packet_beats dw (drop dw (drop pos pkt))"
      by (simp add: nb_def min_def add.commute)
    define sm2 where "sm2 = (set_pins (\<lambda>p. p\<lparr>m_tready := False\<rparr>) sim', mon')"
    have "bench dw ps (packet_beats dw (drop (pos + nb) pkt) @ todo) xs' sm2" "idle sm2"
      using wait(2) by (simp_all add: nb sm2_def idle_def edge bench_def)
    moreover have "length pkt - (pos + nb) < length pkt - pos" using True dw by (simp add: nb_def)
    ultimately have "\<exists>sm' xs'. push_loop dw pkt (pos + nb) sm2 = Some sm' \<and> bench dw ps todo xs' sm' \<and>
        length xs' < 16 \<and> idle sm'"
      using less.hyps [of "pos + nb" xs' sm2] wait(3) by blast
    moreover have "push_loop dw pkt pos sm = push_loop dw pkt (pos + nb) sm2"
      using True wait(1) by (subst push_loop.simps) (simp add: sm nb_def sm2_def)
    ultimately show ?thesis by simp
  qed
qed

definition quiet :: "sim_context \<times> packet_mon \<Rightarrow> bool" where
  "quiet sm \<longleftrightarrow> idle sm \<and> \<not> s_tvalid (pins (dut (fst sm)))"

lemma push_packet_bench:
  assumes "bench dw ps (packet_beats dw pkt @ todo) xs sm" "length xs < 16" "quiet sm"
  shows "\<exists>sm' xs'. push_packet dw pkt sm = Some sm' \<and> bench dw ps todo xs' sm' \<and>
    length xs' < 16 \<and> quiet sm'"
proof -
  obtain sim mon xs' where loop: "push_loop dw pkt 0 sm = Some (sim, mon)" "bench dw ps todo xs' (sim, mon)"
    "length xs' < 16"
    using push_loop_bench [of dw ps 0 pkt todo xs sm] assms by (force simp: quiet_def)
  let ?s1 = "set_pins (\<lambda>p. p\<lparr>s_tvalid := False, m_tready := False\<rparr>) (eval_pre sim)"
  have "holds ?s1 xs'" "\<not> clk_prev (dut ?s1)"
    using loop(2) by (simp_all add: bench_def edge)
  from holds_post [OF this] have "holds (count_cycle (eval_post ?s1)) xs'"
    by (simp add: edge queue_step_def)
  then have "bench dw ps todo xs' (count_cycle (eval_post ?s1), mon)" by (rule benchI [OF loop(2)])
  then show ?thesis
    using loop(1,3) by (auto simp: push_packet_def Let_def quiet_def idle_def edge)
qed

text \<open>One packet after the other, and \<open>drain_all\<close>: 16 stored beats need 16 of its 10000 rounds.\<close>

fun push_all :: "nat \<Rightarrow> u8 list list \<Rightarrow> sim_context \<times> packet_mon \<Rightarrow> (sim_context \<times> packet_mon) option" where
  "push_all dw [] sm = Some sm"
| "push_all dw (p # ps) sm = Option.bind (push_packet dw p sm) (push_all dw ps)"

lemma push_all_bench:
  assumes "bench dw ps (stream_of dw qs) xs sm" "length xs < 16" "quiet sm"
  shows "\<exists>sm' xs'. push_all dw qs sm = Some sm' \<and> bench dw ps [] xs' sm' \<and> length xs' < 16 \<and> quiet sm'"
  using assms
proof (induction qs arbitrary: xs sm)
  case (Cons q qs)
  then have "bench dw ps (packet_beats dw q @ stream_of dw qs) xs sm" by simp
  from push_packet_bench [OF this Cons.prems(2,3)] Cons.IH show ?case by fastforce
qed auto

lemma drain_loop_bench:
  assumes "bench dw ps [] xs (sim, mon)" "length xs < n"
    "m_tready (pins (dut sim))" "\<not> s_tvalid (pins (dut sim))"
  shows "bench dw ps [] [] (drain_loop n dw (sim, mon))"
  using assms
proof (induction xs arbitrary: n sim mon)
  case Nil
  then obtain m where n: "n = Suc m" by (cases n) auto
  let ?s = "count_cycle (eval_post (eval_pre sim))"
  have h: "holds (eval_pre sim) []" using Nil.prems(1) by (simp add: bench_def)
  then have "holds (eval_post (eval_pre sim)) []"
    using holds_post [OF h] Nil.prems(3,4) by (simp add: edge queue_step_def)
  then have "holds ?s []" by simp
  then show ?case
    using holds_outputs [OF h] holds_outputs [of ?s] benchI [OF Nil.prems(1)] by (simp add: n Let_def)
next
  case (Cons x xs)
  then obtain m where n: "n = Suc m" "length xs < m" by (cases n) auto
  obtain d l where d: "capture dw x = (d, l)" by (meson surj_pair)
  have h: "holds (eval_pre sim) (x # xs)" using Cons.prems(1) by (simp add: bench_def)
  then have "holds (eval_post (eval_pre sim)) xs"
    using holds_post [OF h] Cons.prems(3,4) by (simp add: edge queue_step_def)
  then have "holds (count_cycle (eval_post (eval_pre sim))) xs" by simp
  from bench_deliver [OF Cons.prems(1) this d] n(2) Cons.prems(3,4)
  have "bench dw ps [] [] (drain_loop m dw (count_cycle (eval_post (eval_pre sim)), push_beat d l mon))"
    by (intro Cons.IH) (simp_all add: edge)
  then show ?case
    using holds_outputs [OF h] d Cons.prems(3) by (simp add: n Let_def edge)
qed

lemma drain_all_bench:
  assumes "bench dw ps [] xs sm" "length xs < 16" "quiet sm"
  shows "bench dw ps [] [] (drain_all dw sm)"
  using assms drain_loop_bench [of dw ps xs "set_pins (\<lambda>p. p\<lparr>m_tready := True\<rparr>) (fst sm)" "snd sm" 10000]
  by (simp add: drain_all_def bench_def quiet_def edge)

lemma bench_end:
  assumes "bench dw ps [] [] sm"
  shows "bench_pass (snd sm)" "pkt_count (snd sm) = int (length ps)" "out_empty (fst sm)"
  using assms tracks_end [of ps dw "snd sm"] holds_outputs(3) [of "fst sm" "[]"]
  by (auto simp: bench_def bench_pass_def)

lemma quiet_start [simp]: "quiet (bench_start f, mon)"
  by (simp add: quiet_def idle_def bench_start_def edge)

lemma expect_tracks: "tracks ps [] (fold mon_expect ps mon_new)"
proof -
  have "tracks qs [] m \<Longrightarrow> tracks (qs @ ps) [] (fold mon_expect ps m)" for qs m
    by (induction ps arbitrary: qs m) (simp, metis append.assoc append_Cons append_Nil fold_simps(2) tracks_expect)
  from this [OF tracks_new] show ?thesis by simp
qed

lemma expected_run:
  assumes "length (ram f) = 16" "0 < dw" "dw \<le> 63" "list_all (\<lambda>p. p \<noteq> []) ps"
  shows "\<exists>sm. push_all dw ps (bench_start f, fold mon_expect ps mon_new) = Some sm \<and>
    bench dw ps [] [] (drain_all dw sm)"
proof -
  have "bench dw ps (stream_of dw ps) [] (bench_start f, fold mon_expect ps mon_new)"
    using assms holds_start [OF assms(1)] expect_tracks [of ps] by (auto simp: bench_def)
  from push_all_bench [OF this] show ?thesis using drain_all_bench by fastforce
qed

section \<open>The three tests\<close>

lemma smac_dmac [simp]: "length smac = 6" "length dmac = 6"
  by (simp_all add: smac_def dmac_def)

lemma test_fifo_basic_passes:
  assumes "length (ram f) = 16"
  shows "test_fifo_basic f h0 = Some True"
proof -
  let ?udp = "\<lambda>sp dp pl. make_udp_packet h0 smac dmac 0xC0A80001 0xC0A80002 sp dp pl"
  obtain p1 g1 where p1: "?udp 1234 80 [0x48, 0x65, 0x6C, 0x6C, 0x6F] \<lparr>ip_id_counter = 0\<rparr> = (p1, g1)" by fastforce
  obtain p2 g2 where p2: "?udp 5678 53 [0x57, 0x6F, 0x72, 0x6C, 0x64] g1 = (p2, g2)" by fastforce
  have "p1 \<noteq> []" "p2 \<noteq> []" using p1 p2 by (auto simp: make_udp_wire eth_wire_def)
  then obtain sm where sm: "push_all 8 [p1, p2] (bench_start f, fold mon_expect [p1, p2] mon_new) = Some sm"
    "bench 8 [p1, p2] [] [] (drain_all 8 sm)"
    using expected_run [OF assms, of 8 "[p1, p2]"] by auto
  then show ?thesis
    using bench_end [OF sm(2)] by (auto simp: test_fifo_basic_def Let_def p1 p2 split: Option.bind_splits)
qed

lemma backpressure_loop_bench:
  assumes "bench 8 ps [] xs sm" "length xs < 16" "quiet sm"
  shows "\<exists>sm' ps' xs'. backpressure_loop rnd h0 is gen sm = Some sm' \<and> bench 8 ps' [] xs' sm' \<and>
    length xs' < 16 \<and> quiet sm'"
  using assms
proof (induction "is" arbitrary: ps xs gen sm)
  case (Cons i "is")
  obtain sim mon where sm: "sm = (sim, mon)" by (cases sm)
  obtain pkt gen' where pkt: "backpressure_packet rnd h0 i gen = (pkt, gen')" by fastforce
  then have "pkt \<noteq> []" by (auto simp: backpressure_packet_def Let_def make_udp_wire eth_wire_def)
  then have "bench 8 (ps @ [pkt]) (packet_beats 8 pkt @ []) xs (sim, mon_expect pkt mon)"
    using Cons.prems(1) tracks_expect unfolding bench_def sm by fastforce
  moreover have "quiet (sim, mon_expect pkt mon)" using Cons.prems(3) by (simp add: sm quiet_def idle_def)
  ultimately obtain sm' xs' where push: "push_packet 8 pkt (sim, mon_expect pkt mon) = Some sm'"
    "bench 8 (ps @ [pkt]) [] xs' sm'" "length xs' < 16" "quiet sm'"
    using push_packet_bench [OF _ Cons.prems(2)] by blast
  show ?case using Cons.IH [OF push(2-4), of gen'] push(1) by (simp add: sm pkt)
qed auto

lemma test_fifo_backpressure_passes:
  assumes "length (ram f) = 16"
  shows "test_fifo_backpressure rnd f h0 = Some True"
proof -
  have "bench 8 [] [] [] (bench_start f, mon_new)"
    using holds_start [OF assms] tracks_new by (simp add: bench_def)
  then obtain sm' ps' xs' where loop:
    "backpressure_loop rnd h0 [0..<10] \<lparr>ip_id_counter = 0\<rparr> (bench_start f, mon_new) = Some sm'"
    "bench 8 ps' [] xs' sm'" "length xs' < 16" "quiet sm'"
    using backpressure_loop_bench [of "[]" "[]" "(bench_start f, mon_new)"] by fastforce
  then show ?thesis
    using bench_end [OF drain_all_bench [OF loop(2-4)]] by (simp add: test_fifo_backpressure_def)
qed

lemma flags_holds: "holds sim xs \<Longrightarrow> flags sim = (xs = [], length xs = 16, length xs)"
  using fifo_flags_rep [of 4 "fifo_regs sim" xs] by (simp add: flags_def holds_def)

section \<open>Properties\<close>

text \<open>C1: The FIFO bench accepts the FIFO on any traffic: whatever the power-on registers, for any
  list of non-empty packets and any beat width of 1 to 63 bytes, every wait loop of
  \<open>push_packet\<close> ends, \<open>drain_all\<close> empties the device, every packet arrives unchanged and in
  order (no error, nothing pending), and the packet counter is the number of packets.\<close>

theorem fifo_bench_passes:
  assumes "length (ram f) = 16" "0 < dw" "dw \<le> 63" "list_all (\<lambda>p. p \<noteq> []) ps"
  shows "\<exists>sm. push_all dw ps (bench_start f, fold mon_expect ps mon_new) = Some sm
    \<and> bench_pass (snd (drain_all dw sm)) \<and> pkt_count (snd (drain_all dw sm)) = int (length ps)
    \<and> out_empty (fst (drain_all dw sm))"
  using expected_run [OF assms] bench_end by blast

definition fifo_power_on :: "axis_beat axis_fifo" where
  "fifo_power_on = \<lparr>wr_ptr = 7, rd_ptr = 3, m_tvalid = True,
     ram = replicate 16 \<lparr>tdata = 0, tkeep = 0, tlast = True\<rparr>\<rparr>"

theorem fifo_bench_passes_witness:
  "\<exists>sm. push_all 8 [[1, 2, 3], replicate 1500 7] (bench_start fifo_power_on,
     fold mon_expect [[1, 2, 3], replicate 1500 7] mon_new) = Some sm \<and> bench_pass (snd (drain_all 8 sm))"
  using fifo_bench_passes [of fifo_power_on 8 "[[1, 2, 3], replicate 1500 7]"]
  by (auto simp: fifo_power_on_def)


text \<open>The FIFO test bench passes: \<open>main\<close> returns 0, whatever the power-on registers, the
  indeterminate header fields and the values of \<open>rand()\<close>; no wait loop runs for ever.\<close>

theorem tb_axis_fifo_passes:
  assumes "\<And>i. length (ram (f i)) = 16"
  shows "tb_axis_fifo_main rnd f h0 = Some 0"
  using test_fifo_basic_passes [OF assms] test_fifo_backpressure_passes [OF assms]
  by (simp add: tb_axis_fifo_main_def test_fifo_flags_def Let_def)

theorem tb_axis_fifo_passes_witness:
  "tb_axis_fifo_main (\<lambda>i. i * 37) (\<lambda>_. fifo_power_on) zero_hdr = Some 0"
  by (rule tb_axis_fifo_passes) (simp add: fifo_power_on_def)

text \<open>The flags across one beat: \<open>test_fifo_flags\<close> observes an empty FIFO after reset, one
  entry after the push, neither empty nor full, and an empty FIFO after the drain, whatever the
  power-on registers.\<close>

theorem test_fifo_flags_values:
  assumes "length (ram f) = 16"
  shows "test_fifo_flags f = (True, [(True, False, 0), (False, False, 1), (True, False, 0)])"
proof -
  define s0 where "s0 = sim_tick (bench_start f)"
  define s1 where "s1 = drive_beat 8 [1, 2, 3, 4, 5, 6, 7, 8] 0 s0"
  define s2 where "s2 = count_cycle (eval_post (set_pins (\<lambda>p. p\<lparr>s_tvalid := False\<rparr>) (eval_pre s1)))"
  define s3 where "s3 = set_pins (\<lambda>p. p\<lparr>m_tready := True\<rparr>) s2"
  have p: "\<not> m_tready (pins (dut (bench_start f)))" "\<not> s_tvalid (pins (dut (bench_start f)))"
    by (simp_all add: bench_start_def edge)
  have h0: "holds s0 []"
    using holds_post [of "eval_pre (bench_start f)"] holds_start [OF assms] p
    by (simp add: s0_def sim_tick_def edge queue_step_def)
  have m0: "\<not> m_tready (pins (dut s0))" using p by (simp add: s0_def edge)
  obtain x where h1: "holds s1 [x]" and m1: "\<not> m_tready (pins (dut s1))"
    using drive_beat_holds [OF h0 _ m0, of 0 "[1, 2, 3, 4, 5, 6, 7, 8]" 8] by (force simp: s1_def)
  have h2: "holds s2 [x]"
    using holds_post [of "set_pins (\<lambda>p. p\<lparr>s_tvalid := False\<rparr>) (eval_pre s1)" "[x]"] h1 m1
    by (simp add: s2_def edge queue_step_def)
  have h3: "holds (eval_pre s3) [x]" using h2 by (simp add: s3_def)
  have v3: "m_tready (pins (dut s3))" "\<not> s_tvalid (pins (dut s3))" by (simp_all add: s3_def s2_def edge)
  have "flags_drain 100 s3 = count_cycle (eval_post (eval_pre s3))"
    using holds_outputs [OF h3] v3 flags_drain.simps(2) [of 99 s3] by (simp add: Let_def edge)
  moreover have "holds (count_cycle (eval_post (eval_pre s3))) []"
    using holds_post [OF h3] v3 by (simp add: edge queue_step_def)
  moreover have "test_fifo_flags f = (True, [flags s0, flags s2, flags (flags_drain 100 s3)])"
    by (simp add: test_fifo_flags_def Let_def s0_def s1_def s2_def s3_def)
  ultimately show ?thesis using flags_holds h0 h2 by simp
qed

theorem test_fifo_flags_values_witness:
  "snd (test_fifo_flags fifo_power_on) = [(True, False, 0), (False, False, 1), (True, False, 0)]"
  using test_fifo_flags_values [of fifo_power_on] by (simp add: fifo_power_on_def)

end
