(* ===== verification/Fifo_Formal.thy ===== *)
theory Fifo_Formal
  imports Axis_Fifo
begin

text \<open>
  The formal harness \<open>formal/fifo.sv\<close>: a FIFO of depth 4 with two 4-bit history counters, and
  the assertions it makes about them. Each state the harness can reach, after any number of
  cycles with any inputs, is a member of \<open>formal_reach\<close>.
\<close>

record 'a fifo_formal =
  fifo_inst :: "'a axis_fifo"
  push_count :: "4 word"
  pop_count :: "4 word"

text \<open>A clock edge out of reset, with the free inputs \<open>s_b\<close>, \<open>s_tvalid\<close> and \<open>m_tready\<close>.\<close>

definition formal_step :: "'a \<Rightarrow> bool \<Rightarrow> bool \<Rightarrow> 'a fifo_formal \<Rightarrow> 'a fifo_formal" where
  "formal_step s_b s_tvalid m_rdy s =
     (let f = fifo_inst s
      in \<lparr>fifo_inst = axis_fifo_step 4 True s_b s_tvalid m_rdy f,
          push_count = (if s_tvalid \<and> s_tready 4 f then push_count s + 1 else push_count s),
          pop_count = (if m_tvalid f \<and> m_rdy then pop_count s + 1 else pop_count s)\<rparr>)"

definition formal_reset :: "'a \<Rightarrow> 'a fifo_formal \<Rightarrow> 'a fifo_formal" where
  "formal_reset x s = \<lparr>fifo_inst = fifo_reset 4 x (fifo_inst s), push_count = 0, pop_count = 0\<rparr>"

inductive formal_reach :: "'a fifo_formal \<Rightarrow> bool" where
  reset: "length (ram (fifo_inst s)) = 4 \<Longrightarrow> formal_reach (formal_reset x s)"
| cycle: "formal_reach s \<Longrightarrow> formal_reach (formal_step b v r s)"

inductive_cases formal_reachE: "formal_reach s"

text \<open>Safety 1 to 4 and the occupancy assertion; \<open>used\<close> has 3 bits and is compared with the
  4-bit difference of the counters.\<close>

definition formal_safety :: "bool \<Rightarrow> bool \<Rightarrow> 'a fifo_formal \<Rightarrow> bool" where
  "formal_safety s_tvalid m_rdy s \<longleftrightarrow>
     (let f = fifo_inst s in
        (s_tvalid \<and> s_tready 4 f \<longrightarrow> \<not> fifo_full 4 f) \<and>
        (m_tvalid f \<and> m_rdy \<longrightarrow> \<not> fifo_empty 4 f) \<and>
        (s_tready 4 f \<longrightarrow> \<not> fifo_full 4 f) \<and>
        (m_tvalid f \<longrightarrow> \<not> fifo_empty 4 f) \<and>
        of_nat (fifo_used 4 f) = push_count s - pop_count s)"

text \<open>The last two assertions: \<open>push_count - pop_count <= DEPTH\<close>, computed at the 32 bits of the
  parameter, and \<open>push_count >= pop_count\<close>.\<close>

definition formal_occupancy :: "'a fifo_formal \<Rightarrow> bool" where
  "formal_occupancy s \<longleftrightarrow> (ucast (push_count s) :: u32) - ucast (pop_count s) \<le> 4"

definition formal_no_underflow :: "'a fifo_formal \<Rightarrow> bool" where
  "formal_no_underflow s \<longleftrightarrow> push_count s \<ge> pop_count s"

lemma a_width_4 [simp]: "a_width 4 = 2"
  using a_width_power [of 2] by simp

lemma formal_reach_rep:
  "formal_reach s \<Longrightarrow> \<exists>xs. fifo_rep 2 (fifo_inst s) xs \<and> of_nat (length xs) = push_count s - pop_count s"
proof (induction rule: formal_reach.induct)
  case (reset s x)
  then show ?case
    using rep_reset [of "fifo_inst s" 2 x False False]
    by (auto simp: formal_reset_def fifo_reset_def)
next
  case (cycle s b v r)
  then obtain xs where rep: "fifo_rep 2 (fifo_inst s) xs"
    and count: "of_nat (length xs) = push_count s - pop_count s" by blast
  let ?xs = "queue_step 4 (if v then Some b else None) r xs"
  have "fifo_rep 2 (fifo_inst (formal_step b v r s)) ?xs"
    using rep_step [OF rep, of b v r] by (simp add: formal_step_def Let_def)
  moreover have "of_nat (length ?xs) =
      push_count (formal_step b v r s) - pop_count (formal_step b v r s)"
    using fifo_flags_rep [OF rep] count
    by (cases xs) (auto simp: formal_step_def Let_def queue_step_def algebra_simps)
  ultimately show ?case by blast
qed

section \<open>Properties\<close>

text \<open>C37: The assertions Safety 1 to 4 and USED_EQUALS_OCCUPANCY of the formal harness hold in
  every state it can reach, whatever the inputs, with no bound on the number of cycles.\<close>

theorem fifo_formal_safety:
  assumes "formal_reach s"
  shows "formal_safety s_tvalid m_rdy s"
proof -
  obtain xs where rep: "fifo_rep 2 (fifo_inst s) xs"
    and count: "of_nat (length xs) = push_count s - pop_count s"
    using formal_reach_rep [OF assms] by blast
  then show ?thesis
    using fifo_flags_rep [OF rep] by (auto simp: formal_safety_def Let_def)
qed

lemma formal_start_reach:
  fixes x :: 'a
  shows "formal_reach (formal_reset x
    \<lparr>fifo_inst = \<lparr>wr_ptr = 0, rd_ptr = 0, m_tvalid = False, ram = replicate 4 x\<rparr>,
     push_count = 0, pop_count = 0\<rparr>)"
  by (rule formal_reach.reset) simp

theorem fifo_formal_safety_witness:
  "formal_safety True True (formal_step (1 :: nat) True False (formal_reset 0
    \<lparr>fifo_inst = \<lparr>wr_ptr = 0, rd_ptr = 0, m_tvalid = False, ram = replicate 4 0\<rparr>,
     push_count = 0, pop_count = 0\<rparr>))"
  by (rule fifo_formal_safety [OF formal_reach.cycle [OF formal_start_reach]])

text \<open>With an input offered and the output ready in every cycle, one beat is always stored.\<close>

definition formal_start :: "'a \<Rightarrow> 'a fifo_formal" where
  "formal_start x = formal_reset x
    \<lparr>fifo_inst = \<lparr>wr_ptr = 0, rd_ptr = 0, m_tvalid = False, ram = replicate 4 x\<rparr>,
     push_count = 0, pop_count = 0\<rparr>"

lemma ptr_diff_one:
  "ptr_diff 4 \<lparr>wr_ptr = Suc n mod 8, rd_ptr = n mod 8, m_tvalid = v, ram = m\<rparr> = 1"
  using ring_diff [of "n mod 8" 8 1]
  by (simp add: ptr_diff_def Let_def mod_Suc_eq)

lemma same_ram: "(replicate n x)[i := x] = replicate n x"
  by (metis length_replicate list_update_beyond list_update_id not_le nth_replicate)

lemma formal_full_rate:
  "(formal_step x True True ^^ Suc n) (formal_start x) =
    \<lparr>fifo_inst = \<lparr>wr_ptr = Suc n mod 8, rd_ptr = n mod 8, m_tvalid = True, ram = replicate 4 x\<rparr>,
     push_count = of_nat (Suc n), pop_count = of_nat n\<rparr>"
proof (induction n)
  case 0
  show ?case
    by (simp add: formal_start_def formal_reset_def fifo_reset_def formal_step_def
        axis_fifo_step_def Let_def s_tready_def fifo_full_def ptr_diff_def same_ram)
next
  case (Suc n)
  let ?f = "\<lambda>w r. \<lparr>wr_ptr = w, rd_ptr = r, m_tvalid = True, ram = replicate 4 x\<rparr>"
  have ready: "s_tready 4 (?f (Suc n mod 8) (n mod 8))"
    by (simp add: s_tready_def fifo_full_def ptr_diff_one)
  have "axis_fifo_step 4 True x True True (?f (Suc n mod 8) (n mod 8)) =
      ?f ((Suc n mod 8 + 1) mod 8) ((n mod 8 + 1) mod 8)"
    by (simp only: axis_fifo_step_def Let_def ready a_width_4 axis_fifo.simps same_ram) simp
  moreover have "(Suc n mod 8 + 1) mod 8 = Suc (Suc n) mod 8" "(n mod 8 + 1) mod 8 = Suc n mod 8"
    by presburger+
  ultimately show ?case
    unfolding funpow.simps(2) [of "Suc n"] comp_apply Suc.IH
    by (simp only: formal_step_def Let_def fifo_formal.select_convs ready axis_fifo.simps) simp
qed

text \<open>C38: The assertions OCCUPANCY_LE_DEPTH and NO_UNDERFLOW of the formal harness do not hold
  without a bound on time: the 4-bit counters wrap, and with an input offered and the output
  ready in every cycle (any beat, in particular one with non-zero \<open>tkeep\<close> as the harness
  assumes), the sixteenth push takes \<open>push_count\<close> back to 0 while \<open>pop_count\<close> is
  15, in a reachable state whose FIFO holds one beat.\<close>

theorem fifo_formal_counters_wrap:
  fixes x :: 'a
  defines "s \<equiv> (formal_step x True True ^^ 16) (formal_start x)"
  shows "formal_reach s \<and> fifo_used 4 (fifo_inst s) = 1 \<and>
    \<not> formal_occupancy s \<and> \<not> formal_no_underflow s"
proof -
  have "formal_reach ((formal_step x True True ^^ n) (formal_start x))" for n
    by (induction n) (simp_all add: formal_start_def formal_start_reach formal_reach.cycle)
  then have "formal_reach s" by (simp add: s_def)
  moreover have "s = \<lparr>fifo_inst = \<lparr>wr_ptr = Suc 15 mod 8, rd_ptr = 15 mod 8, m_tvalid = True,
      ram = replicate 4 x\<rparr>, push_count = 0, pop_count = 15\<rparr>"
    using formal_full_rate [of 15 x] by (simp add: s_def)
  ultimately show ?thesis
    by (simp only: fifo_used_def fifo_formal.select_convs ptr_diff_one)
      (simp add: formal_occupancy_def formal_no_underflow_def)
qed

end
