(* ===== verification/Token_Bucket.thy ===== *)
theory Token_Bucket
  imports Verilated
begin

text \<open>
  The rate limiter \<open>rtl/filters/token_bucket.sv\<close> (with its default counter width of 48 bits)
  and its test bench \<open>sim/testbenches/tb_rate_limiter.cpp\<close>. Console output is not modelled.
\<close>

section \<open>The module\<close>

record bucket_pins =
  tb_rst_n :: bool
  pkt_valid :: bool
  pkt_length :: u16
  cfg_rate :: u48
  cfg_burst :: u48
  cfg_interval :: u32

record bucket =
  tokens :: u48
  timer :: u32

definition pkt_allow :: "bucket_pins \<Rightarrow> bucket \<Rightarrow> bool" where
  "pkt_allow p s \<longleftrightarrow> pkt_valid p \<and> tokens s \<ge> ucast (pkt_length p)"

text \<open>The clocked process. The last assignment of a cycle wins: a packet that is let through
  overwrites the refill of the same cycle. The sum is computed at 48 bits.\<close>

definition token_bucket_step :: "bucket_pins \<Rightarrow> bucket \<Rightarrow> bucket" where
  "token_bucket_step p s =
     (if \<not> tb_rst_n p then \<lparr>tokens = cfg_burst p, timer = 0\<rparr>
      else
        let s1 = (if timer s \<ge> cfg_interval p then
                    s\<lparr>timer := 0,
                      tokens := (if tokens s + cfg_rate p < cfg_burst p
                                 then tokens s + cfg_rate p else cfg_burst p)\<rparr>
                  else s\<lparr>timer := timer s + 1\<rparr>)
        in if pkt_valid p \<and> tokens s \<ge> ucast (pkt_length p)
           then s1\<lparr>tokens := tokens s - ucast (pkt_length p)\<rparr>
           else s1)"

section \<open>The test bench\<close>

type_synonym bucket_dut = "(bucket_pins, bucket) vdut"

definition bucket_pins0 :: bucket_pins where
  "bucket_pins0 = \<lparr>tb_rst_n = False, pkt_valid = False, pkt_length = 0,
     cfg_rate = 0, cfg_burst = 0, cfg_interval = 0\<rparr>"

definition bucket_reset :: "bucket_dut \<Rightarrow> bucket_dut" where
  "bucket_reset d = reset_dut token_bucket_step (\<lambda>b p. p\<lparr>tb_rst_n := b\<rparr>) 4 d"

definition bucket_config :: "u48 \<Rightarrow> u48 \<Rightarrow> u32 \<Rightarrow> bucket_dut \<Rightarrow> bucket_dut" where
  "bucket_config r b i d = d\<lparr>pins := (pins d)\<lparr>cfg_rate := r, cfg_burst := b, cfg_interval := i\<rparr>\<rparr>"

text \<open>\<open>pre(); pkt_valid = 1; pkt_length = n; post();\<close> and the same without a packet.\<close>

definition bucket_packet :: "u16 \<Rightarrow> bucket_dut \<Rightarrow> bucket_dut" where
  "bucket_packet n d =
     (let d1 = pre token_bucket_step d
      in post token_bucket_step (d1\<lparr>pins := (pins d1)\<lparr>pkt_valid := True, pkt_length := n\<rparr>\<rparr>))"

definition bucket_idle :: "bucket_dut \<Rightarrow> bucket_dut" where
  "bucket_idle d =
     (let d1 = pre token_bucket_step d
      in post token_bucket_step (d1\<lparr>pins := (pins d1)\<lparr>pkt_valid := False\<rparr>\<rparr>))"

text \<open>What the bench reads after \<open>post\<close>: the output pin, with the tokens the edge left.\<close>

definition read_allow :: "bucket_dut \<Rightarrow> bool" where
  "read_allow d = pkt_allow (pins d) (vregs d)"

definition test_basic :: "bucket \<Rightarrow> bool" where
  "test_basic s =
     (let d = bucket_reset (bucket_config 1000 10000 1 (power_on bucket_pins0 s));
          d = bucket_packet 5000 d;
          allow1 = read_allow d;
          d = (bucket_idle ^^ 5) d;
          d = bucket_packet 500 d;
          allow2 = read_allow d
      in allow1 \<and> allow2)"

text \<open>The loop of \<open>test_drop_on_empty\<close>: the number of packets that passed before the break.\<close>

fun drop_loop :: "nat \<Rightarrow> bucket_dut \<Rightarrow> nat" where
  "drop_loop 0 d = 0"
| "drop_loop (Suc n) d =
     (let d = bucket_packet 5 d
      in if \<not> read_allow d then 0 else Suc (drop_loop n (bucket_idle d)))"

definition test_drop_on_empty :: "bucket \<Rightarrow> bool \<times> nat" where
  "test_drop_on_empty s =
     (let d = bucket_reset (bucket_config 1 10 1 (power_on bucket_pins0 s))
      in (True, drop_loop 20 d))"

definition tb_rate_limiter_main :: "bucket \<Rightarrow> bucket \<Rightarrow> int" where
  "tb_rate_limiter_main s1 s2 = (if test_basic s1 \<and> fst (test_drop_on_empty s2) then 0 else 1)"

section \<open>Runs with a fixed configuration\<close>

record config =
  rate :: u48
  burst :: u48
  interval :: u32

definition cycle_pins :: "config \<Rightarrow> u16 option \<Rightarrow> bucket_pins" where
  "cycle_pins c i = \<lparr>tb_rst_n = True, pkt_valid = (i \<noteq> None),
     pkt_length = (case i of Some n \<Rightarrow> n | None \<Rightarrow> 0),
     cfg_rate = rate c, cfg_burst = burst c, cfg_interval = interval c\<rparr>"

definition bucket_cycle :: "config \<Rightarrow> u16 option \<Rightarrow> bucket \<Rightarrow> bucket" where
  "bucket_cycle c i s = token_bucket_step (cycle_pins c i) s"

text \<open>The bytes the module lets through in a run, packet by packet.\<close>

fun allowed_bytes :: "config \<Rightarrow> u16 option list \<Rightarrow> bucket \<Rightarrow> nat" where
  "allowed_bytes c [] s = 0"
| "allowed_bytes c (i # is) s =
     (case i of Some n \<Rightarrow> if pkt_allow (cycle_pins c i) s then unat n else 0 | None \<Rightarrow> 0) +
     allowed_bytes c is (bucket_cycle c i s)"

definition bucket_inv :: "config \<Rightarrow> bucket \<Rightarrow> bool" where
  "bucket_inv c s \<longleftrightarrow> tokens s \<le> burst c \<and> timer s \<le> interval c"

lemma cycle_pins_simps [simp]:
  "tb_rst_n (cycle_pins c i)" "pkt_valid (cycle_pins c i) \<longleftrightarrow> i \<noteq> None"
  "pkt_length (cycle_pins c (Some n)) = n" "cfg_rate (cycle_pins c i) = rate c"
  "cfg_burst (cycle_pins c i) = burst c" "cfg_interval (cycle_pins c i) = interval c"
  by (simp_all add: cycle_pins_def)

lemma unat_ucast_16_48 [simp]: "unat (ucast (n :: u16) :: u48) = unat n"
  by (simp add: unsigned_ucast_eq take_bit_nat_eq_self unsigned_less [of n, THEN less_le_trans])

text \<open>What a cycle does, read as natural numbers.\<close>

lemma timer_cycle:
  assumes "timer s \<le> interval c"
  shows "unat (timer (bucket_cycle c i s)) =
    (if timer s = interval c then 0 else unat (timer s) + 1)"
proof (cases "timer s = interval c")
  case False
  then have "timer s < interval c" using assms by simp
  then have "unat (timer s) < unat (interval c)" by (simp add: word_less_nat_alt)
  then have "unat (timer s) + 1 < 2 ^ 32" using unsigned_less [of "interval c", where ?'a = nat] by simp
  then have "unat (timer s + 1) = unat (timer s) + 1" by (simp add: unat_word_ariths)
  moreover have "\<not> interval c \<le> timer s" using False assms by simp
  ultimately show ?thesis using False
    by (simp add: bucket_cycle_def token_bucket_step_def Let_def)
qed (simp add: bucket_cycle_def token_bucket_step_def Let_def)

lemma timer_inv:
  assumes "timer s \<le> interval c"
  shows "timer (bucket_cycle c i s) \<le> interval c"
proof -
  have "unat (timer s) < unat (interval c)" if "timer s \<noteq> interval c"
    using assms that by (simp add: word_less_nat_alt [symmetric])
  then show ?thesis
    using timer_cycle [OF assms, of i] by (auto simp: word_le_nat_alt)
qed

lemma tokens_inv:
  assumes "tokens s \<le> burst c"
  shows "tokens (bucket_cycle c i s) \<le> burst c"
proof -
  have "tokens s - x \<le> burst c" if "x \<le> tokens s" for x
    using assms that by (metis order_trans word_sub_le)
  then show ?thesis
    using assms by (auto simp: bucket_cycle_def token_bucket_step_def Let_def)
qed

lemma tokens_cycle:
  assumes "tokens s \<le> burst c" "timer s \<le> interval c"
  shows "unat (tokens (bucket_cycle c i s)) +
      (case i of Some n \<Rightarrow> if pkt_allow (cycle_pins c i) s then unat n else 0 | None \<Rightarrow> 0)
    \<le> unat (tokens s) + (if timer s = interval c then unat (rate c) else 0)"
proof -
  have add: "unat (tokens s + rate c) \<le> unat (tokens s) + unat (rate c)"
    by (simp add: unat_word_ariths)
  have sat: "unat (burst c) \<le> unat (tokens s) + unat (rate c)" if "\<not> tokens s + rate c < burst c"
    using that add by (simp add: word_less_nat_alt)
  have sub: "unat (tokens s - ucast n) + unat n = unat (tokens s)" if "ucast n \<le> tokens s" for n :: u16
    using that unat_sub [of "ucast n" "tokens s"] by (simp add: word_le_nat_alt)
  show ?thesis
    using assms add sat sub
    by (auto simp: bucket_cycle_def token_bucket_step_def Let_def pkt_allow_def split: option.splits)
qed

lemma bucket_inv_cycle: "bucket_inv c s \<Longrightarrow> bucket_inv c (bucket_cycle c i s)"
  by (simp add: bucket_inv_def tokens_inv timer_inv)

definition bucket_run :: "config \<Rightarrow> u16 option list \<Rightarrow> bucket \<Rightarrow> bucket" where
  "bucket_run c is s = fold (bucket_cycle c) is s"

lemma bucket_inv_run: "bucket_inv c s \<Longrightarrow> bucket_inv c (bucket_run c is s)"
  unfolding bucket_run_def by (induction "is" arbitrary: s) (simp_all add: bucket_inv_cycle)

text \<open>How many refills \<open>n\<close> cycles contain, from the value of the timer on.\<close>

definition refills :: "config \<Rightarrow> bucket \<Rightarrow> nat \<Rightarrow> nat" where
  "refills c s n = (n + unat (timer s)) div (unat (interval c) + 1)"

lemma refills_Suc:
  assumes "timer s \<le> interval c"
  shows "refills c s (Suc n) = (if timer s = interval c then 1 else 0) + refills c (bucket_cycle c i s) n"
proof (cases "timer s = interval c")
  case True
  let ?I = "unat (interval c) + 1"
  have "(n + ?I) div ?I = n div ?I + 1" by (rule div_add_self2) simp
  then show ?thesis
    using True timer_cycle [OF assms, of i] by (simp add: refills_def)
next
  case False
  then show ?thesis using timer_cycle [OF assms, of i] by (simp add: refills_def)
qed

lemma refills_0: "timer s \<le> interval c \<Longrightarrow> refills c s 0 = 0"
  by (simp add: refills_def word_le_nat_alt)

lemma unat_refill:
  assumes "unat (rate c) + unat (burst c) < 2 ^ 48" "tokens s \<le> burst c"
  shows "unat (if tokens s + rate c < burst c then tokens s + rate c else burst c) =
    min (unat (burst c)) (unat (tokens s) + unat (rate c))"
proof -
  have "unat (tokens s) \<le> unat (burst c)" using assms(2) by (simp add: word_le_nat_alt)
  then have "unat (tokens s) + unat (rate c) < 2 ^ LENGTH(48)" using assms(1) by simp
  then have "unat (tokens s + rate c) = unat (tokens s) + unat (rate c)"
    by (rule unat_add_lem [THEN iffD1])
  then show ?thesis by (simp add: word_less_nat_alt)
qed

lemma tokens_idle:
  assumes "unat (rate c) + unat (burst c) < 2 ^ 48" "bucket_inv c s"
  shows "unat (tokens (bucket_cycle c None s)) =
    min (unat (burst c)) (unat (tokens s) + unat (rate c) * (if timer s = interval c then 1 else 0))"
proof (cases "timer s = interval c")
  case True
  then have "tokens (bucket_cycle c None s) =
      (if tokens s + rate c < burst c then tokens s + rate c else burst c)"
    by (simp add: bucket_cycle_def token_bucket_step_def Let_def)
  then show ?thesis
    using True unat_refill [OF assms(1), of s] assms(2) by (simp only: bucket_inv_def) simp
next
  case False
  then have "\<not> interval c \<le> timer s" using assms(2) by (auto simp: bucket_inv_def)
  moreover have "unat (tokens s) \<le> unat (burst c)" using assms(2) by (simp add: bucket_inv_def word_le_nat_alt)
  ultimately show ?thesis using False
    by (simp add: bucket_cycle_def token_bucket_step_def Let_def)
qed

text \<open>A run in which every cycle brings a packet that is let through.\<close>

fun busy :: "config \<Rightarrow> u16 list \<Rightarrow> bucket \<Rightarrow> bool" where
  "busy c [] s = True"
| "busy c (n # ns) s = (pkt_allow (cycle_pins c (Some n)) s \<and> busy c ns (bucket_cycle c (Some n) s))"

lemma reset_state:
  "vregs (bucket_reset (bucket_config r b i (power_on bucket_pins0 s))) =
    token_bucket_step (bucket_pins0\<lparr>cfg_rate := r, cfg_burst := b, cfg_interval := i, tb_rst_n := True\<rparr>)
      \<lparr>tokens = b, timer = 0\<rparr>"
  "pins (bucket_reset (bucket_config r b i (power_on bucket_pins0 s))) =
    bucket_pins0\<lparr>cfg_rate := r, cfg_burst := b, cfg_interval := i, tb_rst_n := True\<rparr>"
  by (simp_all add: bucket_reset_def bucket_config_def edge funpow_const [where c = "\<lparr>tokens = b, timer = 0\<rparr>"]
      token_bucket_step_def)

lemma bucket_packet_simps [edge]:
  "vregs (bucket_packet n d) = token_bucket_step ((pins d)\<lparr>pkt_valid := True, pkt_length := n\<rparr>) (vregs d)"
  "pins (bucket_packet n d) = (pins d)\<lparr>pkt_valid := True, pkt_length := n\<rparr>"
  "vregs (bucket_idle d) = token_bucket_step ((pins d)\<lparr>pkt_valid := False\<rparr>) (vregs d)"
  "pins (bucket_idle d) = (pins d)\<lparr>pkt_valid := False\<rparr>"
  by (simp_all add: bucket_packet_def bucket_idle_def Let_def edge)

text \<open>\<open>on c d s\<close>: the device is out of reset with configuration \<open>c\<close> and registers \<open>s\<close>.\<close>

definition on :: "config \<Rightarrow> bucket_dut \<Rightarrow> bucket \<Rightarrow> bool" where
  "on c d s \<longleftrightarrow> vregs d = s \<and> tb_rst_n (pins d) \<and> cfg_rate (pins d) = rate c \<and>
     cfg_burst (pins d) = burst c \<and> cfg_interval (pins d) = interval c"

lemma on_packet: "on c d s \<Longrightarrow> on c (bucket_packet n d) (bucket_cycle c (Some n) s)"
  by (cases "pins d") (simp add: on_def edge bucket_cycle_def cycle_pins_def)

lemma on_idle: "on c d s \<Longrightarrow> on c (bucket_idle d) (bucket_cycle c None s)"
  by (cases "pins d") (simp add: on_def edge bucket_cycle_def token_bucket_step_def)

lemma read_after_packet:
  "on c d s \<Longrightarrow> read_allow (bucket_packet n d) \<longleftrightarrow> ucast n \<le> tokens (bucket_cycle c (Some n) s)"
  using on_packet [of c d s n] by (simp add: on_def read_allow_def pkt_allow_def edge)

lemma on_reset:
  "on \<lparr>rate = r, burst = b, interval = i\<rparr> (bucket_reset (bucket_config r b i (power_on bucket_pins0 s)))
     (bucket_cycle \<lparr>rate = r, burst = b, interval = i\<rparr> None \<lparr>tokens = b, timer = 0\<rparr>)"
  unfolding on_def reset_state
  by (simp add: bucket_cycle_def cycle_pins_def token_bucket_step_def bucket_pins0_def)

lemmas bucket_eval = bucket_cycle_def token_bucket_step_def Let_def

lemma test_basic_passes: "test_basic s"
proof -
  let ?c = "\<lparr>rate = 1000, burst = 10000, interval = 1\<rparr> :: config"
  define d0 where "d0 = bucket_reset (bucket_config 1000 10000 1 (power_on bucket_pins0 s))"
  define d1 where "d1 = bucket_packet 5000 d0"
  define d2 where "d2 = (bucket_idle ^^ 5) d1"
  have r0: "on ?c d0 \<lparr>tokens = 10000, timer = 1\<rparr>"
    using on_reset [of 1000 10000 1 s] by (simp add: d0_def bucket_eval)
  have r1: "on ?c d1 \<lparr>tokens = 5000, timer = 0\<rparr>"
    using on_packet [OF r0, of 5000] by (simp add: d1_def bucket_eval)
  have five: "(f ^^ 5) x = f (f (f (f (f x))))" for f :: "bucket_dut \<Rightarrow> bucket_dut" and x
    by (simp add: numeral_eq_Suc)
  have "on ?c (bucket_idle d1) \<lparr>tokens = 5000, timer = 1\<rparr>"
    using on_idle [OF r1] by (simp add: bucket_eval)
  then have "on ?c (bucket_idle (bucket_idle d1)) \<lparr>tokens = 6000, timer = 0\<rparr>"
    using on_idle by (fastforce simp: bucket_eval)
  then have "on ?c (bucket_idle (bucket_idle (bucket_idle d1))) \<lparr>tokens = 6000, timer = 1\<rparr>"
    using on_idle by (fastforce simp: bucket_eval)
  then have "on ?c (bucket_idle (bucket_idle (bucket_idle (bucket_idle d1)))) \<lparr>tokens = 7000, timer = 0\<rparr>"
    using on_idle by (fastforce simp: bucket_eval)
  then have r2: "on ?c d2 \<lparr>tokens = 7000, timer = 1\<rparr>"
    using on_idle unfolding d2_def five by (fastforce simp: bucket_eval)
  have "read_allow d1" "read_allow (bucket_packet 500 d2)"
    using read_after_packet [OF r0, of 5000] read_after_packet [OF r2, of 500]
    by (simp_all add: d1_def bucket_eval)
  then show ?thesis by (simp add: test_basic_def Let_def d0_def d1_def d2_def)
qed

lemma test_drop_stops: "test_drop_on_empty s = (True, 1)"
proof -
  let ?c = "\<lparr>rate = 1, burst = 10, interval = 1\<rparr> :: config"
  define d0 where "d0 = bucket_reset (bucket_config 1 10 1 (power_on bucket_pins0 s))"
  define d1 where "d1 = bucket_packet 5 d0"
  have r0: "on ?c d0 \<lparr>tokens = 10, timer = 1\<rparr>"
    using on_reset [of 1 10 1 s] by (simp add: d0_def bucket_eval)
  have r1: "on ?c d1 \<lparr>tokens = 5, timer = 0\<rparr>"
    using on_packet [OF r0, of 5] by (simp add: d1_def bucket_eval)
  have r2: "on ?c (bucket_idle d1) \<lparr>tokens = 5, timer = 1\<rparr>"
    using on_idle [OF r1] by (simp add: bucket_eval)
  have "read_allow d1" "\<not> read_allow (bucket_packet 5 (bucket_idle d1))"
    using read_after_packet [OF r0, of 5] read_after_packet [OF r2, of 5]
    by (simp_all add: d1_def bucket_eval)
  then show ?thesis
    using drop_loop.simps(2) [of 19 d0] drop_loop.simps(2) [of 18 "bucket_idle d1"]
    by (simp add: test_drop_on_empty_def Let_def flip: d0_def d1_def)
qed

section \<open>Properties\<close>

text \<open>C24: The traffic contract of the rate limiter: with a fixed configuration, over any run of
  \<open>n\<close> cycles and any packets, the bytes let through are at most the tokens there were at the start
  plus \<open>rate\<close> for each refill, and \<open>n\<close> cycles hold \<open>(n + timer) div (interval + 1)\<close> refills;
  the tokens never exceed \<open>burst\<close>. This holds even where the 48-bit sum of the refill wraps.\<close>

theorem rate_contract:
  assumes "bucket_inv c s"
  shows "allowed_bytes c is s \<le>
      unat (tokens s) + unat (rate c) * ((length is + unat (timer s)) div (unat (interval c) + 1))
    \<and> bucket_inv c (bucket_run c is s)"
proof -
  have "allowed_bytes c is s \<le> unat (tokens s) + unat (rate c) * refills c s (length is)"
    using assms
  proof (induction "is" arbitrary: s)
    case (Cons i "is")
    have t: "timer s \<le> interval c" "tokens s \<le> burst c" using Cons.prems by (simp_all add: bucket_inv_def)
    show ?case
      using Cons.IH [OF bucket_inv_cycle [OF Cons.prems, of i]] tokens_cycle [OF t(2,1), of i]
        refills_Suc [OF t(1), of "length is" i]
      by (auto simp: algebra_simps split: if_splits)
  qed simp
  then show ?thesis using bucket_inv_run [OF assms] by (simp add: refills_def)
qed

theorem rate_contract_witness:
  "allowed_bytes \<lparr>rate = 100, burst = 1500, interval = 9\<rparr> (replicate 50 (Some 64)) \<lparr>tokens = 1500, timer = 0\<rparr> \<le> 2000"
  using rate_contract [of "\<lparr>rate = 100, burst = 1500, interval = 9\<rparr>" "\<lparr>tokens = 1500, timer = 0\<rparr>"
      "replicate 50 (Some 64)"]
  by (simp add: bucket_inv_def)

text \<open>Idle refill: as long as no packet arrives and \<open>rate + burst\<close> fits in 48 bits, after \<open>n\<close>
  cycles the bucket holds exactly the old tokens plus \<open>rate\<close> per refill, saturated at \<open>burst\<close>,
  and a refill happens every \<open>cfg_interval + 1\<close> cycles.\<close>

theorem idle_refill:
  assumes "bucket_inv c s" "unat (rate c) + unat (burst c) < 2 ^ 48"
  shows "unat (tokens (bucket_run c (replicate n None) s)) =
    min (unat (burst c))
      (unat (tokens s) + unat (rate c) * ((n + unat (timer s)) div (unat (interval c) + 1)))"
proof -
  have "unat (tokens (bucket_run c (replicate n None) s)) =
      min (unat (burst c)) (unat (tokens s) + unat (rate c) * refills c s n)"
    using assms(1)
  proof (induction n arbitrary: s)
    case 0
    then show ?case using refills_0 [of s c] by (simp add: bucket_run_def bucket_inv_def word_le_nat_alt)
  next
    case (Suc n)
    have t: "timer s \<le> interval c" using Suc.prems by (simp add: bucket_inv_def)
    show ?case
      using Suc.IH [OF bucket_inv_cycle [OF Suc.prems, of None]] tokens_idle [OF assms(2) Suc.prems]
        refills_Suc [OF t, of n None]
      by (auto simp: bucket_run_def algebra_simps)
  qed
  then show ?thesis by (simp add: refills_def)
qed

theorem idle_refill_witness:
  "unat (tokens (bucket_run \<lparr>rate = 100, burst = 1500, interval = 9\<rparr> (replicate 30 None) \<lparr>tokens = 0, timer = 0\<rparr>)) = 300"
  using idle_refill [of "\<lparr>rate = 100, burst = 1500, interval = 9\<rparr>" "\<lparr>tokens = 0, timer = 0\<rparr>" 30]
  by (simp add: bucket_inv_def)

text \<open>Refills lost under load: in a run in which every cycle brings a packet that is let
  through, the bucket is never refilled, whatever the rate and the interval: the tokens at the
  end are those at the start less the bytes let through.\<close>

theorem busy_run_never_refilled:
  assumes "busy c ns s"
  shows "unat (tokens (bucket_run c (map Some ns) s)) + sum_list (map unat ns) = unat (tokens s)"
  using assms
proof (induction ns arbitrary: s)
  case (Cons n ns)
  have allow: "ucast n \<le> tokens s" using Cons.prems by (simp add: pkt_allow_def)
  have "tokens (bucket_cycle c (Some n) s) = tokens s - ucast n"
    using allow by (simp add: bucket_cycle_def token_bucket_step_def Let_def)
  moreover have "unat (tokens s - ucast n) + unat n = unat (tokens s)"
    using allow unat_sub [of "ucast n" "tokens s"] by (simp add: word_le_nat_alt)
  ultimately show ?case
    using Cons.IH [of "bucket_cycle c (Some n) s"] Cons.prems by (simp add: bucket_run_def)
qed (simp add: bucket_run_def)

theorem busy_run_never_refilled_witness:
  "unat (tokens (bucket_run \<lparr>rate = 1000, burst = 3000, interval = 0\<rparr> [Some 1000, Some 1000, Some 1000]
     \<lparr>tokens = 3000, timer = 0\<rparr>)) = 0"
  using busy_run_never_refilled [of "\<lparr>rate = 1000, burst = 3000, interval = 0\<rparr>" "[1000, 1000, 1000]"
      "\<lparr>tokens = 3000, timer = 0\<rparr>"]
  by (simp add: pkt_allow_def bucket_cycle_def token_bucket_step_def Let_def)

text \<open>The bench reads \<open>pkt_allow\<close> after the clock edge, where it tells of the next packet: after
  a packet of \<open>n\<close> bytes that the module let through, the bench sees ALLOW only if the bucket had
  held \<open>2 * n\<close> bytes.\<close>

theorem bench_reads_next_packet:
  assumes "on c d s" "pkt_allow (cycle_pins c (Some n)) s"
  shows "read_allow (bucket_packet n d) \<longleftrightarrow> 2 * unat n \<le> unat (tokens s)"
proof -
  have allow: "ucast n \<le> tokens s" using assms(2) by (simp add: pkt_allow_def)
  then have "tokens (bucket_cycle c (Some n) s) = tokens s - ucast n" by (simp add: bucket_eval)
  then show ?thesis
    using read_after_packet [OF assms(1), of n] allow unat_sub [of "ucast n" "tokens s"]
    by (auto simp: word_le_nat_alt)
qed

theorem bench_reads_next_packet_witness:
  "\<not> read_allow (bucket_packet 6000 (bucket_reset (bucket_config 1000 10000 1 (power_on bucket_pins0 \<lparr>tokens = 0, timer = 0\<rparr>))))"
  using bench_reads_next_packet [OF on_reset, where n = 6000 and r1 = 1000 and b1 = 10000 and i1 = 1
      and s1 = "\<lparr>tokens = 0, timer = 0\<rparr>"]
  by (simp add: pkt_allow_def bucket_eval)

text \<open>The rate limiter bench passes (exit code 0) from every power-on state; its second test
  stops after one packet, although the burst admits two.\<close>

theorem tb_rate_limiter_passes:
  "tb_rate_limiter_main s1 s2 = 0 \<and> snd (test_drop_on_empty s2) = 1"
  by (simp add: tb_rate_limiter_main_def test_basic_passes test_drop_stops)

end
