(* ===== verification/Register_Iface.thy ===== *)
theory Register_Iface
  imports Verilated
begin

text \<open>
  The AXI-Lite register file \<open>rtl/top/register_iface.sv\<close> and its test bench
  \<open>sim/testbenches/tb_axi_lite.cpp\<close>. The contract of a register bus is a locale; the bench's
  driver over the module's model is an instance of it.
\<close>

section \<open>The module\<close>

datatype wstate = W_IDLE | W_RESP
datatype rstate = R_IDLE | R_DATA

record reg_pins =
  reg_rst_n :: bool
  awaddr :: u32
  awvalid :: bool
  wdata :: u32
  wvalid :: bool
  bready :: bool
  araddr :: u32
  arvalid :: bool
  rready :: bool
  cnt_packets :: u48
  cnt_bytes :: u48
  cnt_ipv4 :: u48
  cnt_tcp :: u48
  cnt_udp :: u48
  cnt_arp :: u48
  cnt_drops :: u48
  cnt_errors :: u48

record reg_file =
  regs :: "u32 list"
  wst :: wstate
  awready :: bool
  wready :: bool
  bvalid :: bool
  bresp :: "2 word"
  waddr_q :: u8
  rst :: rstate
  arready :: bool
  rvalid :: bool
  rdata :: u32
  rresp :: "2 word"

text \<open>\<open>cnt[31:0]\<close> and \<open>{16'h0000, cnt[47:32]}\<close>.\<close>

definition cnt_lo :: "u48 \<Rightarrow> u32" where
  "cnt_lo c = ucast c"

definition cnt_hi :: "u48 \<Rightarrow> u32" where
  "cnt_hi c = ucast (ucast (drop_bit 32 c) :: u16)"

text \<open>The array has 64 entries and the address 8 bits: a read past the end yields a value \<open>oob\<close>
  that the language leaves open, a write past the end is ignored.\<close>

definition read_mux :: "u32 \<Rightarrow> reg_pins \<Rightarrow> u32 list \<Rightarrow> u8 \<Rightarrow> u32" where
  "read_mux oob p rs addr =
     (if addr \<ge> 0x50 \<and> addr < 0x60 then
        (if addr = 0x50 then cnt_lo (cnt_packets p) else if addr = 0x51 then cnt_hi (cnt_packets p)
         else if addr = 0x52 then cnt_lo (cnt_bytes p) else if addr = 0x53 then cnt_hi (cnt_bytes p)
         else if addr = 0x54 then cnt_lo (cnt_ipv4 p) else if addr = 0x55 then cnt_hi (cnt_ipv4 p)
         else if addr = 0x56 then cnt_lo (cnt_tcp p) else if addr = 0x57 then cnt_hi (cnt_tcp p)
         else if addr = 0x58 then cnt_lo (cnt_udp p) else if addr = 0x59 then cnt_hi (cnt_udp p)
         else if addr = 0x5A then cnt_lo (cnt_arp p) else if addr = 0x5B then cnt_hi (cnt_arp p)
         else if addr = 0x5C then cnt_lo (cnt_drops p) else if addr = 0x5D then cnt_hi (cnt_drops p)
         else if addr = 0x5E then cnt_lo (cnt_errors p) else if addr = 0x5F then cnt_hi (cnt_errors p)
         else 0)
      else if unat addr < length rs then rs ! unat addr else oob)"

text \<open>The write process.\<close>

definition write_fsm :: "reg_pins \<Rightarrow> reg_file \<Rightarrow> reg_file" where
  "write_fsm p s =
     (let s = s\<lparr>awready := False, wready := False, bvalid := False\<rparr>
      in case wst s of
        W_IDLE \<Rightarrow>
          if awvalid p then
            let s = s\<lparr>awready := True, waddr_q := ucast (awaddr p)\<rparr>
            in if wvalid p then
                 s\<lparr>wready := True, regs := (regs s)[unat (ucast (awaddr p) :: u8) := wdata p], wst := W_RESP\<rparr>
               else s
          else if wvalid p then s\<lparr>wready := True\<rparr>
          else s
      | W_RESP \<Rightarrow>
          let s = s\<lparr>bvalid := True, bresp := 0\<rparr>
          in if bready p then s\<lparr>wst := W_IDLE\<rparr> else s)"

text \<open>The read process; \<open>rs\<close> are the registers before the edge.\<close>

definition read_fsm :: "u32 \<Rightarrow> reg_pins \<Rightarrow> u32 list \<Rightarrow> reg_file \<Rightarrow> reg_file" where
  "read_fsm oob p rs s =
     (let s = s\<lparr>arready := False, rvalid := False\<rparr>
      in case rst s of
        R_IDLE \<Rightarrow>
          if arvalid p then
            s\<lparr>arready := True, rdata := read_mux oob p rs (ucast (araddr p)), rvalid := True, rst := R_DATA\<rparr>
          else s
      | R_DATA \<Rightarrow>
          let s = s\<lparr>rvalid := True\<rparr>
          in if rready p then s\<lparr>rst := R_IDLE\<rparr> else s)"

definition register_iface_step :: "u32 \<Rightarrow> reg_pins \<Rightarrow> reg_file \<Rightarrow> reg_file" where
  "register_iface_step oob p s =
     (if \<not> reg_rst_n p then
        \<lparr>regs = replicate 64 0, wst = W_IDLE, awready = False, wready = False, bvalid = False, bresp = 0,
         waddr_q = 0, rst = R_IDLE, arready = False, rvalid = False, rdata = 0, rresp = 0\<rparr>
      else read_fsm oob p (regs s) (write_fsm p s))"

section \<open>The test bench\<close>

type_synonym reg_dut = "(reg_pins, reg_file) vdut"

definition reg_pins0 :: reg_pins where
  "reg_pins0 = \<lparr>reg_rst_n = False, awaddr = 0, awvalid = False, wdata = 0, wvalid = False, bready = False,
     araddr = 0, arvalid = False, rready = False, cnt_packets = 0, cnt_bytes = 0, cnt_ipv4 = 0,
     cnt_tcp = 0, cnt_udp = 0, cnt_arp = 0, cnt_drops = 0, cnt_errors = 0\<rparr>"

definition axi_reset :: "u32 \<Rightarrow> reg_dut \<Rightarrow> reg_dut" where
  "axi_reset oob d = reset_dut (register_iface_step oob) (\<lambda>b p. p\<lparr>reg_rst_n := b\<rparr>) 4 d"

definition set_reg_pins :: "(reg_pins \<Rightarrow> reg_pins) \<Rightarrow> reg_dut \<Rightarrow> reg_dut" where
  "set_reg_pins u d = d\<lparr>pins := u (pins d)\<rparr>"

definition deassert_w :: "u32 \<Rightarrow> reg_dut \<Rightarrow> reg_dut" where
  "deassert_w oob d =
     (let d = pre (register_iface_step oob) d;
          d = set_reg_pins (\<lambda>p. p\<lparr>awvalid := False, wvalid := False\<rparr>) d
      in post (register_iface_step oob) d)"

text \<open>\<open>axi_write\<close>, which always returns true.\<close>

definition axi_write :: "u32 \<Rightarrow> u32 \<Rightarrow> u32 \<Rightarrow> reg_dut \<Rightarrow> reg_dut" where
  "axi_write oob addr data d =
     (let d = pre (register_iface_step oob) d;
          d = set_reg_pins (\<lambda>p. p\<lparr>awaddr := addr, awvalid := True, wdata := data, wvalid := True,
                bready := True, arvalid := False, rready := False\<rparr>) d;
          d = post (register_iface_step oob) d;
          d = deassert_w oob d;
          d = tick (register_iface_step oob) d
      in tick (register_iface_step oob) d)"

definition axi_read :: "u32 \<Rightarrow> u32 \<Rightarrow> reg_dut \<Rightarrow> u32 \<times> reg_dut" where
  "axi_read oob addr d =
     (let d = pre (register_iface_step oob) d;
          d = set_reg_pins (\<lambda>p. p\<lparr>araddr := addr, arvalid := True, rready := True, awvalid := False,
                wvalid := False, bready := False\<rparr>) d;
          d = post (register_iface_step oob) d;
          d = tick (register_iface_step oob) d;
          d = pre (register_iface_step oob) d;
          data = rdata (vregs d);
          d = set_reg_pins (\<lambda>p. p\<lparr>arvalid := False\<rparr>) d
      in (data, post (register_iface_step oob) d))"

definition axi_start :: "u32 \<Rightarrow> reg_file \<Rightarrow> reg_dut" where
  "axi_start oob s = axi_reset oob (power_on reg_pins0 s)"

definition test_write_read :: "u32 \<Rightarrow> reg_file \<Rightarrow> bool" where
  "test_write_read oob s =
     (let d = axi_write oob 0x10 0xDEADBEEF (axi_start oob s);
          (readback, d) = axi_read oob 0x10 d
      in readback = 0xDEADBEEF)"

definition test_stats_read :: "u32 \<Rightarrow> reg_file \<Rightarrow> bool" where
  "test_stats_read oob s =
     (let d = set_reg_pins (\<lambda>p. p\<lparr>cnt_packets := 12345, cnt_bytes := 999999\<rparr>) (axi_start oob s);
          (pkt_lo, d) = axi_read oob 0x50 d;
          (pkt_hi, d) = axi_read oob 0x51 d;
          (byt_lo, d) = axi_read oob 0x52 d;
          packets = (push_bit 32 (ucast pkt_hi) OR ucast pkt_lo :: u64)
      in packets = 12345 \<and> byt_lo = 999999)"

definition test_multiple_writes :: "u32 \<Rightarrow> reg_file \<Rightarrow> bool" where
  "test_multiple_writes oob s =
     (let d = fold (\<lambda>i. axi_write oob (0x20 + word_of_nat i) (0xA0000000 + word_of_nat i)) [0..<4] (axi_start oob s);
          (r0, d) = axi_read oob 0x20 d;
          (r1, d) = axi_read oob 0x21 d;
          (r2, d) = axi_read oob 0x22 d;
          (r3, d) = axi_read oob 0x23 d
      in r0 = 0xA0000000 \<and> r1 = 0xA0000001 \<and> r2 = 0xA0000002 \<and> r3 = 0xA0000003)"

text \<open>Each test makes a module object of its own.\<close>

definition tb_axi_lite_main :: "u32 \<Rightarrow> reg_file \<Rightarrow> reg_file \<Rightarrow> reg_file \<Rightarrow> int" where
  "tb_axi_lite_main oob s1 s2 s3 =
     (if test_write_read oob s1 \<and> test_stats_read oob s2 \<and> test_multiple_writes oob s3 then 0 else 1)"

section \<open>One transaction\<close>

text \<open>Both state machines idle, out of reset.\<close>

definition bus_idle :: "reg_dut \<Rightarrow> bool" where
  "bus_idle d \<longleftrightarrow> reg_rst_n (pins d) \<and> wst (vregs d) = W_IDLE \<and> rst (vregs d) = R_IDLE \<and>
     length (regs (vregs d)) = 64"

definition counters :: "reg_pins \<Rightarrow> u48 list" where
  "counters p = [cnt_packets p, cnt_bytes p, cnt_ipv4 p, cnt_tcp p, cnt_udp p, cnt_arp p,
     cnt_drops p, cnt_errors p]"

lemma set_reg_pins_simps [edge]:
  "vregs (set_reg_pins u d) = vregs d" "pins (set_reg_pins u d) = u (pins d)"
  "clk_prev (set_reg_pins u d) = clk_prev d"
  by (simp_all add: set_reg_pins_def)

lemmas reg_steps = register_iface_step_def write_fsm_def read_fsm_def Let_def

lemma axi_write_effect:
  assumes "bus_idle d"
  shows "bus_idle (axi_write oob a v d)"
    and "regs (vregs (axi_write oob a v d)) = (regs (vregs d))[unat (ucast a :: u8) := v]"
    and "counters (pins (axi_write oob a v d)) = counters (pins d)"
  using assms
  by (simp_all add: bus_idle_def axi_write_def deassert_w_def Let_def edge counters_def)
    (simp_all add: reg_steps)

lemma read_mux_counters:
  "counters p = counters q \<Longrightarrow> read_mux oob p rs a = read_mux oob q rs a"
  by (simp add: read_mux_def counters_def)

lemma axi_read_effect:
  assumes "bus_idle d"
  shows "bus_idle (snd (axi_read oob a d))"
    and "regs (vregs (snd (axi_read oob a d))) = regs (vregs d)"
    and "counters (pins (snd (axi_read oob a d))) = counters (pins d)"
    and "fst (axi_read oob a d) = read_mux oob (pins d) (regs (vregs d)) (ucast a)"
proof -
  let ?p = "(pins d)\<lparr>araddr := a, arvalid := True, rready := True, awvalid := False,
    wvalid := False, bready := False\<rparr>"
  have "counters ?p = counters (pins d)" by (simp add: counters_def)
  note mux = read_mux_counters [OF this]
  show "bus_idle (snd (axi_read oob a d))" "regs (vregs (snd (axi_read oob a d))) = regs (vregs d)"
    "counters (pins (snd (axi_read oob a d))) = counters (pins d)"
    "fst (axi_read oob a d) = read_mux oob (pins d) (regs (vregs d)) (ucast a)"
    using assms
    by (simp_all add: bus_idle_def axi_read_def Let_def edge counters_def)
      (simp_all add: reg_steps mux)
qed

lemma axi_start_idle:
  "bus_idle (axi_start oob s)" "regs (vregs (axi_start oob s)) = replicate 64 0"
  "counters (pins (axi_start oob s)) = [0, 0, 0, 0, 0, 0, 0, 0]"
proof -
  let ?r = "\<lparr>regs = replicate 64 0, wst = W_IDLE, awready = False, wready = False, bvalid = False, bresp = 0,
         waddr_q = 0, rst = R_IDLE, arready = False, rvalid = False, rdata = 0, rresp = 0\<rparr> :: reg_file"
  have pins: "pins (axi_start oob s) = reg_pins0\<lparr>reg_rst_n := True\<rparr>"
    by (simp add: axi_start_def axi_reset_def edge)
  have "(register_iface_step oob (reg_pins0\<lparr>reg_rst_n := False\<rparr>) ^^ 4) s = ?r"
    by (rule funpow_const) (simp_all add: register_iface_step_def)
  then have regs: "vregs (axi_start oob s) = register_iface_step oob (reg_pins0\<lparr>reg_rst_n := True\<rparr>) ?r"
    by (simp add: axi_start_def axi_reset_def edge)
  show "bus_idle (axi_start oob s)" "regs (vregs (axi_start oob s)) = replicate 64 0"
    "counters (pins (axi_start oob s)) = [0, 0, 0, 0, 0, 0, 0, 0]"
    unfolding bus_idle_def pins regs
    by (simp_all add: reg_steps reg_pins0_def counters_def)
qed

section \<open>The contract of a register bus\<close>

text \<open>
  A client writes and reads registers through operations on a device \<open>'d\<close>. The provider promises
  which value each address shows (\<open>view\<close>): a read returns it and changes nothing, a write changes
  it at the addresses \<open>hits\<close> names and nowhere else.
\<close>

datatype ('a, 'v) bus_op = Bus_Write 'a 'v | Bus_Read 'a

fun bus_run ::
  "('a \<Rightarrow> 'v \<Rightarrow> 'd \<Rightarrow> 'd) \<Rightarrow> ('a \<Rightarrow> 'd \<Rightarrow> 'v \<times> 'd) \<Rightarrow> ('a, 'v) bus_op list \<Rightarrow> 'd \<Rightarrow> 'v list" where
  "bus_run wr rd [] d = []"
| "bus_run wr rd (Bus_Write a v # ops) d = bus_run wr rd ops (wr a v d)"
| "bus_run wr rd (Bus_Read a # ops) d = fst (rd a d) # bus_run wr rd ops (snd (rd a d))"

text \<open>What the reads of a program return when a write is seen by every later read it hits.\<close>

fun bus_spec :: "('a \<Rightarrow> 'a \<Rightarrow> bool) \<Rightarrow> ('a, 'v) bus_op list \<Rightarrow> ('a \<Rightarrow> 'v) \<Rightarrow> 'v list" where
  "bus_spec hits [] m = []"
| "bus_spec hits (Bus_Write a v # ops) m = bus_spec hits ops (\<lambda>b. if hits a b then v else m b)"
| "bus_spec hits (Bus_Read a # ops) m = m a # bus_spec hits ops m"

locale register_bus =
  fixes inv :: "'d \<Rightarrow> bool"
    and wr :: "'a \<Rightarrow> 'v \<Rightarrow> 'd \<Rightarrow> 'd"
    and rd :: "'a \<Rightarrow> 'd \<Rightarrow> 'v \<times> 'd"
    and view :: "'d \<Rightarrow> 'a \<Rightarrow> 'v"
    and hits :: "'a \<Rightarrow> 'a \<Rightarrow> bool"
  assumes inv_wr: "inv d \<Longrightarrow> inv (wr a v d)"
    and inv_rd: "inv d \<Longrightarrow> inv (snd (rd a d))"
    and rd_view: "inv d \<Longrightarrow> fst (rd a d) = view d a"
    and rd_keep: "inv d \<Longrightarrow> view (snd (rd a d)) b = view d b"
    and wr_view: "inv d \<Longrightarrow> view (wr a v d) b = (if hits a b then v else view d b)"
begin

lemma run_spec:
  assumes "inv d"
  shows "bus_run wr rd ops d = bus_spec hits ops (view d)"
  using assms
proof (induction ops arbitrary: d)
  case (Cons x ops)
  show ?case
  proof (cases x)
    case (Bus_Write a v)
    have "view (wr a v d) = (\<lambda>b. if hits a b then v else view d b)"
      using wr_view [OF Cons.prems] by blast
    then show ?thesis using Cons inv_wr Bus_Write by simp
  next
    case (Bus_Read a)
    have "view (snd (rd a d)) = view d" using rd_keep [OF Cons.prems] by blast
    then show ?thesis using Cons inv_rd rd_view Bus_Read by simp
  qed
qed simp

lemma write_then_read:
  assumes "inv d" "hits a a"
  shows "fst (rd a (wr a v d)) = v"
  using assms inv_wr rd_view wr_view by simp

end

text \<open>The bench's driver: only the low byte of an address counts, and only registers 0 to 63 store.\<close>

definition axi_view :: "u32 \<Rightarrow> reg_dut \<Rightarrow> u32 \<Rightarrow> u32" where
  "axi_view oob d a = read_mux oob (pins d) (regs (vregs d)) (ucast a)"

definition axi_hits :: "u32 \<Rightarrow> u32 \<Rightarrow> bool" where
  "axi_hits a b \<longleftrightarrow> (ucast a :: u8) = ucast b \<and> (ucast a :: u8) < 64"

lemma read_mux_update:
  assumes "length rs = 64"
  shows "read_mux oob p (rs[unat x := v]) y = (if x = y \<and> x < 64 then v else read_mux oob p rs y)"
proof (cases "y < 64")
  case True
  then have "unat y < 64" "\<not> 0x50 \<le> y" by (simp_all add: word_less_nat_alt word_le_nat_alt)
  moreover have "unat x \<noteq> unat y" if "x \<noteq> y" using that by (simp add: word_unat_eq_iff)
  ultimately show ?thesis
    using assms True by (cases "x = y") (simp_all add: read_mux_def)
next
  case False
  then have "\<not> unat y < 64" by (simp add: word_less_nat_alt)
  then show ?thesis using assms False by (auto simp: read_mux_def)
qed

interpretation axil: register_bus bus_idle "axi_write oob" "axi_read oob" "axi_view oob" axi_hits for oob
proof unfold_locales
  fix d a v b
  assume idle: "bus_idle d"
  show "axi_view oob (axi_write oob a v d) b = (if axi_hits a b then v else axi_view oob d b)"
  proof -
    have mux: "read_mux oob (pins (axi_write oob a v d)) = read_mux oob (pins d)"
      using read_mux_counters [OF axi_write_effect(3) [OF idle]] by blast
    let ?rs = "regs (vregs d)"
    have "read_mux oob (pins d) (?rs[unat (ucast a :: u8) := v]) (ucast b) =
        (if axi_hits a b then v else read_mux oob (pins d) ?rs (ucast b))"
      using idle read_mux_update [of ?rs oob "pins d" "ucast a" v "ucast b"]
      by (simp add: bus_idle_def axi_hits_def)
    then show ?thesis by (simp add: axi_view_def mux axi_write_effect(2) [OF idle])
  qed
qed (simp_all add: axi_view_def axi_read_effect axi_write_effect read_mux_counters [OF axi_read_effect(3)])

text \<open>The read side of a cycle does not depend on the write side.\<close>

lemma read_side:
  assumes "reg_rst_n p"
  shows "rvalid (register_iface_step oob p s) \<longleftrightarrow> rst s = R_DATA \<or> arvalid p"
    and "rst (register_iface_step oob p s) =
      (if rst s = R_DATA then if rready p then R_IDLE else R_DATA else if arvalid p then R_DATA else R_IDLE)"
    and "rst s = R_DATA \<Longrightarrow> rdata (register_iface_step oob p s) = rdata s"
proof -
  have keep: "rst (write_fsm p s) = rst s" "rdata (write_fsm p s) = rdata s"
    by (simp_all add: write_fsm_def Let_def split: wstate.split)
  show "rvalid (register_iface_step oob p s) \<longleftrightarrow> rst s = R_DATA \<or> arvalid p"
    "rst (register_iface_step oob p s) =
      (if rst s = R_DATA then if rready p then R_IDLE else R_DATA else if arvalid p then R_DATA else R_IDLE)"
    "rst s = R_DATA \<Longrightarrow> rdata (register_iface_step oob p s) = rdata s"
    using assms
    by (simp_all add: register_iface_step_def read_fsm_def Let_def keep split: rstate.split)
qed

lemma write_side_idle:
  assumes "reg_rst_n p" "wst s = W_IDLE" "\<not> (awvalid p \<and> wvalid p)"
  shows "awready (register_iface_step oob p s) \<longleftrightarrow> awvalid p"
    and "wready (register_iface_step oob p s) \<longleftrightarrow> wvalid p"
    and "\<not> bvalid (register_iface_step oob p s)"
    and "wst (register_iface_step oob p s) = W_IDLE"
    and "regs (register_iface_step oob p s) = regs s"
proof -
  have keep: "awready (read_fsm oob p rs t) = awready t" "wready (read_fsm oob p rs t) = wready t"
    "bvalid (read_fsm oob p rs t) = bvalid t" "wst (read_fsm oob p rs t) = wst t"
    "regs (read_fsm oob p rs t) = regs t" for rs t
    by (simp_all add: read_fsm_def Let_def split: rstate.split)
  show "awready (register_iface_step oob p s) \<longleftrightarrow> awvalid p"
    "wready (register_iface_step oob p s) \<longleftrightarrow> wvalid p"
    "\<not> bvalid (register_iface_step oob p s)"
    "wst (register_iface_step oob p s) = W_IDLE"
    "regs (register_iface_step oob p s) = regs s"
    using assms by (simp_all add: register_iface_step_def keep write_fsm_def Let_def)
qed

lemma read_mux_counter:
  "read_mux oob p rs 0x50 = cnt_lo (cnt_packets p)" "read_mux oob p rs 0x51 = cnt_hi (cnt_packets p)"
  "read_mux oob p rs 0x52 = cnt_lo (cnt_bytes p)" "read_mux oob p rs 0x53 = cnt_hi (cnt_bytes p)"
  "read_mux oob p rs 0x54 = cnt_lo (cnt_ipv4 p)" "read_mux oob p rs 0x55 = cnt_hi (cnt_ipv4 p)"
  "read_mux oob p rs 0x56 = cnt_lo (cnt_tcp p)" "read_mux oob p rs 0x57 = cnt_hi (cnt_tcp p)"
  "read_mux oob p rs 0x58 = cnt_lo (cnt_udp p)" "read_mux oob p rs 0x59 = cnt_hi (cnt_udp p)"
  "read_mux oob p rs 0x5A = cnt_lo (cnt_arp p)" "read_mux oob p rs 0x5B = cnt_hi (cnt_arp p)"
  "read_mux oob p rs 0x5C = cnt_lo (cnt_drops p)" "read_mux oob p rs 0x5D = cnt_hi (cnt_drops p)"
  "read_mux oob p rs 0x5E = cnt_lo (cnt_errors p)" "read_mux oob p rs 0x5F = cnt_hi (cnt_errors p)"
  by (simp_all add: read_mux_def)

lemma read_mux_pair:
  assumes "k < 8"
  shows "read_mux oob p rs (ucast (0x50 + 2 * word_of_nat k :: u32)) = cnt_lo (counters p ! k)"
    and "read_mux oob p rs (ucast (0x51 + 2 * word_of_nat k :: u32)) = cnt_hi (counters p ! k)"
proof -
  consider "k = 0" | "k = 1" | "k = 2" | "k = 3" | "k = 4" | "k = 5" | "k = 6" | "k = 7"
    using assms by arith
  then have "read_mux oob p rs (ucast (0x50 + 2 * word_of_nat k :: u32)) = cnt_lo (counters p ! k) \<and>
      read_mux oob p rs (ucast (0x51 + 2 * word_of_nat k :: u32)) = cnt_hi (counters p ! k)"
    by cases (simp_all add: counters_def read_mux_counter)
  then show "read_mux oob p rs (ucast (0x50 + 2 * word_of_nat k :: u32)) = cnt_lo (counters p ! k)"
    "read_mux oob p rs (ucast (0x51 + 2 * word_of_nat k :: u32)) = cnt_hi (counters p ! k)" by blast+
qed

lemma cnt_join: "(push_bit 32 (ucast (cnt_hi c)) OR ucast (cnt_lo c) :: u64) = ucast c"
  by (rule word_eq_bitsI) (auto simp: bits cnt_hi_def cnt_lo_def dest: bit_imp_le_length)

text \<open>Some power-on registers, for the witnesses.\<close>

definition reg_power_on :: reg_file where
  "reg_power_on = \<lparr>regs = replicate 64 7, wst = W_RESP, awready = True, wready = False, bvalid = True, bresp = 3,
     waddr_q = 9, rst = R_DATA, arready = True, rvalid = True, rdata = 5, rresp = 1\<rparr>"

section \<open>Properties\<close>

text \<open>The view after reset: the counter window shows the counter pins, the rest of the 64
  registers 0.\<close>

definition axi_initial :: "u32 \<Rightarrow> u32 \<Rightarrow> u32" where
  "axi_initial oob a =
     (let b = ucast a :: u8 in if 0x50 \<le> b \<and> b < 0x60 then 0 else if b < 64 then 0 else oob)"

text \<open>C25: The register file is a memory: for every program of bus writes and reads that the bench's
  driver can run after reset, from every power-on state, each read of a register 0 to 63 returns
  the value of the last write to that address (0 without one), and writes elsewhere change no read.\<close>

theorem axi_bus_is_memory:
  "bus_run (axi_write oob) (axi_read oob) ops (axi_start oob s) = bus_spec axi_hits ops (axi_initial oob)"
proof -
  have "axi_view oob (axi_start oob s) = axi_initial oob"
  proof
    fix a
    have "read_mux oob (pins (axi_start oob s)) (replicate 64 0) b =
        (if 0x50 \<le> b \<and> b < 0x60 then 0 else if b < 64 then 0 else oob)" for b
      using axi_start_idle(3) [of oob s]
      by (auto simp: read_mux_def counters_def cnt_lo_def cnt_hi_def word_less_nat_alt)
    then show "axi_view oob (axi_start oob s) a = axi_initial oob a"
      by (simp add: axi_view_def axi_initial_def axi_start_idle(2) Let_def)
  qed
  then show ?thesis using axil.run_spec [OF axi_start_idle(1), of oob ops] by simp
qed

text \<open>Counters read consistently: reading the low and then the high word of any of the eight
  48-bit counters through the bus gives back the counter, when its pins do not change meanwhile.\<close>

theorem counter_readback:
  assumes "bus_idle d" "k < 8"
  shows "let (lo, d1) = axi_read oob (0x50 + 2 * word_of_nat k) d;
             (hi, d2) = axi_read oob (0x51 + 2 * word_of_nat k) d1
         in (push_bit 32 (ucast hi) OR ucast lo :: u64) = ucast (counters (pins d) ! k)"
proof -
  define lo where "lo = axi_read oob (0x50 + 2 * word_of_nat k) d"
  have lo: "bus_idle (snd lo)" "fst lo = read_mux oob (pins d) (regs (vregs d)) (ucast (0x50 + 2 * word_of_nat k :: u32))"
    "counters (pins (snd lo)) = counters (pins d)"
    using axi_read_effect [OF assms(1)] by (simp_all add: lo_def)
  define hi where "hi = axi_read oob (0x51 + 2 * word_of_nat k) (snd lo)"
  have hi: "fst hi = read_mux oob (pins d) (regs (vregs (snd lo))) (ucast (0x51 + 2 * word_of_nat k :: u32))"
    using axi_read_effect(4) [OF lo(1)] read_mux_counters [OF lo(3)] by (simp add: hi_def)
  have "fst lo = cnt_lo (counters (pins d) ! k) \<and> fst hi = cnt_hi (counters (pins d) ! k)"
    unfolding lo(2) hi using read_mux_pair [OF assms(2)] by blast
  then show ?thesis
    using cnt_join [of "counters (pins d) ! k"]
    by (simp add: Let_def case_prod_beta flip: lo_def hi_def)
qed

theorem counter_readback_witness:
  "let d = set_reg_pins (\<lambda>p. p\<lparr>cnt_drops := 0x123456789ABC\<rparr>) (axi_start 0 reg_power_on);
       (lo, d1) = axi_read 0 0x5C d; (hi, d2) = axi_read 0 0x5D d1
   in (push_bit 32 (ucast hi) OR ucast lo :: u64) = 0x123456789ABC"
  using counter_readback [of "set_reg_pins (\<lambda>p. p\<lparr>cnt_drops := 0x123456789ABC\<rparr>) (axi_start 0 reg_power_on)" 6 0]
    axi_start_idle(1)
  by (simp add: Let_def bus_idle_def edge counters_def)

text \<open>C40: A write whose address comes first is lost: when the master presents the address in one
  cycle and the data in the next, as AXI-Lite allows, the module acknowledges both, stores
  nothing, returns to idle and never gives the write response.\<close>

theorem address_first_write_lost:
  assumes "reg_rst_n p1" "awvalid p1" "\<not> wvalid p1" "reg_rst_n p2" "\<not> awvalid p2" "wvalid p2" "wst s = W_IDLE"
  shows "let s1 = register_iface_step oob p1 s; s2 = register_iface_step oob p2 s1
    in awready s1 \<and> wready s2 \<and> regs s2 = regs s \<and> wst s2 = W_IDLE \<and> \<not> bvalid s1 \<and> \<not> bvalid s2"
  using assms write_side_idle [of p1 s oob] write_side_idle [of p2 "register_iface_step oob p1 s" oob]
  by (simp add: Let_def)

theorem address_first_write_lost_witness:
  fixes p1 p2 :: reg_pins
  defines "p1 \<equiv> reg_pins0\<lparr>reg_rst_n := True, awaddr := 0x10, awvalid := True\<rparr>"
    and "p2 \<equiv> reg_pins0\<lparr>reg_rst_n := True, wdata := 7, wvalid := True\<rparr>"
  shows "regs (register_iface_step 0 p2 (register_iface_step 0 p1 (vregs (axi_start 0 reg_power_on)))) =
    regs (vregs (axi_start 0 reg_power_on))"
proof -
  have p: "reg_rst_n p1" "awvalid p1" "\<not> wvalid p1" "reg_rst_n p2" "\<not> awvalid p2" "wvalid p2"
    by (simp_all add: p1_def p2_def reg_pins0_def)
  have "wst (vregs (axi_start 0 reg_power_on)) = W_IDLE"
    using axi_start_idle(1) [of 0 reg_power_on] by (simp only: bus_idle_def)
  from address_first_write_lost [OF p this, of 0] show ?thesis by (simp only: Let_def)
qed

text \<open>One read request, two responses: a master that keeps \<open>rready\<close> high and withdraws its
  request after the first edge meets \<open>rvalid\<close> at the next two edges, so that it takes two
  responses for the one request.\<close>

theorem read_response_repeated:
  assumes "reg_rst_n p1" "arvalid p1" "reg_rst_n p2" "\<not> arvalid p2" "rready p2" "rst s = R_IDLE"
  shows "let s1 = register_iface_step oob p1 s; s2 = register_iface_step oob p2 s1;
             s3 = register_iface_step oob p2 s2
    in rvalid s1 \<and> rvalid s2 \<and> \<not> rvalid s3 \<and> rst s2 = R_IDLE \<and> rdata s2 = rdata s1"
proof -
  define s1 where "s1 = register_iface_step oob p1 s"
  define s2 where "s2 = register_iface_step oob p2 s1"
  have "rvalid s1" "rst s1 = R_DATA" using assms by (simp_all add: s1_def read_side)
  moreover from this have "rvalid s2" "rst s2 = R_IDLE" "rdata s2 = rdata s1"
    using assms by (simp_all add: s2_def read_side)
  ultimately show ?thesis
    using assms by (simp add: read_side Let_def flip: s1_def s2_def)
qed

theorem read_response_repeated_witness:
  fixes p1 p2 :: reg_pins
  defines "p1 \<equiv> reg_pins0\<lparr>reg_rst_n := True, arvalid := True, rready := True\<rparr>"
    and "p2 \<equiv> reg_pins0\<lparr>reg_rst_n := True, rready := True\<rparr>"
  shows "rvalid (register_iface_step 0 p2 (register_iface_step 0 p1 (vregs (axi_start 0 reg_power_on))))"
proof -
  have p: "reg_rst_n p1" "arvalid p1" "reg_rst_n p2" "\<not> arvalid p2" "rready p2"
    by (simp_all add: p1_def p2_def reg_pins0_def)
  have "rst (vregs (axi_start 0 reg_power_on)) = R_IDLE"
    using axi_start_idle(1) [of 0 reg_power_on] by (simp only: bus_idle_def)
  from read_response_repeated [OF p this, of 0] show ?thesis by (simp only: Let_def)
qed

lemma axi_tests_pass:
  "test_write_read oob s" "test_stats_read oob s" "test_multiple_writes oob s"
proof -
  note start = axi_start_idle [of oob s]
  have "fst (axi_read oob 0x10 (axi_write oob 0x10 0xDEADBEEF (axi_start oob s))) = 0xDEADBEEF"
    by (rule axil.write_then_read [OF start(1)]) (simp add: axi_hits_def)
  then show "test_write_read oob s" by (simp add: test_write_read_def Let_def case_prod_beta)
  define d where "d = set_reg_pins (\<lambda>p. p\<lparr>cnt_packets := 12345, cnt_bytes := 999999\<rparr>) (axi_start oob s)"
  define d1 where "d1 = snd (axi_read oob 0x50 d)"
  define d2 where "d2 = snd (axi_read oob 0x51 d1)"
  have d: "bus_idle d" "cnt_packets (pins d) = 12345" "cnt_bytes (pins d) = 999999"
    using start(1) by (simp_all add: d_def bus_idle_def edge)
  have d1: "bus_idle d1" "counters (pins d1) = counters (pins d)"
    using axi_read_effect [OF d(1)] by (simp_all add: d1_def)
  have d2: "bus_idle d2" "counters (pins d2) = counters (pins d1)"
    using axi_read_effect [OF d1(1)] by (simp_all add: d2_def)
  have "fst (axi_read oob 0x50 d) = cnt_lo 12345" "fst (axi_read oob 0x51 d1) = cnt_hi 12345"
    "fst (axi_read oob 0x52 d2) = cnt_lo 999999"
    using axi_read_effect(4) [OF d(1), of oob "0x50"] axi_read_effect(4) [OF d1(1), of oob "0x51"]
      axi_read_effect(4) [OF d2(1), of oob "0x52"] d d1(2) d2(2)
    by (simp_all add: read_mux_counter counters_def)
  then show "test_stats_read oob s"
    using cnt_join [of 12345]
    by (simp add: test_stats_read_def Let_def case_prod_beta cnt_lo_def flip: d_def d1_def d2_def)
  define ops :: "(u32, u32) bus_op list" where
    "ops = [Bus_Write 0x20 0xA0000000, Bus_Write 0x21 0xA0000001, Bus_Write 0x22 0xA0000002,
      Bus_Write 0x23 0xA0000003, Bus_Read 0x20, Bus_Read 0x21, Bus_Read 0x22, Bus_Read 0x23]"
  have "bus_spec axi_hits ops m = [0xA0000000, 0xA0000001, 0xA0000002, 0xA0000003]" for m
    by (simp add: ops_def axi_hits_def)
  then have "bus_run (axi_write oob) (axi_read oob) ops (axi_start oob s) =
      [0xA0000000, 0xA0000001, 0xA0000002, 0xA0000003]"
    using axil.run_spec [OF start(1), of oob ops] by simp
  then show "test_multiple_writes oob s"
    by (simp add: ops_def test_multiple_writes_def Let_def case_prod_beta upt_rec)
qed

text \<open>The AXI-Lite bench passes (exit code 0) from every power-on state: write and read back,
  the counter window, and four writes followed by four reads.\<close>

theorem tb_axi_lite_passes: "tb_axi_lite_main oob s1 s2 s3 = 0"
  by (simp add: tb_axi_lite_main_def axi_tests_pass)

end
