(* ===== verification/Npe_Pkg.thy ===== *)
theory Npe_Pkg
  imports Byte_Lanes
begin

text \<open>
  The types and constants of \<open>rtl/common/npe_pkg.sv\<close> that the modules share. The struct member
  \<open>drop\<close> is called \<open>meta_drop\<close> here, and so on for names that HOL uses.
\<close>

section \<open>Metadata\<close>

record packet_metadata =
  dst_mac :: u48
  src_mac :: u48
  ethertype :: u16
  vlan_valid :: bool
  vlan_id :: "12 word"
  vlan_prio :: "3 word"
  vlan_cfi :: bool
  ipv4_valid :: bool
  src_ip :: u32
  dst_ip :: u32
  protocol :: u8
  ttl :: u8
  ip_hdr_len :: "4 word"
  ip_checksum_ok :: bool
  tcp_valid :: bool
  udp_valid :: bool
  src_port :: u16
  dst_port :: u16
  tcp_flags :: "4 word"
  tcp_seq :: u32
  tcp_ack :: u32
  tcp_window :: u16
  class_id :: u8
  meta_drop :: bool
  crc_error :: bool
  parse_error :: bool
  pkt_length :: u16

text \<open>\<open>'0\<close> as metadata.\<close>

definition meta0 :: packet_metadata where
  "meta0 = \<lparr>dst_mac = 0, src_mac = 0, ethertype = 0, vlan_valid = False, vlan_id = 0, vlan_prio = 0,
     vlan_cfi = False, ipv4_valid = False, src_ip = 0, dst_ip = 0, protocol = 0, ttl = 0, ip_hdr_len = 0,
     ip_checksum_ok = False, tcp_valid = False, udp_valid = False, src_port = 0, dst_port = 0,
     tcp_flags = 0, tcp_seq = 0, tcp_ack = 0, tcp_window = 0, class_id = 0, meta_drop = False,
     crc_error = False, parse_error = False, pkt_length = 0\<rparr>"

text \<open>The packed struct as 360 bits: the first member is the most significant, so that the last
  one, \<open>pkt_length\<close>, starts at bit 0 and \<open>class_id\<close> at bit 19.\<close>

type_synonym meta_bits = "360 word"

definition field :: "meta_bits \<Rightarrow> nat \<Rightarrow> 'a::len word" where
  "field m lo = ucast (drop_bit lo m)"

definition unpack_meta :: "meta_bits \<Rightarrow> packet_metadata" where
  "unpack_meta m = \<lparr>dst_mac = field m 312, src_mac = field m 264, ethertype = field m 248,
     vlan_valid = bit m 247, vlan_id = field m 235, vlan_prio = field m 232, vlan_cfi = bit m 231,
     ipv4_valid = bit m 230, src_ip = field m 198, dst_ip = field m 166, protocol = field m 158,
     ttl = field m 150, ip_hdr_len = field m 146, ip_checksum_ok = bit m 145, tcp_valid = bit m 144,
     udp_valid = bit m 143, src_port = field m 127, dst_port = field m 111, tcp_flags = field m 107,
     tcp_seq = field m 75, tcp_ack = field m 43, tcp_window = field m 27, class_id = field m 19,
     meta_drop = bit m 18, crc_error = bit m 17, parse_error = bit m 16, pkt_length = field m 0\<rparr>"

text \<open>\<open>s_meta.at(i) = w\<close> of a test bench: word \<open>i\<close> of the packed struct, least significant first.\<close>

definition meta_put :: "meta_bits \<Rightarrow> nat \<Rightarrow> u32 \<Rightarrow> meta_bits" where
  "meta_put m i w = (m AND NOT (push_bit (i * 32) (mask 32))) OR push_bit (i * 32) (ucast w)"

section \<open>Actions and table entries\<close>

datatype rule_action = ACTION_ALLOW | ACTION_DROP | ACTION_REDIRECT | ACTION_MIRROR

record action_entry =
  ae_action :: rule_action
  ae_queue_id :: u8

datatype modifier_action = MOD_NOP | MOD_TTL_DEC | MOD_MAC_SWAP | MOD_MAC_SET | MOD_IP_SET
  | MOD_VLAN_PUSH | MOD_VLAN_POP | MOD_DSCP_SET | MOD_ECN_SET

record modifier_data =
  new_dst_mac :: u48
  new_src_mac :: u48
  new_src_ip :: u32
  new_dst_ip :: u32
  md_vlan_id :: "12 word"
  md_vlan_prio :: "3 word"
  new_dscp :: "6 word"
  new_ecn :: "2 word"

definition mod_data0 :: modifier_data where
  "mod_data0 = \<lparr>new_dst_mac = 0, new_src_mac = 0, new_src_ip = 0, new_dst_ip = 0, md_vlan_id = 0,
     md_vlan_prio = 0, new_dscp = 0, new_ecn = 0\<rparr>"

record classifier_rule =
  cr_valid :: bool
  cr_protocol :: u8
  cr_src_ip :: u32
  cr_dst_ip :: u32
  cr_src_port :: u16
  cr_dst_port :: u16
  cr_class_id :: u8
  cr_drop :: bool

definition classifier_rule0 :: classifier_rule where
  "classifier_rule0 = \<lparr>cr_valid = False, cr_protocol = 0, cr_src_ip = 0, cr_dst_ip = 0,
     cr_src_port = 0, cr_dst_port = 0, cr_class_id = 0, cr_drop = False\<rparr>"

record match_entry =
  me_valid :: bool
  me_protocol :: u8
  me_src_ip :: u32
  me_dst_ip :: u32
  me_src_port :: u16
  me_dst_port :: u16
  me_action :: rule_action
  me_class_id :: u8
  me_mod_action :: modifier_action
  me_mod_data :: modifier_data

definition match_entry0 :: match_entry where
  "match_entry0 = \<lparr>me_valid = False, me_protocol = 0, me_src_ip = 0, me_dst_ip = 0, me_src_port = 0,
     me_dst_port = 0, me_action = ACTION_ALLOW, me_class_id = 0, me_mod_action = MOD_NOP,
     me_mod_data = mod_data0\<rparr>"

record flow_key =
  fk_src_ip :: u32
  fk_dst_ip :: u32
  fk_protocol :: u8
  fk_src_port :: u16
  fk_dst_port :: u16

record flow_entry =
  fe_valid :: bool
  fe_key :: flow_key
  fe_packet_count :: u48
  fe_byte_count :: u64
  fe_last_seen :: u32

definition flow_entry0 :: flow_entry where
  "flow_entry0 = \<lparr>fe_valid = False, fe_key = \<lparr>fk_src_ip = 0, fk_dst_ip = 0, fk_protocol = 0,
     fk_src_port = 0, fk_dst_port = 0\<rparr>, fe_packet_count = 0, fe_byte_count = 0, fe_last_seen = 0\<rparr>"

section \<open>Constants\<close>

definition ETYPE_IPV4 :: u16 where "ETYPE_IPV4 = 0x0800"
definition ETYPE_ARP :: u16 where "ETYPE_ARP = 0x0806"
definition ETYPE_VLAN :: u16 where "ETYPE_VLAN = 0x8100"
definition PROTO_TCP :: u8 where "PROTO_TCP = 0x06"
definition PROTO_UDP :: u8 where "PROTO_UDP = 0x11"

lemmas npe_consts = ETYPE_IPV4_def ETYPE_ARP_def ETYPE_VLAN_def PROTO_TCP_def PROTO_UDP_def

lemma bit_field [bits]: "bit (field m lo :: 'a::len word) n \<longleftrightarrow> n < LENGTH('a) \<and> bit m (lo + n)"
  by (simp add: field_def bits)

lemma bit_meta_put [bits]:
  "bit (meta_put m i w) n \<longleftrightarrow> n < 360 \<and>
     (if i * 32 \<le> n \<and> n < i * 32 + 32 then bit w (n - i * 32) else bit m n)"
  by (auto simp: meta_put_def bits dest: bit_imp_le_length)

text \<open>A word written outside bits 19 to 26 does not reach \<open>class_id\<close>.\<close>

lemma class_id_put:
  assumes "0 < i"
  shows "class_id (unpack_meta (meta_put m i w)) = class_id (unpack_meta m)"
  by (rule word_eq_bitsI) (use assms in \<open>auto simp: unpack_meta_def bits\<close>)

end
