(* ===== verification/Parsers.thy ===== *)
theory Parsers
  imports Axis_Stage Npe_Pkg
begin

text \<open>
  The header parsers of \<open>rtl/parsers/\<close>. Each is a pipeline register for the beat with a metadata
  register beside it, which is loaded with the first beat of a packet and kept for the others.
  What a parser extracts is a function of the first beat and of the incoming metadata.
\<close>

section \<open>The common stage\<close>

record parser_regs =
  first_beat :: bool
  pipe :: axis_reg
  pipe_meta :: packet_metadata

text \<open>The first-beat tracker.\<close>

definition track_first :: "bool \<Rightarrow> bool \<Rightarrow> bool \<Rightarrow> bool \<Rightarrow> bool \<Rightarrow> bool" where
  "track_first rst_n s_tvalid s_tready s_tlast fb =
     (if \<not> rst_n then True
      else if s_tvalid \<and> s_tready \<and> s_tlast then True
      else if s_tvalid \<and> s_tready \<and> fb then False
      else fb)"

text \<open>The two clocked processes; \<open>upd\<close> is what the stage writes into the incoming metadata.\<close>

definition meta_stage_step ::
  "(axis_beat \<Rightarrow> packet_metadata \<Rightarrow> packet_metadata) \<Rightarrow> bool \<Rightarrow> axis_beat \<Rightarrow> bool \<Rightarrow> bool \<Rightarrow>
     packet_metadata \<Rightarrow> 'x parser_regs_scheme \<Rightarrow> 'x parser_regs_scheme" where
  "meta_stage_step upd rst_n s_b s_tvalid m_tready s_meta s =
     (let s_tready = reg_ready m_tready (pipe s)
      in s\<lparr>first_beat := track_first rst_n s_tvalid s_tready (tlast s_b) (first_beat s),
           pipe := axis_register_step rst_n s_b s_tvalid m_tready (pipe s),
           pipe_meta := (if rst_n \<and> s_tready \<and> first_beat s \<and> s_tvalid then upd s_b s_meta
                         else pipe_meta s)\<rparr>)"

section \<open>\<open>ethernet_parser\<close>\<close>

record eth_regs = parser_regs +
  pkt_len :: u16

definition count_keep :: "keep \<Rightarrow> nat" where
  "count_keep k = length (filter (\<lambda>i. bit k i) [0..<64])"

definition eth_parse :: "bus \<Rightarrow> packet_metadata \<Rightarrow> packet_metadata" where
  "eth_parse d m =
     m\<lparr>dst_mac := mac_be d 0, src_mac := mac_be d 6, ethertype := word16_be d 12,
       vlan_valid := (word16_be d 12 = ETYPE_VLAN)\<rparr>"

text \<open>The length counter is restarted by a first beat only if that is not the last beat, too.\<close>

definition eth_step ::
  "bool \<Rightarrow> axis_beat \<Rightarrow> bool \<Rightarrow> bool \<Rightarrow> packet_metadata \<Rightarrow> eth_regs \<Rightarrow> eth_regs" where
  "eth_step rst_n s_b s_tvalid m_tready s_meta s =
     (let s_tready = reg_ready m_tready (pipe s);
          n = word_of_nat (count_keep (tkeep s_b));
          s' = meta_stage_step (\<lambda>b. eth_parse (tdata b)) rst_n s_b s_tvalid m_tready s_meta s;
          s' = s'\<lparr>pkt_len := (if \<not> rst_n then 0
                             else if s_tvalid \<and> s_tready then
                               (if tlast s_b then pkt_len s + n
                                else if first_beat s then n
                                else pkt_len s + n)
                             else pkt_len s)\<rparr>
      in if rst_n \<and> s_tready \<and> s_tvalid \<and> tlast s_b
         then s'\<lparr>pipe_meta := (pipe_meta s')\<lparr>pkt_length := pkt_len s + n\<rparr>\<rparr>
         else s')"

section \<open>\<open>vlan_parser\<close>\<close>

definition vlan_parse :: "bus \<Rightarrow> packet_metadata \<Rightarrow> packet_metadata" where
  "vlan_parse d m =
     (let tci = word16_be d 14
      in if vlan_valid m
         then m\<lparr>vlan_id := ucast tci, vlan_prio := ucast (drop_bit 13 tci), vlan_cfi := bit tci 12,
                ethertype := word16_be d 16\<rparr>
         else m)"

definition vlan_step ::
  "bool \<Rightarrow> axis_beat \<Rightarrow> bool \<Rightarrow> bool \<Rightarrow> packet_metadata \<Rightarrow> parser_regs \<Rightarrow> parser_regs" where
  "vlan_step rst_n s_b s_tvalid m_tready s_meta s =
     meta_stage_step (\<lambda>b. vlan_parse (tdata b)) rst_n s_b s_tvalid m_tready s_meta s"

section \<open>\<open>ipv4_parser\<close>\<close>

definition ip_off :: "packet_metadata \<Rightarrow> nat" where
  "ip_off m = (if vlan_valid m then 18 else 14)"

text \<open>The header sum of ten words, folded twice.\<close>

definition rtl_ip_checksum :: "bus \<Rightarrow> nat \<Rightarrow> u16" where
  "rtl_ip_checksum d off =
     (let sum = fold (\<lambda>i s. s + ucast (word16_be d (off + i * 2))) [0..<10] (0 :: u32);
          sum = (sum AND 0xFFFF) + drop_bit 16 sum;
          sum = (sum AND 0xFFFF) + drop_bit 16 sum
      in NOT (ucast sum))"

definition ipv4_parse :: "bus \<Rightarrow> packet_metadata \<Rightarrow> packet_metadata" where
  "ipv4_parse d m =
     (let off = ip_off m
      in if ethertype m = ETYPE_IPV4
         then m\<lparr>ipv4_valid := True, src_ip := word32_be d (off + 12), dst_ip := word32_be d (off + 16),
                protocol := byte_at d (off + 9), ttl := byte_at d (off + 8),
                ip_hdr_len := ucast (byte_at d off), ip_checksum_ok := (rtl_ip_checksum d off = 0)\<rparr>
         else m)"

definition ipv4_step ::
  "bool \<Rightarrow> axis_beat \<Rightarrow> bool \<Rightarrow> bool \<Rightarrow> packet_metadata \<Rightarrow> parser_regs \<Rightarrow> parser_regs" where
  "ipv4_step rst_n s_b s_tvalid m_tready s_meta s =
     meta_stage_step (\<lambda>b. ipv4_parse (tdata b)) rst_n s_b s_tvalid m_tready s_meta s"

section \<open>\<open>udp_parser\<close> and \<open>tcp_parser\<close>\<close>

text \<open>The offset has six bits and wraps.\<close>

definition l4_off :: "packet_metadata \<Rightarrow> nat" where
  "l4_off m = (14 + (if vlan_valid m then 4 else 0) + 4 * unat (ip_hdr_len m)) mod 64"

definition udp_parse :: "bus \<Rightarrow> packet_metadata \<Rightarrow> packet_metadata" where
  "udp_parse d m =
     (if protocol m = PROTO_UDP \<and> ipv4_valid m
      then m\<lparr>udp_valid := True, src_port := word16_be d (l4_off m), dst_port := word16_be d (l4_off m + 2)\<rparr>
      else m)"

definition udp_step ::
  "bool \<Rightarrow> axis_beat \<Rightarrow> bool \<Rightarrow> bool \<Rightarrow> packet_metadata \<Rightarrow> parser_regs \<Rightarrow> parser_regs" where
  "udp_step rst_n s_b s_tvalid m_tready s_meta s =
     meta_stage_step (\<lambda>b. udp_parse (tdata b)) rst_n s_b s_tvalid m_tready s_meta s"

definition tcp_parse :: "bus \<Rightarrow> packet_metadata \<Rightarrow> packet_metadata" where
  "tcp_parse d m =
     (let off = l4_off m
      in if protocol m = PROTO_TCP \<and> ipv4_valid m
         then m\<lparr>tcp_valid := True, src_port := word16_be d off, dst_port := word16_be d (off + 2),
                tcp_seq := word32_be d (off + 4), tcp_ack := word32_be d (off + 8),
                tcp_flags := ucast (byte_at d (off + 13)), tcp_window := word16_be d (off + 14)\<rparr>
         else m)"

definition tcp_step ::
  "bool \<Rightarrow> axis_beat \<Rightarrow> bool \<Rightarrow> bool \<Rightarrow> packet_metadata \<Rightarrow> parser_regs \<Rightarrow> parser_regs" where
  "tcp_step rst_n s_b s_tvalid m_tready s_meta s =
     meta_stage_step (\<lambda>b. tcp_parse (tdata b)) rst_n s_b s_tvalid m_tready s_meta s"

section \<open>The stream contract of a parser\<close>

text \<open>Inputs and outputs are beats with metadata. An accepted first beat enters with the metadata
  the stage computes, a later one with the metadata of its packet.\<close>

definition meta_cycle ::
  "(axis_beat \<Rightarrow> packet_metadata \<Rightarrow> packet_metadata) \<Rightarrow> axis_beat \<times> packet_metadata \<Rightarrow>
     (axis_beat \<times> packet_metadata) option \<Rightarrow> bool \<Rightarrow> parser_regs \<Rightarrow> parser_regs" where
  "meta_cycle upd x i r s =
     (case i of Some (b, m) \<Rightarrow> meta_stage_step upd True b True r m s
      | None \<Rightarrow> meta_stage_step upd True (fst x) False r (snd x) s)"

definition meta_ready :: "bool \<Rightarrow> parser_regs \<Rightarrow> bool" where
  "meta_ready r s = reg_ready r (pipe s)"

definition meta_out :: "parser_regs \<Rightarrow> (axis_beat \<times> packet_metadata) option" where
  "meta_out s = (if pipe_valid (pipe s) then Some (pipe_beat (pipe s), pipe_meta s) else None)"

definition meta_contents :: "parser_regs \<Rightarrow> (axis_beat \<times> packet_metadata) list" where
  "meta_contents s = (if pipe_valid (pipe s) then [(pipe_beat (pipe s), pipe_meta s)] else [])"

definition meta_enter ::
  "(axis_beat \<Rightarrow> packet_metadata \<Rightarrow> packet_metadata) \<Rightarrow> parser_regs \<Rightarrow> axis_beat \<times> packet_metadata \<Rightarrow>
     axis_beat \<times> packet_metadata" where
  "meta_enter upd s i = (fst i, if first_beat s then upd (fst i) (snd i) else pipe_meta s)"

interpretation pstage: axis_prompt_stage "\<lambda>_. True" meta_ready meta_out "meta_cycle upd x" meta_contents
  "meta_enter upd" "\<lambda>b. b" for upd x
  by unfold_locales
    (auto simp: meta_cycle_def meta_stage_step_def axis_register_step_def meta_contents_def meta_ready_def
      reg_ready_def meta_out_def meta_enter_def Let_def split: option.splits if_splits prod.splits)

text \<open>The stage as a function on streams: what the beats of a packet carry is fixed by its first one.\<close>

fun meta_stream ::
  "(axis_beat \<Rightarrow> packet_metadata \<Rightarrow> packet_metadata) \<Rightarrow> bool \<Rightarrow> packet_metadata \<Rightarrow>
     (axis_beat \<times> packet_metadata) list \<Rightarrow> (axis_beat \<times> packet_metadata) list" where
  "meta_stream upd fb cur [] = []"
| "meta_stream upd fb cur ((b, m) # xs) =
     (let cur = (if fb then upd b m else cur) in (b, cur) # meta_stream upd (tlast b) cur xs)"

lemma entered_stream:
  "stage_entered (meta_enter upd) meta_ready (meta_cycle upd x) cs s =
     meta_stream upd (first_beat s) (pipe_meta s) (stage_accepted meta_ready (meta_cycle upd x) cs s)"
proof (induction cs arbitrary: s)
  case (Cons c cs)
  obtain i r where c: "c = (i, r)" by (cases c)
  show ?case
    using Cons.IH [of "meta_cycle upd x i r s"]
    by (cases i)
      (auto simp: c meta_enter_def meta_ready_def meta_cycle_def meta_stage_step_def track_first_def Let_def
        split: prod.split)
qed simp

text \<open>A packet is a non-empty list of beats of which exactly the last is marked.\<close>

definition is_packet :: "(axis_beat \<times> packet_metadata) list \<Rightarrow> bool" where
  "is_packet p \<longleftrightarrow> p \<noteq> [] \<and> tlast (fst (last p)) \<and> list_all (\<lambda>x. \<not> tlast (fst x)) (butlast p)"

definition label_packet ::
  "(axis_beat \<Rightarrow> packet_metadata \<Rightarrow> packet_metadata) \<Rightarrow> (axis_beat \<times> packet_metadata) list \<Rightarrow>
     (axis_beat \<times> packet_metadata) list" where
  "label_packet upd p = map (\<lambda>x. (fst x, upd (fst (hd p)) (snd (hd p)))) p"

lemma meta_stream_rest:
  assumes "p \<noteq> []" "tlast (fst (last p))" "list_all (\<lambda>x. \<not> tlast (fst x)) (butlast p)"
  shows "meta_stream upd False cur (p @ q) = map (\<lambda>x. (fst x, cur)) p @ meta_stream upd True cur q"
  using assms
proof (induction p)
  case (Cons x p)
  then show ?case by (cases "p = []"; cases x) (auto simp: Let_def)
qed simp

lemma meta_stream_packet:
  assumes "is_packet p"
  shows "\<exists>cur'. meta_stream upd True cur (p @ q) = label_packet upd p @ meta_stream upd True cur' q"
proof -
  obtain b m p' where p: "p = (b, m) # p'" using assms by (cases p) (auto simp: is_packet_def)
  show ?thesis
  proof (cases "p' = []")
    case True
    then show ?thesis using assms by (auto simp: is_packet_def label_packet_def p Let_def)
  next
    case False
    then have "\<not> tlast b" "tlast (fst (last p'))" "list_all (\<lambda>x. \<not> tlast (fst x)) (butlast p')"
      using assms by (simp_all add: is_packet_def p)
    then show ?thesis
      using meta_stream_rest [OF False, of upd "upd b m" q] by (auto simp: label_packet_def p Let_def)
  qed
qed

lemma meta_stream_packets:
  assumes "list_all is_packet ps"
  shows "meta_stream upd True cur (concat ps) = concat (map (label_packet upd) ps)"
  using assms
proof (induction ps arbitrary: cur)
  case (Cons p ps)
  then have "is_packet p" by simp
  then obtain cur' where "meta_stream upd True cur (p @ concat ps) =
      label_packet upd p @ meta_stream upd True cur' (concat ps)"
    using meta_stream_packet [of p upd cur "concat ps"] by blast
  then show ?case using Cons by simp
qed simp

section \<open>Properties\<close>

definition meta_reset ::
  "(axis_beat \<Rightarrow> packet_metadata \<Rightarrow> packet_metadata) \<Rightarrow> axis_beat \<times> packet_metadata \<Rightarrow> parser_regs \<Rightarrow> parser_regs" where
  "meta_reset upd x s = meta_stage_step upd False (fst x) False False (snd x) s"

text \<open>C19: Metadata belongs to its packet: after reset, for every input and back-pressure, when the
  beats a parser accepted form complete packets, the beats it delivered, followed by the one it
  still holds, are those beats in order, each with the metadata the stage computes from the first
  beat of its packet. This is the contract of the VLAN, IPv4, UDP and TCP parsers, each with its
  own function \<open>upd\<close>.\<close>

theorem parser_labels_packets:
  fixes s :: parser_regs and upd :: "axis_beat \<Rightarrow> packet_metadata \<Rightarrow> packet_metadata"
    and x :: "axis_beat \<times> packet_metadata"
  defines "s0 \<equiv> meta_reset upd x s"
  assumes "stage_accepted meta_ready (meta_cycle upd x) cs s0 = concat ps" "list_all is_packet ps"
  shows "stage_delivered meta_out (meta_cycle upd x) cs s0 @ meta_contents (stage_run (meta_cycle upd x) cs s0) =
    concat (map (label_packet upd) ps)"
proof -
  have "first_beat s0" "meta_contents s0 = []"
    by (simp_all add: s0_def meta_reset_def meta_stage_step_def track_first_def meta_contents_def
        axis_register_step_def Let_def)
  then show ?thesis
    using pstage.stream_preserved [of s0 upd x cs] entered_stream [of upd x cs s0] assms(2)
      meta_stream_packets [OF assms(3)]
    by simp
qed

theorem parser_labels_packets_witness:
  fixes b1 b2 :: axis_beat and s :: parser_regs and upd :: "axis_beat \<Rightarrow> packet_metadata \<Rightarrow> packet_metadata"
  defines "b1 \<equiv> \<lparr>tdata = 0x81 * 2 ^ 96, tkeep = mask 64, tlast = False\<rparr>"
    and "b2 \<equiv> \<lparr>tdata = 7, tkeep = 1, tlast = True\<rparr>"
    and "s \<equiv> \<lparr>first_beat = False, pipe = \<lparr>pipe_beat = \<lparr>tdata = 0, tkeep = 0, tlast = True\<rparr>, pipe_valid = True\<rparr>,
      pipe_meta = meta0\<rparr>"
    and "upd \<equiv> \<lambda>b. udp_parse (tdata b)"
  shows "stage_delivered meta_out (meta_cycle upd (b1, meta0)) [(Some (b1, meta0), True), (Some (b2, meta0), True)]
      (meta_reset upd (b1, meta0) s) @
    meta_contents (stage_run (meta_cycle upd (b1, meta0)) [(Some (b1, meta0), True), (Some (b2, meta0), True)]
      (meta_reset upd (b1, meta0) s)) =
    [(b1, upd b1 meta0), (b2, upd b1 meta0)]"
proof -
  let ?cs = "[(Some (b1, meta0), True), (Some (b2, meta0), True)]"
  have "stage_accepted meta_ready (meta_cycle upd (b1, meta0)) ?cs (meta_reset upd (b1, meta0) s) =
      concat [[(b1, meta0), (b2, meta0)]]"
    by (simp add: meta_ready_def reg_ready_def)
  moreover have "list_all is_packet [[(b1, meta0), (b2, meta0)]]"
    by (simp add: is_packet_def b1_def b2_def)
  moreover have "concat (map (label_packet upd) [[(b1, meta0), (b2, meta0)]]) = [(b1, upd b1 meta0), (b2, upd b1 meta0)]"
    by (simp add: label_packet_def)
  ultimately show ?thesis
    using parser_labels_packets [of upd "(b1, meta0)" ?cs s "[[(b1, meta0), (b2, meta0)]]"] by (simp only:)
qed

text \<open>Single-beat packets: the length counter of the Ethernet parser is never restarted by them.\<close>

definition eth_cycle :: "axis_beat \<Rightarrow> eth_regs \<Rightarrow> eth_regs" where
  "eth_cycle b s = eth_step True b True True meta0 s"

lemma eth_single:
  assumes "tlast b" "first_beat s"
  shows "first_beat (eth_cycle b s)"
    and "pkt_len (eth_cycle b s) = pkt_len s + word_of_nat (count_keep (tkeep b))"
    and "pkt_length (pipe_meta (eth_cycle b s)) = pkt_len s + word_of_nat (count_keep (tkeep b))"
  using assms by (simp_all add: eth_cycle_def eth_step_def meta_stage_step_def track_first_def reg_ready_def Let_def)

text \<open>Lengths of single-beat packets accumulate: after reset, when packets of one beat each
  arrive, the length the Ethernet parser writes into the metadata of the last one is the sum of
  the lengths of all of them, modulo the 16 bits of the field.\<close>

theorem single_beat_lengths_accumulate:
  fixes s :: eth_regs and b :: axis_beat
  defines "s0 \<equiv> eth_step False b False False meta0 s"
  assumes "bs \<noteq> []" "list_all tlast bs"
  shows "pkt_length (pipe_meta (fold eth_cycle bs s0)) = word_of_nat (sum_list (map (count_keep \<circ> tkeep) bs))"
proof -
  have "first_beat (fold eth_cycle cs s0) \<and>
      pkt_len (fold eth_cycle cs s0) = word_of_nat (sum_list (map (count_keep \<circ> tkeep) cs))"
    if "list_all tlast cs" for cs
    using that
  proof (induction cs rule: rev_induct)
    case Nil
    then show ?case
      by (simp add: s0_def eth_step_def meta_stage_step_def track_first_def Let_def)
  next
    case (snoc c cs)
    then show ?case using eth_single [of c "fold eth_cycle cs s0"] by simp
  qed
  note run = this
  obtain cs c where bs: "bs = cs @ [c]" using assms(2) by (meson rev_exhaust)
  then show ?thesis
    using run [of cs] eth_single(3) [of c "fold eth_cycle cs s0"] assms(3) by simp
qed

theorem single_beat_lengths_accumulate_witness:
  fixes s :: eth_regs and b :: axis_beat
  defines "s \<equiv> \<lparr>first_beat = False, pipe = \<lparr>pipe_beat = \<lparr>tdata = 0, tkeep = 0, tlast = True\<rparr>, pipe_valid = True\<rparr>,
      pipe_meta = meta0, pkt_len = 9\<rparr>"
    and "b \<equiv> \<lparr>tdata = 0, tkeep = mask 60, tlast = True\<rparr>"
  shows "pkt_length (pipe_meta (fold eth_cycle [b, b, b] (eth_step False b False False meta0 s))) = 180"
proof -
  have "count_keep (tkeep b) = length (filter (\<lambda>i. i < 60) [0..<60 + 4])"
    by (auto simp: count_keep_def b_def bit_mask_iff intro!: arg_cong [where f = length] filter_cong)
  also have "\<dots> = 60" unfolding upt_add_eq_append [OF le0] by simp
  finally have "map (count_keep \<circ> tkeep) [b, b, b] = [60, 60, 60]" by simp
  moreover have "list_all tlast [b, b, b]" by (simp add: b_def)
  ultimately show ?thesis
    using single_beat_lengths_accumulate [of "[b, b, b]" b s] by simp
qed

end
