(* ===== verification/Match_Table.thy ===== *)
theory Match_Table
  imports Parsers
begin

text \<open>
  Classification: the match-action table \<open>rtl/classifiers/match_table.sv\<close>, which the pipeline uses,
  and the pair of stages it replaced, \<open>rtl/classifiers/packet_classifier.sv\<close> and
  \<open>rtl/filters/rule_engine.sv\<close>, with their built-in default tables.
\<close>

section \<open>\<open>match_table\<close>\<close>

definition match_rules :: "match_entry list" where
  "match_rules =
     [match_entry0\<lparr>me_valid := True, me_protocol := PROTO_UDP, me_dst_port := 53,
        me_action := ACTION_ALLOW, me_class_id := 1, me_mod_action := MOD_NOP\<rparr>,
      match_entry0\<lparr>me_valid := True, me_protocol := PROTO_TCP, me_dst_port := 80,
        me_action := ACTION_ALLOW, me_class_id := 2, me_mod_action := MOD_NOP\<rparr>,
      match_entry0\<lparr>me_valid := True, me_protocol := PROTO_TCP, me_dst_port := 443,
        me_action := ACTION_ALLOW, me_class_id := 3, me_mod_action := MOD_NOP\<rparr>,
      match_entry0\<lparr>me_valid := True, me_protocol := PROTO_TCP, me_dst_port := 22,
        me_action := ACTION_ALLOW, me_class_id := 4, me_mod_action := MOD_NOP\<rparr>,
      match_entry0\<lparr>me_valid := True, me_action := ACTION_ALLOW,
        me_class_id := 0, me_mod_action := MOD_TTL_DEC\<rparr>] @ replicate 27 match_entry0"

text \<open>A zero field is a wildcard; ports are compared only if a transport header was found.\<close>

definition local_match :: "packet_metadata \<Rightarrow> match_entry \<Rightarrow> bool" where
  "local_match m r \<longleftrightarrow>
     (me_protocol r \<noteq> 0 \<longrightarrow> me_protocol r = protocol m) \<and>
     (me_src_ip r \<noteq> 0 \<longrightarrow> me_src_ip r = src_ip m) \<and>
     (me_dst_ip r \<noteq> 0 \<longrightarrow> me_dst_ip r = dst_ip m) \<and>
     (me_src_port r \<noteq> 0 \<and> (udp_valid m \<or> tcp_valid m) \<longrightarrow> me_src_port r = src_port m) \<and>
     (me_dst_port r \<noteq> 0 \<and> (udp_valid m \<or> tcp_valid m) \<longrightarrow> me_dst_port r = dst_port m)"

record match_result =
  match_found :: bool
  match_action :: rule_action
  match_class :: u8
  match_mod_action :: modifier_action
  match_mod_data :: modifier_data

definition match_default :: match_result where
  "match_default = \<lparr>match_found = False, match_action = ACTION_DROP, match_class = 0,
     match_mod_action = MOD_NOP, match_mod_data = mod_data0\<rparr>"

text \<open>The loop over the rules: the first valid rule that matches decides.\<close>

fun match_loop :: "packet_metadata \<Rightarrow> match_entry list \<Rightarrow> match_result \<Rightarrow> match_result" where
  "match_loop m [] res = res"
| "match_loop m (r # rs) res =
     match_loop m rs
       (if me_valid r \<and> \<not> match_found res \<and> local_match m r
        then \<lparr>match_found = True, match_action = me_action r, match_class = me_class_id r,
              match_mod_action = me_mod_action r, match_mod_data = me_mod_data r\<rparr>
        else res)"

definition match_lookup :: "packet_metadata \<Rightarrow> match_result" where
  "match_lookup m = match_loop m match_rules match_default"

record match_regs = parser_regs +
  pipe_mod_action :: modifier_action
  pipe_mod_data :: modifier_data

definition match_parse :: "packet_metadata \<Rightarrow> packet_metadata" where
  "match_parse m = (let res = match_lookup m
     in m\<lparr>class_id := match_class res, meta_drop := (match_action res = ACTION_DROP)\<rparr>)"

definition match_step ::
  "bool \<Rightarrow> axis_beat \<Rightarrow> bool \<Rightarrow> bool \<Rightarrow> packet_metadata \<Rightarrow> match_regs \<Rightarrow> match_regs" where
  "match_step rst_n s_b s_tvalid m_tready s_meta s =
     (let res = match_lookup s_meta;
          s' = meta_stage_step (\<lambda>b. match_parse) rst_n s_b s_tvalid m_tready s_meta s
      in if rst_n \<and> reg_ready m_tready (pipe s) \<and> first_beat s \<and> s_tvalid
         then s'\<lparr>pipe_mod_action := match_mod_action res, pipe_mod_data := match_mod_data res\<rparr>
         else s')"

section \<open>\<open>packet_classifier\<close>\<close>

definition classifier_rules :: "classifier_rule list" where
  "classifier_rules =
     [classifier_rule0\<lparr>cr_valid := True, cr_protocol := PROTO_UDP, cr_dst_port := 53, cr_class_id := 1\<rparr>,
      classifier_rule0\<lparr>cr_valid := True, cr_protocol := PROTO_TCP, cr_dst_port := 80, cr_class_id := 2\<rparr>,
      classifier_rule0\<lparr>cr_valid := True, cr_protocol := PROTO_TCP, cr_dst_port := 443, cr_class_id := 3\<rparr>,
      classifier_rule0\<lparr>cr_valid := True, cr_protocol := PROTO_TCP, cr_dst_port := 22, cr_class_id := 4\<rparr>] @
     replicate 28 classifier_rule0"

definition classifier_match :: "packet_metadata \<Rightarrow> classifier_rule \<Rightarrow> bool" where
  "classifier_match m r \<longleftrightarrow>
     (cr_protocol r \<noteq> 0 \<longrightarrow> cr_protocol r = protocol m) \<and>
     (cr_src_ip r \<noteq> 0 \<longrightarrow> cr_src_ip r = src_ip m) \<and>
     (cr_dst_ip r \<noteq> 0 \<longrightarrow> cr_dst_ip r = dst_ip m) \<and>
     (cr_src_port r \<noteq> 0 \<and> (udp_valid m \<or> tcp_valid m) \<longrightarrow> cr_src_port r = src_port m) \<and>
     (cr_dst_port r \<noteq> 0 \<and> (udp_valid m \<or> tcp_valid m) \<longrightarrow> cr_dst_port r = dst_port m)"

text \<open>\<open>(match_found, match_class, match_drop)\<close>.\<close>

fun classifier_loop ::
  "packet_metadata \<Rightarrow> classifier_rule list \<Rightarrow> bool \<times> u8 \<times> bool \<Rightarrow> bool \<times> u8 \<times> bool" where
  "classifier_loop m [] res = res"
| "classifier_loop m (r # rs) res =
     classifier_loop m rs
       (if cr_valid r \<and> \<not> fst res \<and> classifier_match m r then (True, cr_class_id r, cr_drop r) else res)"

definition classify :: "packet_metadata \<Rightarrow> packet_metadata" where
  "classify m =
     (let (found, cls, dr) = classifier_loop m classifier_rules (False, 0, False)
      in m\<lparr>class_id := (if found then cls else 0), meta_drop := dr\<rparr>)"

definition classifier_step ::
  "bool \<Rightarrow> axis_beat \<Rightarrow> bool \<Rightarrow> bool \<Rightarrow> packet_metadata \<Rightarrow> parser_regs \<Rightarrow> parser_regs" where
  "classifier_step rst_n s_b s_tvalid m_tready s_meta s =
     meta_stage_step (\<lambda>b. classify) rst_n s_b s_tvalid m_tready s_meta s"

section \<open>\<open>rule_engine\<close>\<close>

definition action_table :: "action_entry list" where
  "action_table =
     (let allow = \<lparr>ae_action = ACTION_ALLOW, ae_queue_id = 0\<rparr>;
          t = replicate 8 allow
      in t[0 := allow\<lparr>ae_action := ACTION_DROP\<rparr>, 1 := allow, 2 := allow, 3 := allow, 4 := allow])"

text \<open>The table has eight entries and the class eight bits: the action of a class past the end is
  left open, here \<open>oob\<close>.\<close>

definition rule_action_of :: "rule_action \<Rightarrow> u8 \<Rightarrow> rule_action" where
  "rule_action_of oob c = (if unat c < length action_table then ae_action (action_table ! unat c) else oob)"

definition apply_rule :: "rule_action \<Rightarrow> packet_metadata \<Rightarrow> packet_metadata" where
  "apply_rule oob m = m\<lparr>meta_drop := (rule_action_of oob (class_id m) = ACTION_DROP)\<rparr>"

definition rule_engine_step ::
  "rule_action \<Rightarrow> bool \<Rightarrow> axis_beat \<Rightarrow> bool \<Rightarrow> bool \<Rightarrow> packet_metadata \<Rightarrow> parser_regs \<Rightarrow> parser_regs" where
  "rule_engine_step oob rst_n s_b s_tvalid m_tready s_meta s =
     meta_stage_step (\<lambda>b. apply_rule oob) rst_n s_b s_tvalid m_tready s_meta s"

section \<open>What the tables decide\<close>

lemma match_loop_found: "match_found res \<Longrightarrow> match_loop m rs res = res"
  by (induction rs) simp_all

lemma match_loop_invalid: "list_all (\<lambda>r. \<not> me_valid r) rs \<Longrightarrow> match_loop m rs res = res"
  by (induction rs) simp_all

lemma classifier_loop_found: "fst res \<Longrightarrow> classifier_loop m rs res = res"
  by (induction rs) simp_all

lemma classifier_loop_invalid: "list_all (\<lambda>r. \<not> cr_valid r) rs \<Longrightarrow> classifier_loop m rs res = res"
  by (induction rs) simp_all

text \<open>The reference: which class the metadata of a packet belongs to. Without a transport header
  the port is not looked at.\<close>

definition port_is :: "packet_metadata \<Rightarrow> u16 \<Rightarrow> bool" where
  "port_is m p \<longleftrightarrow> (udp_valid m \<or> tcp_valid m \<longrightarrow> dst_port m = p)"

definition service :: "packet_metadata \<Rightarrow> nat" where
  "service m =
     (if protocol m = PROTO_UDP \<and> port_is m 53 then 1
      else if protocol m = PROTO_TCP \<and> port_is m 80 then 2
      else if protocol m = PROTO_TCP \<and> port_is m 443 then 3
      else if protocol m = PROTO_TCP \<and> port_is m 22 then 4
      else 0)"

definition entry_result :: "match_entry \<Rightarrow> match_result" where
  "entry_result r = \<lparr>match_found = True, match_action = me_action r, match_class = me_class_id r,
     match_mod_action = me_mod_action r, match_mod_data = me_mod_data r\<rparr>"

text \<open>The loop is a search for the first match.\<close>

lemma match_loop_find:
  assumes "\<not> match_found res"
  shows "match_loop m rs res =
    (case find (\<lambda>r. me_valid r \<and> local_match m r) rs of None \<Rightarrow> res | Some r \<Rightarrow> entry_result r)"
  using assms by (induction rs) (auto simp: match_loop_found entry_result_def)

lemma classifier_loop_find:
  assumes "\<not> fst res"
  shows "classifier_loop m rs res =
    (case find (\<lambda>r. cr_valid r \<and> classifier_match m r) rs of None \<Rightarrow> res
     | Some r \<Rightarrow> (True, cr_class_id r, cr_drop r))"
  using assms by (induction rs) (auto simp: classifier_loop_found)

lemma find_append: "find P (xs @ ys) = (case find P xs of None \<Rightarrow> find P ys | Some x \<Rightarrow> Some x)"
  by (induction xs) simp_all

lemma find_replicate_None: "\<not> P x \<Longrightarrow> find P (replicate n x) = None"
  by (induction n) simp_all

lemma rule_matches:
  "port \<noteq> 0 \<Longrightarrow> proto \<noteq> 0 \<Longrightarrow>
   local_match m (match_entry0\<lparr>me_valid := True, me_protocol := proto, me_dst_port := port,
     me_action := a, me_class_id := c, me_mod_action := MOD_NOP\<rparr>) \<longleftrightarrow> protocol m = proto \<and> port_is m port"
  "local_match m (match_entry0\<lparr>me_valid := True, me_action := a, me_class_id := c, me_mod_action := t\<rparr>)"
  "port \<noteq> 0 \<Longrightarrow> proto \<noteq> 0 \<Longrightarrow>
   classifier_match m (classifier_rule0\<lparr>cr_valid := True, cr_protocol := proto, cr_dst_port := port,
     cr_class_id := c\<rparr>) \<longleftrightarrow> protocol m = proto \<and> port_is m port"
  by (auto simp: local_match_def classifier_match_def match_entry0_def classifier_rule0_def port_is_def)

lemma protos: "PROTO_UDP \<noteq> 0" "PROTO_TCP \<noteq> 0" "PROTO_UDP \<noteq> PROTO_TCP" "PROTO_TCP \<noteq> PROTO_UDP"
  by (simp_all add: npe_consts)

lemma match_lookup_eq:
  "match_lookup m = \<lparr>match_found = True, match_action = ACTION_ALLOW, match_class = word_of_nat (service m),
     match_mod_action = (if service m = 0 then MOD_TTL_DEC else MOD_NOP), match_mod_data = mod_data0\<rparr>"
proof -
  have "\<not> match_found match_default" by (simp add: match_default_def)
  note find = match_loop_find [OF this]
  have mod: "me_mod_data match_entry0 = mod_data0" by (simp add: match_entry0_def)
  show ?thesis
    unfolding match_lookup_def match_rules_def find service_def
    by (simp add: rule_matches protos entry_result_def mod)
qed

lemma classify_eq: "classify m = m\<lparr>class_id := word_of_nat (service m), meta_drop := False\<rparr>"
proof -
  have "\<not> cr_valid classifier_rule0" "\<not> cr_drop classifier_rule0" by (simp_all add: classifier_rule0_def)
  then show ?thesis
    unfolding classify_def classifier_rules_def service_def
    by (simp add: classifier_loop_found classifier_loop_find rule_matches protos find_replicate_None)
qed

section \<open>Properties\<close>

text \<open>C33: What the default match table decides, for any metadata: nothing is ever dropped, UDP port
  53 is class 1, TCP ports 80, 443 and 22 are classes 2, 3 and 4 (a packet whose transport header
  was not parsed passes every port), and everything else, ARP and other non-IP packets included,
  falls to the last rule, class 0, which orders the TTL to be decremented.\<close>

theorem match_table_decides:
  "match_action (match_lookup m) = ACTION_ALLOW \<and> unat (match_class (match_lookup m)) = service m \<and>
   (match_mod_action (match_lookup m) = MOD_TTL_DEC \<longleftrightarrow> service m = 0) \<and>
   (match_mod_action (match_lookup m) = MOD_NOP \<longleftrightarrow> service m \<noteq> 0)"
proof -
  have "service m \<le> 4" by (simp add: service_def)
  then have "unat (word_of_nat (service m) :: u8) = service m" by (simp add: unat_of_nat)
  then show ?thesis by (simp add: match_lookup_eq)
qed

text \<open>The two designs agree on classes and differ on drops: the match table gives a packet the
  same class as the classifier, but where the classifier with the rule engine drops exactly the
  packets of class 0, the match table drops none.\<close>

theorem classifier_agrees_with_match_table:
  "class_id (match_parse m) = class_id (classify m)
   \<and> \<not> meta_drop (match_parse m)
   \<and> (meta_drop (apply_rule oob (classify m)) \<longleftrightarrow> service m = 0)"
proof -
  have table: "ae_action (action_table ! i) = ACTION_DROP \<longleftrightarrow> i = 0" if "i \<le> 4" for i
  proof -
    have "i \<in> {0, 1, 2, 3, 4}" using that by auto
    then show ?thesis by (auto simp: action_table_def Let_def)
  qed
  have small: "service m \<le> 4" by (simp add: service_def)
  then have "unat (word_of_nat (service m) :: u8) = service m" by (simp add: unat_of_nat)
  then show ?thesis
    using table [OF small] small
    by (simp add: match_parse_def match_lookup_eq classify_eq apply_rule_def rule_action_of_def Let_def
        action_table_def)
qed

end
