(* ===== verification/Parse_Headers.thy ===== *)
theory Parse_Headers
  imports Parsers Packet_Gen
begin

text \<open>
  The header parsers together on the first beat of a packet, against the packets that the
  generator of the test benches builds: parsing what was generated gives back what was asked for.
  A beat carries up to 64 bytes of the packet; lanes past its end may hold anything.
\<close>

section \<open>The chain of parsers\<close>

text \<open>The metadata of a packet after stages 1 to 4 of \<open>parser_pipeline\<close>, \<open>m_l4\<close>.\<close>

definition l4_select :: "packet_metadata \<Rightarrow> packet_metadata \<Rightarrow> packet_metadata" where
  "l4_select m_tcp m_udp = (if tcp_valid m_tcp then m_tcp else m_udp)"

definition parse_headers :: "bus \<Rightarrow> packet_metadata" where
  "parse_headers d =
     (let m_eth = eth_parse d meta0; m_vlan = vlan_parse d m_eth; m_ip = ipv4_parse d m_vlan
      in l4_select (tcp_parse d m_ip) (udp_parse d m_ip))"

definition carries :: "bus \<Rightarrow> u8 list \<Rightarrow> bool" where
  "carries d pkt \<longleftrightarrow> (\<forall>i < min 64 (length pkt). byte_at d i = pkt ! i)"

text \<open>The bench's \<open>set32\<close> makes a beat carry the first bytes of a packet.\<close>

lemma carries_set32: "carries (set32 d pkt (min 64 (length pkt))) pkt"
  by (simp add: carries_def lane)

lemma carriesD: "carries d pkt \<Longrightarrow> i < length pkt \<Longrightarrow> i < 64 \<Longrightarrow> byte_at d i = pkt ! i"
  by (simp add: carries_def)

section \<open>Words read back\<close>

lemma join16: "push_bit 8 (ucast (byte_at (w :: u16) 1)) OR ucast (byte_at w 0) = w"
  by (rule word_eq_bitsI) (auto simp: bits)

lemma join32:
  "push_bit 24 (ucast (byte_at (w :: u32) 3)) OR push_bit 16 (ucast (byte_at w 2)) OR
   push_bit 8 (ucast (byte_at w 1)) OR ucast (byte_at w 0) = w"
proof (rule word_eq_bitsI)
  fix n assume "n < LENGTH(32)"
  then show "bit (push_bit 24 (ucast (byte_at w 3)) OR push_bit 16 (ucast (byte_at w 2)) OR
      push_bit 8 (ucast (byte_at w 1)) OR ucast (byte_at w 0) :: u32) n = bit w n"
    by (cases "n < 8"; cases "n < 16"; cases "n < 24") (auto simp: bits less_diff_conv2)
qed

definition mac_value :: "u8 list \<Rightarrow> u48" where
  "mac_value b = push_bit 40 (ucast (b ! 0)) OR push_bit 32 (ucast (b ! 1)) OR push_bit 24 (ucast (b ! 2)) OR
     push_bit 16 (ucast (b ! 3)) OR push_bit 8 (ucast (b ! 4)) OR ucast (b ! 5)"

section \<open>The header checksum\<close>

definition carry_step :: "u32 \<Rightarrow> u32" where
  "carry_step s = (s AND 0xFFFF) + drop_bit 16 s"

lemma carry_step_small:
  assumes "unat s < 65536"
  shows "carry_step s = s"
  using assms unat_fold_step [of s] by (simp add: carry_step_def word_unat_eq_iff)

lemma fold_carry_step: "fold_carry (carry_step s) = fold_carry s"
proof (cases "drop_bit 16 s = 0")
  case True
  then show ?thesis using carry_step_small [of s] fold_carry_cond [of s] by simp
next
  case False
  then show ?thesis using fold_carry.simps [of s] by (simp add: carry_step_def)
qed

lemma fold_carry_twice:
  assumes "unat s \<le> 655350"
  shows "fold_carry s = carry_step (carry_step s)"
proof -
  have "unat (carry_step s) \<le> 65535 + 9"
  proof -
    have "unat s div 65536 \<le> 9" using assms by simp
    moreover have "unat s mod 65536 \<le> 65535" using mod_less_divisor [of 65536 "unat s"] by linarith
    ultimately show ?thesis by (simp add: carry_step_def unat_fold_step)
  qed
  moreover have "n mod 65536 + n div 65536 < 65536" if "n \<le> 65544" for n :: nat
  proof (cases "n < 65536")
    case False
    define k where "k = n - 65536"
    have "n = 65536 + k" "k \<le> 8" using False that by (simp_all add: k_def)
    then show ?thesis by simp
  qed simp
  ultimately have "unat (carry_step s) mod 65536 + unat (carry_step s) div 65536 < 65536" by simp
  then have "unat (carry_step (carry_step s)) < 65536"
    unfolding carry_step_def [of "carry_step s"] unat_fold_step .
  then have "fold_carry (carry_step (carry_step s)) = carry_step (carry_step s)"
    using fold_carry_cond [of "carry_step (carry_step s)"] by (subst fold_carry.simps) auto
  then show ?thesis by (simp add: fold_carry_step)
qed

lemma upt10: "[0..<10] = [0, 1, 2, 3, 4, 5, 6, 7, 8, 9 :: nat]"
  by code_simp

lemma upt20: "[0..<20] = [0, 1, 2, 3, 4, 5, 6, 7, 8, 9, 10, 11, 12, 13, 14, 15, 16, 17, 18, 19 :: nat]"
  by code_simp

lemma rtl_ip_checksum_bytes:
  "rtl_ip_checksum d off = ip_checksum (map (\<lambda>i. byte_at d (off + i)) [0..<20])"
proof -
  define bs where "bs = map (\<lambda>i. byte_at d (off + i)) [0..<20]"
  define s where "s = sum_words bs 0"
  have sum: "fold (\<lambda>i s. s + ucast (word16_be d (off + i * 2))) [0..<10] (0 :: u32) = s"
    unfolding s_def bs_def upt10 upt20 by (simp add: word16_be_def add_ac numeral_eq_Suc)
  have "unat s = wsum bs"
    using wsum_bound [of bs] unat_sum_words [of 0 bs] by (simp add: s_def bs_def)
  then have "unat s \<le> 655350" using wsum_bound [of bs] by (simp add: bs_def)
  then have "fold_carry s = carry_step (carry_step s)" by (rule fold_carry_twice)
  moreover have "NOT (ucast x) = (ucast (NOT x AND 0xFFFF) :: u16)" for x :: u32
  proof -
    have m: "(0xFFFF :: u32) = mask 16" by (simp add: mask_eq_decr_exp)
    show ?thesis unfolding m by (rule word_eq_bitsI) (auto simp: bits)
  qed
  ultimately show ?thesis
    unfolding bs_def [symmetric]
    by (simp add: rtl_ip_checksum_def ip_checksum_def sum Let_def carry_step_def flip: s_def)
qed

section \<open>Headers read back\<close>

text \<open>What the parsers read from a beat whose first lanes are the bytes \<open>L\<close>.\<close>

definition lanes :: "bus \<Rightarrow> u8 list \<Rightarrow> bool" where
  "lanes d L \<longleftrightarrow> (\<forall>i < length L. byte_at d i = L ! i)"

lemma lanesD: "lanes d L \<Longrightarrow> i < length L \<Longrightarrow> byte_at d i = L ! i"
  by (simp add: lanes_def)

lemma carries_lanes: "carries d (L @ rest) \<Longrightarrow> length L \<le> 64 \<Longrightarrow> lanes d L"
  by (auto simp: carries_def lanes_def nth_append)

lemma list6: "length (xs :: 'a list) = 6 \<Longrightarrow> xs = [xs ! 0, xs ! 1, xs ! 2, xs ! 3, xs ! 4, xs ! 5]"
  by (rule nth_equalityI) (auto simp: less_Suc_eq numeral_eq_Suc)

lemma be16_bytes: "be16 w = [byte_at w 1, byte_at w 0]"
  by (simp add: be16_def word_bytes_16)

lemma be32_bytes: "be32 w = [byte_at w 3, byte_at w 2, byte_at w 1, byte_at w 0]"
  by (simp add: be32_def word_bytes_32)

text \<open>The Ethernet and IPv4 headers of an untagged packet.\<close>

definition ip_packet :: "u8 list \<Rightarrow> u8 list \<Rightarrow> u16 \<Rightarrow> u16 \<Rightarrow> u8 \<Rightarrow> u32 \<Rightarrow> u32 \<Rightarrow> u8 list" where
  "ip_packet dm sm tot ident proto sip dip = eth_wire dm sm 0x0800 @ gen_ipv4 tot ident proto sip dip"

definition ip_meta :: "u8 list \<Rightarrow> u8 list \<Rightarrow> u16 \<Rightarrow> u16 \<Rightarrow> u8 \<Rightarrow> u32 \<Rightarrow> u32 \<Rightarrow> packet_metadata" where
  "ip_meta dm sm tot ident proto sip dip =
     meta0\<lparr>dst_mac := mac_value dm, src_mac := mac_value sm, ethertype := 0x0800, ipv4_valid := True,
       src_ip := sip, dst_ip := dip, protocol := proto, ttl := 64, ip_hdr_len := 5,
       ip_checksum_ok := (let c = ipv4_cksum tot ident proto sip dip in byte_at c 0 = byte_at c 1)\<rparr>"

lemma parse_ip_packet:
  assumes "lanes d (ip_packet dm sm tot ident proto sip dip @ L)" "length dm = 6" "length sm = 6"
  shows "ipv4_parse d (vlan_parse d (eth_parse d meta0)) = ip_meta dm sm tot ident proto sip dip"
proof -
  define c where "c = ipv4_cksum tot ident proto sip dip"
  define H where "H = [dm ! 0, dm ! 1, dm ! 2, dm ! 3, dm ! 4, dm ! 5, sm ! 0, sm ! 1, sm ! 2, sm ! 3, sm ! 4, sm ! 5,
    0x08, 0x00, 0x45, 0, byte_at tot 1, byte_at tot 0, byte_at ident 1, byte_at ident 0, 0, 0, 64, proto,
    byte_at c 0, byte_at c 1, byte_at sip 3, byte_at sip 2, byte_at sip 1, byte_at sip 0,
    byte_at dip 3, byte_at dip 2, byte_at dip 1, byte_at dip 0]"
  have etype: "byte_at (0x0800 :: u16) (Suc 0) = 0x08" "byte_at (0x0800 :: u16) 0 = 0"
    by (simp_all add: byte_at_def)
  have "ip_packet dm sm tot ident proto sip dip = H"
    using list6 [OF assms(2)] list6 [OF assms(3)]
    by (simp add: ip_packet_def eth_wire_def gen_ipv4_def ipv4_wire_def be16_bytes be32_bytes word_bytes_16
        etype H_def flip: c_def)
  then have L: "lanes d (H @ L)" using assms(1) by (simp only:)
  have len: "length H = 34" by (simp add: H_def)
  have lane: "byte_at d i = H ! i" if "i < 34" for i
    using lanesD [OF L, of i] that by (simp only: nth_append len length_append if_True)
  have "map (\<lambda>i. byte_at d (14 + i)) [0..<20] = drop 14 H"
    unfolding upt20 by (simp add: lane H_def)
  also have "drop 14 H = gen_ipv4 tot ident proto sip dip"
    by (simp add: H_def gen_ipv4_def ipv4_wire_def be16_bytes be32_bytes word_bytes_16 flip: c_def)
  finally have "rtl_ip_checksum d 14 = 0 \<longleftrightarrow> byte_at c 0 = byte_at c 1"
    unfolding rtl_ip_checksum_bytes using gen_header_checksum unfolding c_def by simp
  moreover have "mac_be d 0 = mac_value dm" "mac_be d 6 = mac_value sm"
    by (simp_all add: mac_be_def mac_value_def lane H_def)
  moreover have "word16_be d 12 = 0x0800"
    by (simp add: word16_be_def lane H_def)
  moreover have "word32_be d 26 = sip" "word32_be d 30 = dip"
    by (simp_all add: word32_be_def lane H_def join32 [simplified])
  ultimately show ?thesis
    by (simp add: eth_parse_def vlan_parse_def ipv4_parse_def npe_consts ip_off_def meta0_def ip_meta_def
        lane H_def Let_def flip: c_def)
qed

lemma parse_udp_packet:
  assumes "length sm = 6" "length dm = 6"
    "carries d (fst (make_udp_packet h0 sm dm sip dip sp dp payload g))"
  shows "parse_headers d =
    (ip_meta dm sm (word_of_nat (28 + length payload)) (ip_id_counter g) 17 sip dip)
      \<lparr>udp_valid := True, src_port := sp, dst_port := dp\<rparr>"
proof -
  define P where "P = ip_packet dm sm (word_of_nat (28 + length payload)) (ip_id_counter g) 17 sip dip"
  define U where "U = [byte_at sp 1, byte_at sp 0, byte_at dp 1, byte_at dp 0]"
  have len: "length P = 34" using assms by (simp add: P_def ip_packet_def eth_wire_def)
  have "fst (make_udp_packet h0 sm dm sip dip sp dp payload g) =
      (P @ U) @ be16 (word_of_nat (8 + length payload)) @ [0, 0] @ payload"
    by (simp add: make_udp_wire assms P_def U_def ip_packet_def udp_wire_def be16_bytes)
  then have L: "lanes d (P @ U)"
    using assms(3) carries_lanes [of d "P @ U"] len by (simp add: U_def)
  have "ipv4_parse d (vlan_parse d (eth_parse d meta0)) =
      ip_meta dm sm (word_of_nat (28 + length payload)) (ip_id_counter g) 17 sip dip"
    by (rule parse_ip_packet [OF L [unfolded P_def] assms(2,1)])
  moreover have "word16_be d 34 = sp" "word16_be d 36 = dp"
    using lanesD [OF L, of 34] lanesD [OF L, of 35] lanesD [OF L, of 36] lanesD [OF L, of 37] len
      join16 [of sp] join16 [of dp]
    by (simp_all add: word16_be_def nth_append U_def)
  ultimately show ?thesis
    by (simp add: parse_headers_def Let_def l4_select_def udp_parse_def tcp_parse_def npe_consts l4_off_def
        ip_meta_def meta0_def)
qed

section \<open>Properties\<close>

text \<open>C29: Parsing a generated UDP packet: whatever the addresses, ports and payload, if the first
  beat carries the packet \<open>make_udp_packet\<close> built, the chain of parsers reports exactly the
  requested addresses, ports and protocol, marks the packet as IPv4 and UDP, and reports a good
  header checksum only if the two bytes of the checksum are equal (the generator swaps them).\<close>

theorem parse_generated_udp:
  assumes "length sm = 6" "length dm = 6"
    "carries d (fst (make_udp_packet h0 sm dm sip dip sp dp payload g))"
  shows "parse_headers d =
    (ip_meta dm sm (word_of_nat (28 + length payload)) (ip_id_counter g) 17 sip dip)
      \<lparr>udp_valid := True, src_port := sp, dst_port := dp\<rparr>"
  by (rule parse_udp_packet [OF assms])

theorem parse_generated_udp_witness:
  "dst_port (parse_headers (set32 0 (fst (make_udp_packet zero_hdr [2, 0, 0, 0, 0, 1] [2, 0, 0, 0, 0, 2]
     0xC0A80001 0xC0A80002 1234 80 [0x48, 0x69] \<lparr>ip_id_counter = 0\<rparr>)) 44)) = 80"
proof -
  let ?pkt = "fst (make_udp_packet zero_hdr [2, 0, 0, 0, 0, 1] [2, 0, 0, 0, 0, 2]
     0xC0A80001 0xC0A80002 1234 80 [0x48, 0x69] \<lparr>ip_id_counter = 0\<rparr>)"
  have "length ?pkt = 44" by (simp add: make_udp_wire eth_wire_def)
  then have "carries (set32 0 ?pkt 44) ?pkt" using carries_set32 [of 0 ?pkt] by simp
  from parse_generated_udp [OF _ _ this] show ?thesis by simp
qed

text \<open>Parsing a generated TCP packet: as for UDP, and the flags come back as the low four bits of
  those requested, with the sequence number 1000, acknowledgement 0 and window 65535 that the
  generator writes.\<close>

theorem parse_generated_tcp:
  assumes "length sm = 6" "length dm = 6"
    "carries d (fst (make_tcp_packet h0 sm dm sip dip sp dp payload flags g))"
  shows "parse_headers d =
    (ip_meta dm sm (word_of_nat (40 + length payload)) (ip_id_counter g) 6 sip dip)
      \<lparr>tcp_valid := True, src_port := sp, dst_port := dp, tcp_seq := 1000, tcp_ack := 0,
       tcp_flags := ucast flags, tcp_window := 65535\<rparr>"
proof -
  define P where "P = ip_packet dm sm (word_of_nat (40 + length payload)) (ip_id_counter g) 6 sip dip"
  define U where "U = [byte_at sp 1, byte_at sp 0, byte_at dp 1, byte_at dp 0, 0, 0, 3, 0xE8, 0, 0, 0, 0, 0x50, flags,
    0xFF, 0xFF]"
  have len: "length P = 34" using assms by (simp add: P_def ip_packet_def eth_wire_def)
  have m: "(65535 :: u16) = mask 16" "(0xFF :: u8) = mask 8" by (simp_all add: mask_eq_decr_exp)
  have ones: "byte_at (65535 :: u16) 1 = 0xFF" "byte_at (65535 :: u16) 0 = 0xFF"
    unfolding m by (rule word_eq_bitsI; simp add: bits)+
  have words: "be32 1000 = [0, 0, 3, 0xE8]" "be16 65535 = [0xFF, 0xFF]"
    by (simp_all only: be16_bytes ones) (simp add: be32_bytes byte_at_def)
  have "fst (make_tcp_packet h0 sm dm sip dip sp dp payload flags g) = (P @ U) @ [0, 0, 0, 0] @ payload"
    by (simp add: make_tcp_wire assms P_def U_def ip_packet_def tcp_wire_def be16_bytes words ones [simplified])
  then have L: "lanes d (P @ U)"
    using assms(3) carries_lanes [of d "P @ U"] len by (simp add: U_def)
  have "ipv4_parse d (vlan_parse d (eth_parse d meta0)) =
      ip_meta dm sm (word_of_nat (40 + length payload)) (ip_id_counter g) 6 sip dip"
    by (rule parse_ip_packet [OF L [unfolded P_def] assms(2,1)])
  moreover have lane: "byte_at d (34 + i) = U ! i" if "i < 16" for i
    using lanesD [OF L, of "34 + i"] that len by (simp add: nth_append U_def)
  moreover have "word16_be d 34 = sp" "word16_be d 36 = dp" "word16_be d 48 = 65535"
    using lane [of 0] lane [of 1] lane [of 2] lane [of 3] lane [of 14] lane [of 15] join16 [of sp] join16 [of dp]
    by (simp_all add: word16_be_def U_def)
  moreover have "word32_be d 38 = 1000" "word32_be d 42 = 0" "byte_at d 47 = flags"
    using lane [of 4] lane [of 5] lane [of 6] lane [of 7] lane [of 8] lane [of 9] lane [of 10] lane [of 11] lane [of 13]
    by (simp_all add: word32_be_def U_def)
  ultimately show ?thesis
    by (simp add: parse_headers_def Let_def l4_select_def udp_parse_def tcp_parse_def npe_consts l4_off_def
        ip_meta_def meta0_def)
qed

theorem parse_generated_tcp_witness:
  "tcp_flags (parse_headers (set32 0 (fst (make_tcp_packet zero_hdr [2, 0, 0, 0, 0, 1] [2, 0, 0, 0, 0, 2]
     0xC0A80001 0xC0A80002 4321 443 [1, 2, 3] 0x12 \<lparr>ip_id_counter = 0\<rparr>)) 57)) = 2"
proof -
  let ?pkt = "fst (make_tcp_packet zero_hdr [2, 0, 0, 0, 0, 1] [2, 0, 0, 0, 0, 2]
     0xC0A80001 0xC0A80002 4321 443 [1, 2, 3] 0x12 \<lparr>ip_id_counter = 0\<rparr>)"
  have "length ?pkt = 57" by (simp add: make_tcp_wire eth_wire_def)
  then have "carries (set32 0 ?pkt 57) ?pkt" using carries_set32 [of 0 ?pkt] by simp
  from parse_generated_tcp [OF _ _ this] show ?thesis by simp
qed

end
