(* ===== verification/Packet_Modifier.thy ===== *)
theory Packet_Modifier
  imports Match_Table Parse_Headers
begin

text \<open>
  The packet modifier \<open>rtl/classifiers/packet_modifier.sv\<close>: rewriting of the first beat of a packet
  as the match table orders, in front of a pipeline register.
\<close>

section \<open>The rewriting\<close>

text \<open>A sequence of byte assignments; a later one to the same lane wins.\<close>

definition put_list :: "bus \<Rightarrow> (nat \<times> u8) list \<Rightarrow> bus" where
  "put_list d ps = fold (\<lambda>(i, b) d. put_byte d i b) ps d"

definition put_keep :: "keep \<Rightarrow> nat \<Rightarrow> bool \<Rightarrow> keep" where
  "put_keep k i v = (if v then Bit_Operations.set_bit i k else Bit_Operations.unset_bit i k)"

definition mod_ttl_dec :: "packet_metadata \<Rightarrow> bus \<Rightarrow> bus" where
  "mod_ttl_dec m d =
     (let ttl_val = byte_at d (ip_off m + 8); csum_val = word16_be d (ip_off m + 10)
      in put_list d [(ip_off m + 8, ttl_val - 1),
           (ip_off m + 10, ucast (drop_bit 8 csum_val) + 1),
           (ip_off m + 10, ucast csum_val)])"

definition mod_mac_swap :: "bus \<Rightarrow> bus" where
  "mod_mac_swap d = put_list d
     [(0, byte_at d 6), (1, byte_at d 7), (2, byte_at d 8), (3, byte_at d 9), (4, byte_at d 10),
      (5, byte_at d 11), (6, byte_at d 0), (7, byte_at d 1), (8, byte_at d 2), (9, byte_at d 3),
      (10, byte_at d 4), (11, byte_at d 5)]"

definition mod_mac_set :: "modifier_data \<Rightarrow> bus \<Rightarrow> bus" where
  "mod_mac_set md d = (let dm = new_dst_mac md; sm = new_src_mac md in put_list d
     [(0, byte_at dm 5), (1, byte_at dm 4), (2, byte_at dm 3), (3, byte_at dm 2), (4, byte_at dm 1),
      (5, byte_at dm 0), (6, byte_at sm 5), (7, byte_at sm 4), (8, byte_at sm 3), (9, byte_at sm 2),
      (10, byte_at sm 1), (11, byte_at sm 0)])"

definition mod_ip_set :: "packet_metadata \<Rightarrow> modifier_data \<Rightarrow> bus \<Rightarrow> bus" where
  "mod_ip_set m md d = (let si = new_src_ip md; di = new_dst_ip md; off = ip_off m in put_list d
     [(off + 12, byte_at si 3), (off + 13, byte_at si 2), (off + 14, byte_at si 1), (off + 15, byte_at si 0),
      (off + 16, byte_at di 3), (off + 17, byte_at di 2), (off + 18, byte_at di 1), (off + 19, byte_at di 0)])"

definition mod_vlan_push :: "modifier_data \<Rightarrow> bus \<Rightarrow> bus" where
  "mod_vlan_push md d = put_list d
     (map (\<lambda>i. (i, if i \<ge> 16 then byte_at d (i - 4) else 0)) (rev [12..<64]) @
      [(12, 0x81), (13, 0x00),
       (14, push_bit 5 (ucast (md_vlan_prio md)) OR ucast (drop_bit 8 (md_vlan_id md))),
       (15, ucast (md_vlan_id md))])"

definition keep_vlan_push :: "keep \<Rightarrow> keep" where
  "keep_vlan_push k =
     fold (\<lambda>i k'. put_keep k' i (if i \<ge> 16 then bit k (i - 4) else True)) (rev [12..<64]) k"

definition mod_vlan_pop :: "bus \<Rightarrow> bus" where
  "mod_vlan_pop d = put_list d (map (\<lambda>i. (i, if i + 4 < 64 then byte_at d (i + 4) else 0)) [12..<64])"

definition keep_vlan_pop :: "keep \<Rightarrow> keep" where
  "keep_vlan_pop k = fold (\<lambda>i k'. put_keep k' i (if i + 4 < 64 then bit k (i + 4) else False)) [12..<64] k"

definition mod_dscp_set :: "packet_metadata \<Rightarrow> modifier_data \<Rightarrow> bus \<Rightarrow> bus" where
  "mod_dscp_set m md d =
     (if ipv4_valid m then
        let off = ip_off m; old_byte = byte_at d (off + 1);
            new_byte = push_bit 2 (ucast (new_dscp md)) OR (old_byte AND 3);
            csum_val = word16_be d (off + 10)
        in put_list d [(off + 1, new_byte),
             (off + 10, ucast (drop_bit 8 csum_val) + (drop_bit 2 old_byte - ucast (new_dscp md))),
             (off + 10, ucast csum_val)]
      else d)"

definition mod_ecn_set :: "packet_metadata \<Rightarrow> modifier_data \<Rightarrow> bus \<Rightarrow> bus" where
  "mod_ecn_set m md d =
     (if ipv4_valid m then
        put_byte d (ip_off m + 1) ((byte_at d (ip_off m + 1) AND 0xFC) OR ucast (new_ecn md))
      else d)"

definition modify :: "modifier_action \<Rightarrow> modifier_data \<Rightarrow> packet_metadata \<Rightarrow> axis_beat \<Rightarrow> axis_beat" where
  "modify act md m b =
     (case act of
        MOD_NOP \<Rightarrow> b
      | MOD_TTL_DEC \<Rightarrow> b\<lparr>tdata := mod_ttl_dec m (tdata b)\<rparr>
      | MOD_MAC_SWAP \<Rightarrow> b\<lparr>tdata := mod_mac_swap (tdata b)\<rparr>
      | MOD_MAC_SET \<Rightarrow> b\<lparr>tdata := mod_mac_set md (tdata b)\<rparr>
      | MOD_IP_SET \<Rightarrow> b\<lparr>tdata := mod_ip_set m md (tdata b)\<rparr>
      | MOD_VLAN_PUSH \<Rightarrow> b\<lparr>tdata := mod_vlan_push md (tdata b), tkeep := keep_vlan_push (tkeep b)\<rparr>
      | MOD_VLAN_POP \<Rightarrow> b\<lparr>tdata := mod_vlan_pop (tdata b), tkeep := keep_vlan_pop (tkeep b)\<rparr>
      | MOD_DSCP_SET \<Rightarrow> b\<lparr>tdata := mod_dscp_set m md (tdata b)\<rparr>
      | MOD_ECN_SET \<Rightarrow> b\<lparr>tdata := mod_ecn_set m md (tdata b)\<rparr>)"

section \<open>The stage\<close>

record mod_regs =
  prev_tlast :: bool
  mod_pipe :: axis_reg

definition modifier_step ::
  "bool \<Rightarrow> axis_beat \<Rightarrow> bool \<Rightarrow> bool \<Rightarrow> packet_metadata \<Rightarrow> modifier_action \<Rightarrow> modifier_data \<Rightarrow>
     mod_regs \<Rightarrow> mod_regs" where
  "modifier_step rst_n s_b s_tvalid m_tready s_meta act md s =
     (let s_tready = reg_ready m_tready (mod_pipe s);
          do_mod = (s_tvalid \<and> s_tready \<and> prev_tlast s);
          b = (if do_mod then modify act md s_meta s_b else s_b)
      in \<lparr>prev_tlast = (if \<not> rst_n then True else if s_tvalid then tlast s_b else prev_tlast s),
          mod_pipe = axis_register_step rst_n b s_tvalid m_tready (mod_pipe s)\<rparr>)"

text \<open>The stream contract; the inputs are beats with the metadata, action and data that go along.\<close>

type_synonym mod_input = "axis_beat \<times> packet_metadata \<times> modifier_action \<times> modifier_data"

definition mod_cycle :: "mod_input \<Rightarrow> mod_input option \<Rightarrow> bool \<Rightarrow> mod_regs \<Rightarrow> mod_regs" where
  "mod_cycle x i r s =
     (case i of Some (b, m, act, md) \<Rightarrow> modifier_step True b True r m act md s
      | None \<Rightarrow> (case x of (b, m, act, md) \<Rightarrow> modifier_step True b False r m act md s))"

definition mod_enter :: "mod_regs \<Rightarrow> mod_input \<Rightarrow> axis_beat" where
  "mod_enter s i = (case i of (b, m, act, md) \<Rightarrow> if prev_tlast s then modify act md m b else b)"

interpretation mstage: axis_prompt_stage "\<lambda>_. True" "\<lambda>r s. reg_ready r (mod_pipe s)"
  "\<lambda>s. reg_out (mod_pipe s)" "mod_cycle x" "\<lambda>s. reg_contents (mod_pipe s)" mod_enter "\<lambda>b. b" for x
  by unfold_locales
    (auto simp: mod_cycle_def modifier_step_def axis_register_step_def reg_contents_def reg_ready_def
      reg_out_def mod_enter_def Let_def split: option.splits if_splits prod.splits)

section \<open>Lanes of the rewritten beat\<close>

lemma byte_at_put_list:
  assumes "j < 64"
  shows "byte_at (put_list d ps) j = fold (\<lambda>(i, b) x. if i = j then b else x) ps (byte_at d j)"
  using assms unfolding put_list_def
  by (induction ps arbitrary: d) (auto simp: byte_at_put_byte)

lemma lo_hi_csum:
  "ucast (word16_be d i) = byte_at d (i + 1)" "ucast (drop_bit 8 (word16_be d i)) = byte_at d i"
  by (rule word_eq_bitsI; auto simp: bits word16_be_def)+

lemma ip_off_cases: "ip_off m = 14 \<or> ip_off m = 18"
  by (simp add: ip_off_def)

text \<open>The order to decrement the TTL changes two lanes of the header and no other.\<close>

lemma ttl_dec_lanes:
  assumes "j < 64"
  shows "byte_at (mod_ttl_dec m d) j =
    (if j = ip_off m + 8 then byte_at d j - 1
     else if j = ip_off m + 10 then byte_at d (ip_off m + 11) else byte_at d j)"
  using assms by (simp add: mod_ttl_dec_def Let_def byte_at_put_list lo_hi_csum ac_simps)

lemma mac_swap_lanes:
  assumes "j < 64"
  shows "byte_at (mod_mac_swap d) j =
    (if j < 6 then byte_at d (j + 6) else if j < 12 then byte_at d (j - 6) else byte_at d j)"
proof (cases "j < 12")
  case True
  then have "j = 0 \<or> j = 1 \<or> j = 2 \<or> j = 3 \<or> j = 4 \<or> j = 5 \<or> j = 6 \<or> j = 7 \<or> j = 8 \<or> j = 9 \<or> j = 10 \<or> j = 11"
    by arith
  then show ?thesis by (auto simp: mod_mac_swap_def byte_at_put_list)
next
  case False
  then show ?thesis using assms by (simp add: mod_mac_swap_def byte_at_put_list)
qed

lemma fold_put_map:
  "fold (\<lambda>(i, b) x. if i = j then b else x) (map (\<lambda>i. (i, f i)) xs) x = (if j \<in> set xs then f j else x)"
  by (induction xs arbitrary: x) auto

lemma bit_put_keeps:
  "bit (fold (\<lambda>i k. put_keep k i (g i)) xs (k :: keep)) j \<longleftrightarrow>
    (if j \<in> set xs \<and> j < 64 then g j else bit k j)"
  by (induction xs arbitrary: k)
    (auto simp: put_keep_def bit_set_bit_iff bit_unset_bit_iff dest: bit_imp_le_length)

lemma vlan_push_lanes:
  assumes "j < 64"
  shows "byte_at (mod_vlan_push md d) j =
    (if j < 12 then byte_at d j else if j = 12 then 0x81 else if j = 13 then 0
     else if j = 14 then push_bit 5 (ucast (md_vlan_prio md)) OR ucast (drop_bit 8 (md_vlan_id md))
     else if j = 15 then ucast (md_vlan_id md) else byte_at d (j - 4))"
  using assms unfolding mod_vlan_push_def byte_at_put_list [OF assms] fold_append comp_def fold_put_map
    set_rev set_upt atLeastLessThan_iff
  by auto

lemma vlan_pop_lanes:
  assumes "j < 64"
  shows "byte_at (mod_vlan_pop d) j =
    (if j < 12 then byte_at d j else if j < 60 then byte_at d (j + 4) else 0)"
  using assms unfolding mod_vlan_pop_def byte_at_put_list [OF assms] fold_put_map set_upt atLeastLessThan_iff
  by auto

lemma keep_push_bits:
  "bit (keep_vlan_push k) j \<longleftrightarrow> j < 64 \<and> (if j < 12 then bit k j else if j < 16 then True else bit k (j - 4))"
  unfolding keep_vlan_push_def bit_put_keeps set_rev set_upt atLeastLessThan_iff
  by (auto dest: bit_imp_le_length)

lemma keep_pop_bits:
  "bit (keep_vlan_pop k) j \<longleftrightarrow> j < 60 \<and> (if j < 12 then bit k j else bit k (j + 4))"
  unfolding keep_vlan_pop_def bit_put_keeps set_upt atLeastLessThan_iff
  by (auto dest: bit_imp_le_length)

section \<open>Properties\<close>

text \<open>C30: Pushing a VLAN tag and popping it again is the identity on a beat that has room for the
  tag, that is, whose last four lanes are empty (and zero).\<close>

theorem vlan_push_pop:
  assumes "\<And>j. 60 \<le> j \<Longrightarrow> \<not> bit (tkeep b) j" "\<And>j. 60 \<le> j \<Longrightarrow> j < 64 \<Longrightarrow> byte_at (tdata b) j = 0"
  shows "modify MOD_VLAN_POP md' m' (modify MOD_VLAN_PUSH md m b) = b"
proof -
  have "mod_vlan_pop (mod_vlan_push md (tdata b)) = tdata b"
    by (rule bus_eqI) (auto simp: vlan_pop_lanes vlan_push_lanes assms(2))
  moreover have "keep_vlan_pop (keep_vlan_push (tkeep b)) = tkeep b"
    by (rule word_eq_bitsI) (use assms(1) in \<open>auto simp: keep_pop_bits keep_push_bits intro: leI\<close>)
  ultimately show ?thesis by (cases b) (simp add: modify_def)
qed

theorem vlan_push_pop_witness:
  fixes b :: axis_beat and md :: modifier_data
  defines "b \<equiv> \<lparr>tdata = 0x1234, tkeep = mask 60, tlast = True\<rparr>"
    and "md \<equiv> mod_data0\<lparr>md_vlan_id := 100, md_vlan_prio := 5\<rparr>"
  shows "modify MOD_VLAN_POP mod_data0 meta0 (modify MOD_VLAN_PUSH md meta0 b) = b"
proof -
  have "byte_at (tdata b) j = 0" if "60 \<le> j" for j
  proof (rule word_eq_bitsI)
    fix n
    have "(0x1234 :: bus) = take_bit 13 0x1234" by (simp add: take_bit_eq_mask mask_eq_decr_exp)
    then have "\<not> bit (0x1234 :: bus) k" if "13 \<le> k" for k
      using that by (metis bit_take_bit_iff leD)
    then show "bit (byte_at (tdata b) j) n = bit 0 n"
      using that by (simp add: bits b_def)
  qed
  then show ?thesis using vlan_push_pop [of b mod_data0 meta0 md meta0] by (simp add: b_def bit_mask_iff)
qed

text \<open>The header checksum after the order to decrement the TTL.\<close>

lemma header_sum_ttl_dec:
  fixes d :: bus
  assumes "byte_at d (ip_off m + 8) \<noteq> 0"
  shows "wsum (map (\<lambda>i. byte_at (mod_ttl_dec m d) (ip_off m + i)) [0..<20]) +
      256 * (unat (byte_at d (ip_off m + 10)) + 1) =
    wsum (map (\<lambda>i. byte_at d (ip_off m + i)) [0..<20]) + 256 * unat (byte_at d (ip_off m + 11))"
proof -
  have small: "ip_off m \<le> 18" using ip_off_cases [of m] by auto
  have lane: "byte_at (mod_ttl_dec m d) (ip_off m + i) =
      (if i = 8 then byte_at d (ip_off m + 8) - 1
       else if i = 10 then byte_at d (ip_off m + 11) else byte_at d (ip_off m + i))" if "i < 20" for i
    using ttl_dec_lanes [of "ip_off m + i" m d] that small by auto
  have "map (\<lambda>i. byte_at (mod_ttl_dec m d) (ip_off m + i)) [0..<20] =
      map (\<lambda>i. if i = 8 then byte_at d (ip_off m + 8) - 1
        else if i = 10 then byte_at d (ip_off m + 11) else byte_at d (ip_off m + i)) [0..<20]"
    by (rule map_cong) (simp_all add: lane)
  moreover have "unat (byte_at d (ip_off m + 8) - 1) = unat (byte_at d (ip_off m + 8)) - 1"
    using assms by (simp add: unat_sub_if_size unat_gt_0 Suc_leI word_le_nat_alt)
  moreover have "0 < unat (byte_at d (ip_off m + 8))" using assms by (simp add: unat_gt_0)
  ultimately show ?thesis unfolding upt20 by simp
qed

text \<open>C31: The TTL order and the header checksum: on a header that is valid and whose TTL is not 0,
  the order to decrement the TTL yields a valid header exactly if the low byte of the checksum was
  the high byte plus one. (Both assignments of the order go to the byte at offset 10, so that it
  overwrites the adjusted high byte by the low byte.)\<close>

theorem ttl_dec_checksum:
  assumes "byte_at d (ip_off m + 8) \<noteq> 0" "rtl_ip_checksum d (ip_off m) = 0"
  shows "rtl_ip_checksum (mod_ttl_dec m d) (ip_off m) = 0 \<longleftrightarrow>
    unat (byte_at d (ip_off m + 11)) = unat (byte_at d (ip_off m + 10)) + 1"
proof -
  define old new where "old = wsum (map (\<lambda>i. byte_at d (ip_off m + i)) [0..<20])"
    and "new = wsum (map (\<lambda>i. byte_at (mod_ttl_dec m d) (ip_off m + i)) [0..<20])"
  define hi lo where "hi = unat (byte_at d (ip_off m + 10))" and "lo = unat (byte_at d (ip_off m + 11))"
  have bound: "hi \<le> 255" "lo \<le> 255" by (simp_all add: hi_def lo_def unat_u8)
  have sum: "new + 256 * (hi + 1) = old + 256 * lo"
    using header_sum_ttl_dec [OF assms(1)] by (simp add: old_def new_def hi_def lo_def)
  have valid: "rtl_ip_checksum e (ip_off m) = 0 \<longleftrightarrow>
      0 < wsum (map (\<lambda>i. byte_at e (ip_off m + i)) [0..<20]) \<and>
      wsum (map (\<lambda>i. byte_at e (ip_off m + i)) [0..<20]) mod 65535 = 0" for e :: bus
    unfolding rtl_ip_checksum_bytes
    using wsum_bound [of "map (\<lambda>i. byte_at e (ip_off m + i)) [0..<20]"] by (intro ip_checksum_zero) simp
  have old: "0 < old" "65535 dvd old" using assms(2) by (auto simp: valid old_def mod_eq_0_iff_dvd)
  have "65535 dvd new \<longleftrightarrow> lo = hi + 1"
  proof
    assume "65535 dvd new"
    with old(2) have "65535 dvd int old - int new" by (simp flip: int_dvd_int_iff)
    moreover have "int old - int new = 256 * (int hi + 1 - int lo)" using sum by simp
    ultimately have "(65535 :: int) dvd 256 * (int hi + 1 - int lo)" by simp
    moreover have "coprime (65535 :: int) 256" unfolding coprime_iff_gcd_eq_1 by code_simp
    ultimately have "65535 dvd int hi + 1 - int lo" using coprime_dvd_mult_right_iff by blast
    then obtain k where "int hi + 1 - int lo = 65535 * k" by (elim dvdE)
    moreover from this have "k = 0" using bound by linarith
    ultimately show "lo = hi + 1" by simp
  next
    assume "lo = hi + 1"
    then show "65535 dvd new" using sum old(2) by simp
  qed
  moreover have "lo = hi + 1 \<Longrightarrow> 0 < new" using sum old(1) by simp
  ultimately show ?thesis unfolding valid by (auto simp: mod_eq_0_iff_dvd simp flip: new_def hi_def lo_def)
qed

theorem ttl_dec_checksum_witness:
  fixes d :: bus
  defines "d \<equiv> put_byte (put_byte (put_byte 0 22 1) 24 0xFE) 25 0xFF"
  shows "rtl_ip_checksum (mod_ttl_dec meta0 d) 14 = 0"
proof -
  have off: "ip_off meta0 = 14" by (simp add: ip_off_def meta0_def)
  have zero: "byte_at (0 :: bus) i = 0" for i by (simp add: byte_at_def)
  have lane: "byte_at d (14 + i) = (if i = 8 then 1 else if i = 10 then 0xFE else if i = 11 then 0xFF else 0)"
    if "i < 20" for i
    using that by (simp add: d_def lane zero)
  have "map (\<lambda>i. byte_at d (14 + i)) [0..<20] =
      map (\<lambda>i. if i = 8 then 1 else if i = 10 then 0xFE else if i = 11 then 0xFF else 0) [0..<20]"
    by (rule map_cong) (simp_all add: lane)
  then have "wsum (map (\<lambda>i. byte_at d (14 + i)) [0..<20]) = 65535" unfolding upt20 by simp
  then have "rtl_ip_checksum d 14 = 0"
    unfolding rtl_ip_checksum_bytes by (subst ip_checksum_zero) simp_all
  then show ?thesis
    using ttl_dec_checksum [of d meta0] lane [of 8] lane [of 10] lane [of 11] by (simp add: off)
qed

text \<open>C32: Back-pressure cancels a modification: when the stage is full and its successor is not
  ready while the first of several beats of a packet is offered, the beat is not taken, and in the
  next cycle it is taken unmodified, whatever the order; without the stall it is modified.\<close>

theorem stalled_first_beat_unmodified:
  assumes "pipe_valid (mod_pipe s)" "prev_tlast s" "\<not> tlast b"
  shows "pipe_beat (mod_pipe (modifier_step True b True True m act md (modifier_step True b True False m act md s))) = b
    \<and> pipe_beat (mod_pipe (modifier_step True b True True m act md s)) = modify act md m b"
  using assms by (simp add: modifier_step_def axis_register_step_def reg_ready_def Let_def)

theorem stalled_first_beat_unmodified_witness:
  fixes b :: axis_beat and s :: mod_regs
  defines "b \<equiv> \<lparr>tdata = 5, tkeep = mask 8, tlast = False\<rparr>"
    and "s \<equiv> \<lparr>prev_tlast = True, mod_pipe = \<lparr>pipe_beat = \<lparr>tdata = 0, tkeep = 1, tlast = True\<rparr>, pipe_valid = True\<rparr>\<rparr>"
  shows "pipe_beat (mod_pipe (modifier_step True b True True meta0 MOD_MAC_SWAP mod_data0
      (modifier_step True b True False meta0 MOD_MAC_SWAP mod_data0 s))) = b"
  using stalled_first_beat_unmodified [of s b meta0 MOD_MAC_SWAP mod_data0] by (simp add: s_def b_def)

end
