(* ===== verification/Axis_Line.thy ===== *)
theory Axis_Line
  imports Axis_Stage
begin

text \<open>
  A line of pipeline registers, which is how the stages of \<open>parser_pipeline\<close> are connected: the
  ready bits run from the end of the line to its start within a cycle, and each register takes
  what its predecessor holds. This is the abstract specification of the pipeline's data path; a
  slot is empty or holds a value, and the list starts at the input.
\<close>

section \<open>The line\<close>

fun line_ready :: "bool \<Rightarrow> 'v option list \<Rightarrow> bool" where
  "line_ready r [] = r"
| "line_ready r (s # ss) \<longleftrightarrow> line_ready r ss \<or> s = None"

fun line_step :: "'v option \<Rightarrow> bool \<Rightarrow> 'v option list \<Rightarrow> 'v option list" where
  "line_step i r [] = []"
| "line_step i r (s # ss) = (if line_ready r (s # ss) then i else s) # line_step s r ss"

definition opt_list :: "'v option \<Rightarrow> 'v list" where
  "opt_list x = (case x of None \<Rightarrow> [] | Some v \<Rightarrow> [v])"

text \<open>What the line holds, in the order in which it will come out.\<close>

fun line_contents :: "'v option list \<Rightarrow> 'v list" where
  "line_contents [] = []"
| "line_contents (s # ss) = line_contents ss @ opt_list s"

lemma opt_list_simps [simp]: "opt_list None = []" "opt_list (Some v) = [v]"
  by (simp_all add: opt_list_def)

lemma length_line_step [simp]: "length (line_step i r ss) = length ss"
  by (induction ss arbitrary: i) simp_all

lemma line_out_contents: "ss \<noteq> [] \<Longrightarrow> last ss = Some v \<Longrightarrow> \<exists>vs. line_contents ss = v # vs"
  by (induction ss) (auto split: if_splits)

lemma line_contents_step:
  assumes "ss \<noteq> []"
  shows "line_contents (line_step i r ss) =
    (if r \<and> last ss \<noteq> None then tl (line_contents ss) else line_contents ss) @
    (if line_ready r ss then opt_list i else [])"
  using assms
proof (induction ss arbitrary: i)
  case (Cons s ss)
  show ?case
  proof (cases "ss = []")
    case True
    then show ?thesis by (cases s) auto
  next
    case False
    have tail: "(if r \<and> last ss \<noteq> None then tl (line_contents ss @ opt_list s) else line_contents ss @ opt_list s) =
        (if r \<and> last ss \<noteq> None then tl (line_contents ss) else line_contents ss) @ opt_list s"
      using line_out_contents [OF False] by (cases "last ss") auto
    show ?thesis
      using Cons.IH [OF False, of s] False tail by (cases s) auto
  qed
qed simp

text \<open>With a ready successor the line is a shift register.\<close>

lemma line_ready_True [simp]: "line_ready True ss"
  by (induction ss) simp_all

lemma line_step_True: "ss \<noteq> [] \<Longrightarrow> line_step i True ss = i # butlast ss"
proof (induction ss arbitrary: i)
  case (Cons s ss)
  then show ?case by (cases ss) simp_all
qed simp

lemma line_run_None:
  "m \<le> length ss \<Longrightarrow> stage_run line_step (replicate m (None, True)) ss =
     replicate m None @ take (length ss - m) ss"
proof (induction m arbitrary: ss)
  case (Suc m)
  then have ne: "ss \<noteq> []" by auto
  obtain k where k: "length ss - m = Suc k" "k \<le> length ss - 1" using Suc.prems by (cases "length ss - m") auto
  then have "take (length ss - m) (None # butlast ss) = None # take k ss"
    by (simp add: butlast_conv_take)
  moreover have "length ss - Suc m = k" using k by simp
  ultimately show ?case
    using Suc.IH [of "None # butlast ss"] Suc.prems ne
    by (simp add: line_step_True replicate_app_Cons_same)
qed simp

lemma line_contents_empty [simp]: "line_contents (replicate n None) = []"
  by (induction n) simp_all

section \<open>The line keeps the stream contract\<close>

text \<open>A line of \<open>n\<close> registers, \<open>n > 0\<close>.\<close>

definition line_of :: "nat \<Rightarrow> 'v option list \<Rightarrow> bool" where
  "line_of n ss \<longleftrightarrow> length ss = n \<and> 0 < n"

interpretation aline: axis_flush_stage "line_of n" line_ready last line_step line_contents "\<lambda>_ v. v" "\<lambda>v. v" n
  for n
proof
  fix ss :: "'a option list" and i r
  assume "line_of n ss"
  then have len: "length ss = n" and ne: "ss \<noteq> []" by (auto simp: line_of_def)
  show "line_of n (line_step i r ss)" using \<open>line_of n ss\<close> by (simp add: line_of_def)
  show "line_contents (line_step i r ss) =
      (if r \<and> last ss \<noteq> None then tl (line_contents ss) else line_contents ss) @
      (case i of Some b \<Rightarrow> if line_ready r ss then [b] else [] | None \<Rightarrow> [])"
    using line_contents_step [OF ne, of i r] by (cases i) simp_all
  show "line_contents (stage_run line_step (replicate n (None, True)) ss) = []"
    using line_run_None [of n ss] len by simp
  show "last ss = Some v \<Longrightarrow> line_contents ss \<noteq> [] \<and> hd (line_contents ss) = v" for v
    using line_out_contents [OF ne] by fastforce
qed

end
