(* ===== verification/Stats_Engine.thy ===== *)
theory Stats_Engine
  imports Axis_Stage Npe_Pkg
begin

text \<open>
  The statistics engine \<open>rtl/stats/stats_engine.sv\<close>: eight 48-bit counters beside a pipeline
  register, updated when the last beat of a packet is accepted.
\<close>

section \<open>The module\<close>

record stats_regs =
  cnt_packets :: u48
  cnt_bytes :: u48
  cnt_ipv4 :: u48
  cnt_tcp :: u48
  cnt_udp :: u48
  cnt_arp :: u48
  cnt_drops :: u48
  cnt_errors :: u48
  st_pipe :: axis_reg

definition sat_inc :: "u48 \<Rightarrow> u48" where
  "sat_inc val = (if val < mask 48 then val + 1 else val)"

definition inc_if :: "bool \<Rightarrow> u48 \<Rightarrow> u48" where
  "inc_if c val = (if c then sat_inc val else val)"

text \<open>The counter process, then the pass-through register.\<close>

definition count_packet :: "packet_metadata \<Rightarrow> stats_regs \<Rightarrow> stats_regs" where
  "count_packet m s = s\<lparr>
     cnt_packets := sat_inc (cnt_packets s),
     cnt_bytes := cnt_bytes s + ucast (pkt_length m),
     cnt_ipv4 := inc_if (ipv4_valid m) (cnt_ipv4 s),
     cnt_tcp := inc_if (tcp_valid m) (cnt_tcp s),
     cnt_udp := inc_if (udp_valid m) (cnt_udp s),
     cnt_arp := inc_if (ethertype m = ETYPE_ARP) (cnt_arp s),
     cnt_drops := inc_if (meta_drop m) (cnt_drops s),
     cnt_errors := inc_if (crc_error m \<or> parse_error m) (cnt_errors s)\<rparr>"

definition stats_step ::
  "bool \<Rightarrow> axis_beat \<Rightarrow> bool \<Rightarrow> bool \<Rightarrow> packet_metadata \<Rightarrow> stats_regs \<Rightarrow> stats_regs" where
  "stats_step rst_n s_b s_tvalid m_tready s_meta s =
     (let s_tready = reg_ready m_tready (st_pipe s);
          count_valid = (s_tvalid \<and> s_tready \<and> tlast s_b);
          s' = (if \<not> rst_n
                then s\<lparr>cnt_packets := 0, cnt_bytes := 0, cnt_ipv4 := 0, cnt_tcp := 0, cnt_udp := 0,
                       cnt_arp := 0, cnt_drops := 0, cnt_errors := 0\<rparr>
                else if count_valid then count_packet s_meta s else s)
      in s'\<lparr>st_pipe := axis_register_step rst_n s_b s_tvalid m_tready (st_pipe s)\<rparr>)"

section \<open>The stream contract\<close>

type_synonym meta_beat = "axis_beat \<times> packet_metadata"

definition stats_cycle :: "meta_beat \<Rightarrow> meta_beat option \<Rightarrow> bool \<Rightarrow> stats_regs \<Rightarrow> stats_regs" where
  "stats_cycle x i r s =
     (case i of Some (b, m) \<Rightarrow> stats_step True b True r m s
      | None \<Rightarrow> stats_step True (fst x) False r (snd x) s)"

definition stats_ready :: "bool \<Rightarrow> stats_regs \<Rightarrow> bool" where
  "stats_ready r s = reg_ready r (st_pipe s)"

lemma count_packet_pipe [simp]: "st_pipe (count_packet m s) = st_pipe s"
  by (simp add: count_packet_def)

interpretation sstage: axis_prompt_stage "\<lambda>_. True" stats_ready "\<lambda>s. reg_out (st_pipe s)" "stats_cycle x"
  "\<lambda>s. reg_contents (st_pipe s)" "\<lambda>_. fst" "\<lambda>b. b" for x
  by unfold_locales
    (auto simp: stats_cycle_def stats_step_def axis_register_step_def reg_contents_def reg_ready_def
      stats_ready_def reg_out_def Let_def split: option.splits if_splits prod.splits)

section \<open>Counting\<close>

lemma unat_mask48: "unat (mask 48 :: u48) = 2 ^ 48 - 1"
proof -
  have "(mask 48 :: u48) = - 1" by (rule word_eq_bitsI) (simp add: bits)
  then show ?thesis by (simp only: unsigned_minus_1_eq_mask) (simp add: mask_eq_exp_minus_1)
qed

text \<open>A counter that has seen \<open>n\<close> events.\<close>

definition counted :: "nat \<Rightarrow> u48 \<Rightarrow> bool" where
  "counted n c \<longleftrightarrow> unat c = min n (2 ^ 48 - 1)"

lemma counted_0: "counted 0 0"
  by (simp add: counted_def)

lemma counted_sat_inc: "counted n c \<Longrightarrow> counted (Suc n) (sat_inc c)"
proof -
  assume c: "counted n c"
  show ?thesis
  proof (cases "unat c < 2 ^ 48 - 1")
    case True
    then have "unat (c + 1) = Suc (unat c)" by (simp add: unat_word_ariths)
    then show ?thesis using c True
      by (simp add: sat_inc_def counted_def word_less_nat_alt unat_mask48)
  next
    case False
    then show ?thesis using c by (auto simp: sat_inc_def counted_def word_less_nat_alt unat_mask48)
  qed
qed

lemma counted_inc_if: "counted n c \<Longrightarrow> counted (n + (if p then 1 else 0)) (inc_if p c)"
  by (simp add: inc_if_def counted_sat_inc)

text \<open>All eight counters after packets with the metadata \<open>ms\<close>.\<close>

definition number :: "(packet_metadata \<Rightarrow> bool) \<Rightarrow> packet_metadata list \<Rightarrow> nat" where
  "number P ms = length (filter P ms)"

definition stats_agree :: "packet_metadata list \<Rightarrow> stats_regs \<Rightarrow> bool" where
  "stats_agree ms s \<longleftrightarrow>
     counted (length ms) (cnt_packets s)
     \<and> unat (cnt_bytes s) = sum_list (map (\<lambda>m. unat (pkt_length m)) ms) mod 2 ^ 48
     \<and> counted (number ipv4_valid ms) (cnt_ipv4 s)
     \<and> counted (number tcp_valid ms) (cnt_tcp s)
     \<and> counted (number udp_valid ms) (cnt_udp s)
     \<and> counted (number (\<lambda>m. ethertype m = ETYPE_ARP) ms) (cnt_arp s)
     \<and> counted (number meta_drop ms) (cnt_drops s)
     \<and> counted (number (\<lambda>m. crc_error m \<or> parse_error m) ms) (cnt_errors s)"

lemma number_snoc: "number P (ms @ [m]) = number P ms + (if P m then 1 else 0)"
  by (simp add: number_def)

lemma stats_agree_snoc:
  assumes "stats_agree ms s"
  shows "stats_agree (ms @ [m]) (count_packet m s)"
  using assms
  by (simp add: stats_agree_def count_packet_def number_snoc counted_inc_if counted_sat_inc
      unat_word_ariths unsigned_ucast_eq take_bit_eq_mod mod_simps)

lemma stats_agree_pipe [simp]: "stats_agree ms (s\<lparr>st_pipe := p\<rparr>) = stats_agree ms s"
  by (simp add: stats_agree_def)

lemma stats_run_agree:
  assumes "stats_agree ms s"
  shows "stats_agree (ms @ map snd (filter (tlast \<circ> fst) (stage_accepted stats_ready (stats_cycle x) cs s)))
    (stage_run (stats_cycle x) cs s)"
  using assms
proof (induction cs arbitrary: ms s)
  case (Cons c cs)
  obtain i r where c: "c = (i, r)" by (cases c)
  let ?new = "map snd (filter (tlast \<circ> fst) (case i of Some b \<Rightarrow> if stats_ready r s then [b] else [] | None \<Rightarrow> []))"
  have "stats_agree (ms @ ?new) (stats_cycle x i r s)"
    using Cons.prems stats_agree_snoc [OF Cons.prems]
    by (auto simp: stats_cycle_def stats_step_def stats_ready_def Let_def split: option.split prod.split)
  from Cons.IH [OF this] show ?case by (simp add: c comp_def)
qed simp

section \<open>Properties\<close>

text \<open>C23: The statistics count every packet once: after reset, for every input and back-pressure,
  each counter is the number of packets, among those whose last beat was accepted, that have its
  attribute, saturating at \<open>2 ^ 48 - 1\<close>, except the byte counter, which is the sum of the lengths
  in the metadata and wraps at \<open>2 ^ 48\<close>.\<close>

theorem stats_count_packets:
  fixes s :: stats_regs and x :: meta_beat and r :: bool
  defines "s0 \<equiv> stats_step False (fst x) False r (snd x) s"
  shows "stats_agree (map snd (filter (tlast \<circ> fst) (stage_accepted stats_ready (stats_cycle x) cs s0)))
    (stage_run (stats_cycle x) cs s0)"
proof -
  have "stats_agree [] s0"
    by (simp add: s0_def stats_step_def stats_agree_def counted_0 number_def Let_def)
  then show ?thesis using stats_run_agree [of "[]"] by simp
qed

end
