(* ===== verification/Flow_Table.thy ===== *)
theory Flow_Table
  imports Axis_Stage Npe_Pkg
begin

text \<open>
  The flow table \<open>rtl/memory/flow_table.sv\<close>: a two-way set-associative cache of 128 flows with an
  idle timeout, beside a pipeline register. Two reads of the module are outside their vectors and
  have no determined value: the replacement bits \<open>lru\<close> are two, but are indexed by the six bits of
  the set, and the last step of the hash fold selects bits 30 to 35 of a 32-bit word. The values read are the
  parameters \<open>oob\<close> (for each time and set) and \<open>pad\<close>; a write outside a vector has no effect.
\<close>

section \<open>The hash\<close>

definition TOEPLITZ_KEY :: "u32 list" where
  "TOEPLITZ_KEY =
     [0xddaa3f5a, 0x7c7e2b4a, 0x8b4e9f1c, 0xd1e3a8b6, 0x5f2c7d90, 0xa1b3c4d5, 0xe6f70819, 0x2a3b4c5d,
      0x6e7f8091, 0xa2b3c4d5, 0xe6f71829, 0x3a4b5c6d, 0x7e8f9012, 0xb3c4d5e6, 0xf718293a, 0x4b5c6d7e,
      0x8f901234, 0xc4d5e6f7, 0x18293a4b, 0x5c6d7e8f, 0x90123456, 0xd5e6f718, 0x293a4b5c, 0x6d7e8f90,
      0xa2345678, 0xe6f71829, 0x3a4b5c6d, 0x7e8f90a1, 0xb2345678, 0xf718293a, 0x4b5c6d7e, 0x8f90a1b2]"

text \<open>The last tuple word is given as 40 bits, of which the upper 8 are cut off.\<close>

definition tuple_words :: "flow_key \<Rightarrow> u32 list" where
  "tuple_words k =
     [fk_src_ip k, fk_dst_ip k,
      push_bit 24 (ucast (fk_protocol k)) OR push_bit 8 (ucast (fk_src_port k)),
      push_bit 16 (ucast (fk_dst_port k))]"

definition hash_accum :: "flow_key \<Rightarrow> u32" where
  "hash_accum k = fold (\<lambda>w h. h XOR (tuple_words k ! w XOR TOEPLITZ_KEY ! (w * 8))) [0..<4] 0"

definition hash_field :: "6 word \<Rightarrow> u32 \<Rightarrow> nat \<Rightarrow> 6 word" where
  "hash_field pad h s = ucast (drop_bit s h) OR (if s + 6 > 32 then push_bit (32 - s) pad else 0)"

definition set_idx :: "6 word \<Rightarrow> flow_key \<Rightarrow> nat" where
  "set_idx pad k =
     (let h = hash_accum k
      in unat (fold (\<lambda>s i. i XOR hash_field pad h s) [6, 12, 18, 24, 30] (ucast h :: 6 word)))"

lemma set_idx_less: "set_idx pad k < 64"
  unfolding set_idx_def Let_def
  using unsigned_less [where ?'b = 6 and ?'a = nat] by fastforce

section \<open>Lookup and update\<close>

type_synonym flow_ram = "nat \<Rightarrow> nat \<Rightarrow> flow_entry"
type_synonym lru_bits = "2 word"

definition TIMEOUT_CYCLES :: u32 where "TIMEOUT_CYCLES = 100000"

definition flow_key_of :: "packet_metadata \<Rightarrow> flow_key" where
  "flow_key_of m = \<lparr>fk_src_ip = src_ip m, fk_dst_ip = dst_ip m, fk_protocol = protocol m,
     fk_src_port = src_port m, fk_dst_port = dst_port m\<rparr>"

definition way_hit :: "flow_key \<Rightarrow> flow_entry \<Rightarrow> bool" where
  "way_hit k e \<longleftrightarrow> fe_valid e \<and> fe_key e = k"

definition way_valid :: "u32 \<Rightarrow> flow_entry \<Rightarrow> bool" where
  "way_valid now e \<longleftrightarrow> fe_valid e \<and> now - fe_last_seen e < TIMEOUT_CYCLES"

definition put_entry :: "nat \<Rightarrow> nat \<Rightarrow> flow_entry \<Rightarrow> flow_ram \<Rightarrow> flow_ram" where
  "put_entry w i e ram = ram(w := (ram w)(i := e))"

definition lru_get :: "bool \<Rightarrow> lru_bits \<Rightarrow> nat \<Rightarrow> bool" where
  "lru_get oob l i = (if i < 2 then bit l i else oob)"

definition lru_put :: "nat \<Rightarrow> bool \<Rightarrow> lru_bits \<Rightarrow> lru_bits" where
  "lru_put i v l =
     (if i < 2 then if v then Bit_Operations.set_bit i l else Bit_Operations.unset_bit i l else l)"

text \<open>An insertion writes every field.\<close>

definition fresh_entry :: "u32 \<Rightarrow> flow_key \<Rightarrow> u16 \<Rightarrow> flow_entry" where
  "fresh_entry now k len = \<lparr>fe_valid = True, fe_key = k, fe_packet_count = 1,
     fe_byte_count = ucast len, fe_last_seen = now\<rparr>"

definition flow_hit :: "u32 \<Rightarrow> flow_key \<Rightarrow> nat \<Rightarrow> flow_ram \<Rightarrow> bool" where
  "flow_hit now k i ram \<longleftrightarrow>
     way_hit k (ram 0 i) \<and> way_valid now (ram 0 i) \<or> way_hit k (ram 1 i) \<and> way_valid now (ram 1 i)"

definition expired_hit :: "u32 \<Rightarrow> flow_key \<Rightarrow> nat \<Rightarrow> flow_ram \<Rightarrow> bool" where
  "expired_hit now k i ram \<longleftrightarrow>
     way_hit k (ram 0 i) \<and> \<not> way_valid now (ram 0 i) \<or> way_hit k (ram 1 i) \<and> \<not> way_valid now (ram 1 i)"

text \<open>The update at the end of a packet with key \<open>k\<close> and length \<open>len\<close> in set \<open>i\<close>.\<close>

definition flow_update ::
  "bool \<Rightarrow> u32 \<Rightarrow> flow_key \<Rightarrow> nat \<Rightarrow> u16 \<Rightarrow> flow_ram \<times> lru_bits \<Rightarrow> flow_ram \<times> lru_bits" where
  "flow_update oob now k i len rl =
     (let (ram, lru) = rl;
          rd = (\<lambda>w. ram w i);
          hit_pkt_cnt = (if way_hit k (rd 0) then fe_packet_count (rd 0) else fe_packet_count (rd 1));
          hit_byte_cnt = (if way_hit k (rd 0) then fe_byte_count (rd 0) else fe_byte_count (rd 1))
      in if flow_hit now k i ram then
           fold (\<lambda>w (ram', lru').
             if way_hit k (rd w) \<and> way_valid now (rd w)
             then (put_entry w i ((rd w)\<lparr>fe_packet_count := hit_pkt_cnt + 1,
                     fe_byte_count := hit_byte_cnt + ucast len, fe_last_seen := now\<rparr>) ram',
                   lru_put i (w = 0) lru')
             else (ram', lru')) [0, 1] (ram, lru)
         else if expired_hit now k i ram then
           fold (\<lambda>w (ram', lru').
             if way_hit k (rd w)
             then (put_entry w i ((rd w)\<lparr>fe_valid := True, fe_packet_count := 1,
                     fe_byte_count := ucast len, fe_last_seen := now\<rparr>) ram',
                   lru_put i (w = 0) lru')
             else (ram', lru')) [0, 1] (ram, lru)
         else
           let w = (if lru_get oob lru i then 0 else 1)
           in (put_entry w i (fresh_entry now k len) ram, lru_put i (\<not> lru_get oob lru i) lru))"

section \<open>The module\<close>

record flow_regs =
  flow_ram :: flow_ram
  lru :: lru_bits
  now :: u32
  fl_pipe :: axis_reg

definition flow_step ::
  "(u32 \<Rightarrow> nat \<Rightarrow> bool) \<Rightarrow> 6 word \<Rightarrow> bool \<Rightarrow> axis_beat \<Rightarrow> bool \<Rightarrow> bool \<Rightarrow> packet_metadata \<Rightarrow>
     flow_regs \<Rightarrow> flow_regs" where
  "flow_step oob pad rst_n s_b s_tvalid m_tready s_meta s =
     (let s_tready = reg_ready m_tready (fl_pipe s);
          update_en = (s_tvalid \<and> s_tready \<and> tlast s_b);
          k = flow_key_of s_meta; i = set_idx pad k;
          rl = (if \<not> rst_n then (\<lambda>_ _. flow_entry0, 0)
                else if update_en
                then flow_update (oob (now s) i) (now s) k i (pkt_length s_meta) (flow_ram s, lru s)
                else (flow_ram s, lru s))
      in \<lparr>flow_ram = fst rl, lru = snd rl, now = (if \<not> rst_n then 0 else now s + 1),
          fl_pipe = axis_register_step rst_n s_b s_tvalid m_tready (fl_pipe s)\<rparr>)"

type_synonym flow_input = "axis_beat \<times> packet_metadata"

definition flow_cycle ::
  "(u32 \<Rightarrow> nat \<Rightarrow> bool) \<Rightarrow> 6 word \<Rightarrow> flow_input \<Rightarrow> flow_input option \<Rightarrow> bool \<Rightarrow> flow_regs \<Rightarrow> flow_regs" where
  "flow_cycle oob pad x i r s =
     (case i of Some (b, m) \<Rightarrow> flow_step oob pad True b True r m s
      | None \<Rightarrow> flow_step oob pad True (fst x) False r (snd x) s)"

interpretation fstage: axis_prompt_stage "\<lambda>_. True" "\<lambda>r s. reg_ready r (fl_pipe s)"
  "\<lambda>s. reg_out (fl_pipe s)" "flow_cycle oob pad x" "\<lambda>s. reg_contents (fl_pipe s)" "\<lambda>_. fst" "\<lambda>b. b"
  for oob pad x
  by unfold_locales
    (auto simp: flow_cycle_def flow_step_def axis_register_step_def reg_contents_def reg_ready_def
      reg_out_def Let_def split: option.splits if_splits prod.splits)

section \<open>The table as a map from keys to entries\<close>

definition flow_find :: "6 word \<Rightarrow> flow_ram \<Rightarrow> flow_key \<Rightarrow> flow_entry option" where
  "flow_find pad ram k =
     (let i = set_idx pad k
      in if way_hit k (ram 0 i) then Some (ram 0 i)
         else if way_hit k (ram 1 i) then Some (ram 1 i) else None)"

text \<open>No flow has two entries.\<close>

definition flow_inv :: "flow_ram \<Rightarrow> bool" where
  "flow_inv ram \<longleftrightarrow> (\<forall>i k. \<not> (way_hit k (ram 0 i) \<and> way_hit k (ram 1 i)))"

lemma flow_inv_reset: "flow_inv (\<lambda>_ _. flow_entry0)"
  by (simp add: flow_inv_def way_hit_def flow_entry0_def)

lemma put_entry_apply [simp]:
  "put_entry w i e ram w' i' = (if w' = w \<and> i' = i then e else ram w' i')"
  by (simp add: put_entry_def)

lemma way_hit_fields [simp]:
  "way_hit k (e\<lparr>fe_packet_count := c, fe_byte_count := b, fe_last_seen := t\<rparr>) = way_hit k e"
  "way_hit k' (fresh_entry t k len) \<longleftrightarrow> k' = k"
  by (auto simp: way_hit_def fresh_entry_def)

lemma way_hit_unique: "way_hit k e \<Longrightarrow> way_hit k' e \<Longrightarrow> k' = k"
  by (simp add: way_hit_def)

lemma expired_entry:
  "way_hit k e \<Longrightarrow> e\<lparr>fe_valid := True, fe_packet_count := 1, fe_byte_count := b, fe_last_seen := t\<rparr> =
     \<lparr>fe_valid = True, fe_key = k, fe_packet_count = 1, fe_byte_count = b, fe_last_seen = t\<rparr>"
  by (cases e) (simp add: way_hit_def)

text \<open>What an update does to the two ways of its set.\<close>

definition hit_entry :: "u32 \<Rightarrow> flow_key \<Rightarrow> u16 \<Rightarrow> flow_entry \<Rightarrow> flow_entry" where
  "hit_entry t k len e =
     (if way_valid t e
      then e\<lparr>fe_packet_count := fe_packet_count e + 1, fe_byte_count := fe_byte_count e + ucast len,
             fe_last_seen := t\<rparr>
      else fresh_entry t k len)"

lemma way_hit_hit_entry [simp]: "way_hit k e \<Longrightarrow> way_hit k' (hit_entry t k len e) \<longleftrightarrow> k' = k"
  by (auto simp: hit_entry_def way_hit_def fresh_entry_def)

lemma flow_update_ram:
  assumes "flow_inv ram"
  shows "fst (flow_update oob t k i len (ram, l)) =
    (if way_hit k (ram 0 i) then put_entry 0 i (hit_entry t k len (ram 0 i)) ram
     else if way_hit k (ram 1 i) then put_entry 1 i (hit_entry t k len (ram 1 i)) ram
     else (let w = (if lru_get oob l i then 0 else 1) in put_entry w i (fresh_entry t k len) ram))"
  using assms
  by (auto simp: flow_update_def flow_inv_def flow_hit_def expired_hit_def hit_entry_def Let_def
      fresh_entry_def expired_entry)

lemma flow_update_inv:
  assumes "flow_inv ram"
  shows "flow_inv (fst (flow_update oob t k i len (ram, l)))"
  using assms by (auto simp: flow_update_ram [OF assms] flow_inv_def Let_def)

lemma flow_find_update:
  fixes ram :: flow_ram and l :: lru_bits and oob :: bool and t :: u32 and len :: u16 and k :: flow_key and pad :: "6 word"
  assumes "flow_inv ram"
  defines "ram' \<equiv> fst (flow_update oob t k (set_idx pad k) len (ram, l))"
  shows "flow_find pad ram' k = Some (case flow_find pad ram k of Some e \<Rightarrow> hit_entry t k len e
      | None \<Rightarrow> fresh_entry t k len)"
    and "k' \<noteq> k \<Longrightarrow> flow_find pad ram' k' = flow_find pad ram k' \<or>
      flow_find pad ram k = None \<and> set_idx pad k' = set_idx pad k \<and> flow_find pad ram' k' = None"
  using assms(1) unfolding ram'_def flow_update_ram [OF assms(1)]
  by (auto simp: flow_find_def flow_inv_def Let_def dest: way_hit_unique)

lemma lru_get_put: "i < 2 \<Longrightarrow> lru_get oob (lru_put i v l) i = v"
  by (auto simp: lru_get_def lru_put_def bit_set_bit_iff bit_unset_bit_iff)

lemma flow_update_lru:
  assumes "flow_inv ram" "way_hit k (ram 0 i) \<or> way_hit k (ram 1 i)" "i < 2"
  shows "lru_get oob' (snd (flow_update oob t k i len (ram, l))) i \<longleftrightarrow> way_hit k (ram 0 i)"
  using assms
  by (auto simp: flow_update_def flow_inv_def flow_hit_def expired_hit_def Let_def lru_get_put)

section \<open>Runs\<close>

type_synonym flow_pins = "axis_beat \<times> bool \<times> bool \<times> packet_metadata"

fun flow_run :: "(u32 \<Rightarrow> nat \<Rightarrow> bool) \<Rightarrow> 6 word \<Rightarrow> flow_pins list \<Rightarrow> flow_regs \<Rightarrow> flow_regs" where
  "flow_run oob pad [] s = s"
| "flow_run oob pad ((b, v, r, m) # cs) s = flow_run oob pad cs (flow_step oob pad True b v r m s)"

lemma flow_step_inv: "flow_inv (flow_ram s) \<Longrightarrow> flow_inv (flow_ram (flow_step oob pad rst_n b v r m s))"
  by (simp add: flow_step_def flow_inv_reset flow_update_inv Let_def)

lemma flow_run_inv: "flow_inv (flow_ram s) \<Longrightarrow> flow_inv (flow_ram (flow_run oob pad cs s))"
  by (induction oob pad cs s rule: flow_run.induct) (simp_all add: flow_step_inv)

lemma flow_run_reset_inv: "flow_inv (flow_ram (flow_run oob pad cs (flow_step oob pad False b v r m s)))"
  by (rule flow_run_inv) (simp add: flow_step_def flow_inv_reset Let_def)

text \<open>One cycle, on the entries that a lookup finds.\<close>

lemma flow_find_others:
  fixes ram :: flow_ram and l :: lru_bits and oob :: bool and t :: u32 and len :: u16 and k k' :: flow_key and pad :: "6 word"
  assumes "flow_inv ram" "k' \<noteq> k"
  shows "flow_find pad (fst (flow_update oob t k (set_idx pad k) len (ram, l))) k' =
    (if flow_find pad ram k = None \<and> set_idx pad k' = set_idx pad k \<and>
        way_hit k' (ram (if lru_get oob l (set_idx pad k) then 0 else 1) (set_idx pad k))
     then None else flow_find pad ram k')"
  using assms(1,2) unfolding flow_update_ram [OF assms(1)]
  by (auto simp: flow_find_def flow_inv_def Let_def dest: way_hit_unique)

lemma flow_step_find:
  assumes "flow_inv (flow_ram s)" "v" "reg_ready r (fl_pipe s)" "tlast b"
  shows "flow_find pad (flow_ram (flow_step oob pad True b v r m s)) (flow_key_of m) =
      Some (case flow_find pad (flow_ram s) (flow_key_of m) of
        Some e \<Rightarrow> if now s - fe_last_seen e < TIMEOUT_CYCLES
          then e\<lparr>fe_packet_count := fe_packet_count e + 1,
                 fe_byte_count := fe_byte_count e + ucast (pkt_length m), fe_last_seen := now s\<rparr>
          else fresh_entry (now s) (flow_key_of m) (pkt_length m)
      | None \<Rightarrow> fresh_entry (now s) (flow_key_of m) (pkt_length m))"
proof -
  have "way_valid t e \<longleftrightarrow> t - fe_last_seen e < TIMEOUT_CYCLES" if "flow_find pad (flow_ram s) k = Some e" for t e k
    using that by (auto simp: flow_find_def way_valid_def way_hit_def Let_def split: if_splits)
  then show ?thesis
    using assms(2-4) flow_find_update(1) [OF assms(1)]
    by (auto simp: flow_step_def hit_entry_def Let_def split: option.split)
qed

section \<open>Properties\<close>

text \<open>C6: The flow table as a map from flows to their counts: after reset and any run, for every input
  and back-pressure, a flow has at most one entry, and the next clock cycle changes the table only if
  the last beat of a packet is accepted. Then the flow of the packet has an entry afterwards: its old
  one with one more packet and the length added, if it had one that was seen less than the timeout
  ago, and a fresh one otherwise. Every other flow keeps its entry as it was, but for one: if the
  packet's flow had no entry, the flow that is in the replaced way of the set is forgotten, and only
  that one.\<close>

theorem flow_table_refines_map:
  fixes s s' s0 :: flow_regs and m m0 :: packet_metadata and b b0 :: axis_beat and v r v0 r0 packet_end :: bool
    and oob :: "u32 \<Rightarrow> nat \<Rightarrow> bool" and pad :: "6 word" and cs :: "flow_pins list" and k :: flow_key and i way :: nat
  defines "s \<equiv> flow_run oob pad cs (flow_step oob pad False b0 v0 r0 m0 s0)" and "k \<equiv> flow_key_of m"
  defines "s' \<equiv> flow_step oob pad True b v r m s" and "packet_end \<equiv> v \<and> reg_ready r (fl_pipe s) \<and> tlast b"
    and "i \<equiv> set_idx pad k"
  defines "way \<equiv> (if lru_get (oob (now s) i) (lru s) i then 0 else 1)"
  shows "(\<forall>j k'. \<not> (way_hit k' (flow_ram s 0 j) \<and> way_hit k' (flow_ram s 1 j)))
    \<and> (\<not> packet_end \<longrightarrow> flow_ram s' = flow_ram s)
    \<and> (packet_end \<longrightarrow>
        flow_find pad (flow_ram s') k =
          Some (case flow_find pad (flow_ram s) k of
              Some e \<Rightarrow> if now s - fe_last_seen e < TIMEOUT_CYCLES
                then e\<lparr>fe_packet_count := fe_packet_count e + 1,
                       fe_byte_count := fe_byte_count e + ucast (pkt_length m), fe_last_seen := now s\<rparr>
                else \<lparr>fe_valid = True, fe_key = k, fe_packet_count = 1,
                      fe_byte_count = ucast (pkt_length m), fe_last_seen = now s\<rparr>
            | None \<Rightarrow> \<lparr>fe_valid = True, fe_key = k, fe_packet_count = 1,
                      fe_byte_count = ucast (pkt_length m), fe_last_seen = now s\<rparr>)
        \<and> (\<forall>k'. k' \<noteq> k \<longrightarrow> flow_find pad (flow_ram s') k' =
             (if flow_find pad (flow_ram s) k = None \<and> set_idx pad k' = i \<and> way_hit k' (flow_ram s way i)
              then None else flow_find pad (flow_ram s) k')))"
proof -
  have inv: "flow_inv (flow_ram s)" unfolding s_def by (rule flow_run_reset_inv)
  have "flow_ram s' = flow_ram s" if "\<not> packet_end"
    using that by (auto simp: s'_def flow_step_def packet_end_def Let_def)
  moreover have "flow_ram s' = fst (flow_update (oob (now s) i) (now s) k i (pkt_length m) (flow_ram s, lru s))" if packet_end
    using that by (simp add: s'_def flow_step_def packet_end_def k_def i_def Let_def)
  then have "flow_find pad (flow_ram s') k' =
      (if flow_find pad (flow_ram s) k = None \<and> set_idx pad k' = i \<and> way_hit k' (flow_ram s way i)
       then None else flow_find pad (flow_ram s) k')" if "k' \<noteq> k" packet_end for k'
    using flow_find_others [OF inv that(1), where pad = pad and oob = "oob (now s) i" and t = "now s"
        and len = "pkt_length m" and l = "lru s"] that(2)
    by (simp only: i_def [symmetric] way_def)
  ultimately show ?thesis
    using inv flow_step_find [OF inv, of v r b, where pad = pad and oob = oob and m = m]
    unfolding flow_inv_def fresh_entry_def packet_end_def s'_def k_def by blast
qed

text \<open>The first packet after reset, whose entry is the only change to the table.\<close>

theorem flow_table_refines_map_witness:
  fixes b :: axis_beat
  defines "b \<equiv> \<lparr>tdata = 3, tkeep = 1, tlast = True\<rparr>"
  shows "\<forall>s0. let s = flow_step (\<lambda>_ _. False) 0 False b False True meta0 s0;
       s' = flow_step (\<lambda>_ _. False) 0 True b True True (meta0\<lparr>pkt_length := 60\<rparr>) s
     in flow_find 0 (flow_ram s') (flow_key_of meta0) =
          Some \<lparr>fe_valid = True, fe_key = flow_key_of meta0, fe_packet_count = 1, fe_byte_count = 60, fe_last_seen = 0\<rparr>
        \<and> (\<forall>k'. k' \<noteq> flow_key_of meta0 \<longrightarrow> flow_find 0 (flow_ram s') k' = None)"
proof
  fix s0
  note map = flow_table_refines_map [where oob = "\<lambda>_ _. False" and pad = 0 and cs = "[]" and ?b0.0 = b
    and ?v0.0 = False and ?r0.0 = True and ?m0.0 = meta0 and ?s0.0 = s0 and b = b and v = True and r = True and m = "meta0\<lparr>pkt_length := 60\<rparr>"]
  let ?s = "flow_step (\<lambda>_ _. False) 0 False b False True meta0 s0"
  have "flow_find 0 (flow_ram ?s) k = None" "now ?s = 0" "reg_ready True (fl_pipe ?s)" "tlast b" for k
    by (simp_all add: flow_step_def flow_find_def way_hit_def flow_entry0_def Let_def reg_ready_def b_def)
  moreover have "flow_key_of (meta0\<lparr>pkt_length := 60\<rparr>) = flow_key_of meta0" by (simp add: flow_key_of_def)
  ultimately show "let s = ?s; s' = flow_step (\<lambda>_ _. False) 0 True b True True (meta0\<lparr>pkt_length := 60\<rparr>) s
     in flow_find 0 (flow_ram s') (flow_key_of meta0) =
          Some \<lparr>fe_valid = True, fe_key = flow_key_of meta0, fe_packet_count = 1, fe_byte_count = 60, fe_last_seen = 0\<rparr>
        \<and> (\<forall>k'. k' \<noteq> flow_key_of meta0 \<longrightarrow> flow_find 0 (flow_ram s') k' = None)"
    using map by (simp add: Let_def)
qed

text \<open>The replacement is not least recently used: in a set that has a replacement bit, after a
  packet of a known flow, a packet of a new flow evicts exactly that flow, the most recently used
  one, and keeps the other.\<close>

theorem miss_evicts_most_recent:
  fixes ram :: flow_ram and l :: lru_bits and oob oob' :: bool and t t' :: u32 and len len' :: u16
    and k k' :: flow_key and pad :: "6 word"
  defines "rl1 \<equiv> flow_update oob t k (set_idx pad k) len (ram, l)"
  defines "rl2 \<equiv> flow_update oob' t' k' (set_idx pad k') len' rl1"
  assumes "flow_inv ram" "set_idx pad k < 2" "set_idx pad k' = set_idx pad k"
    "flow_find pad ram k = Some e" "flow_find pad ram k' = None"
  shows "flow_find pad (fst rl2) k = None
    \<and> (\<forall>k''. k'' \<noteq> k \<and> k'' \<noteq> k' \<longrightarrow> flow_find pad (fst rl2) k'' = flow_find pad ram k'')"
proof -
  define i where "i = set_idx pad k"
  have inv1: "flow_inv (fst rl1)" unfolding rl1_def by (rule flow_update_inv [OF assms(3)])
  have ne: "k' \<noteq> k" using assms(6,7) by auto
  obtain w where w: "w < 2" "way_hit k (ram w i)" "fst rl1 = put_entry w i (hit_entry t k len (ram w i)) ram"
    "lru_get oob' (snd rl1) i \<longleftrightarrow> w = 0"
  proof (cases "way_hit k (ram 0 i)")
    case True
    then show ?thesis
      using that [of 0] flow_update_lru [OF assms(3), of k i oob' oob t len l] assms(4)
      by (simp add: rl1_def i_def flow_update_ram [OF assms(3)])
  next
    case False
    then have "way_hit k (ram 1 i)"
      using assms(6) by (simp add: flow_find_def i_def Let_def split: if_splits)
    then show ?thesis
      using that [of 1] False flow_update_lru [OF assms(3), of k i oob' oob t len l] assms(4)
      by (simp add: rl1_def i_def flow_update_ram [OF assms(3)])
  qed
  have miss: "\<not> way_hit k' (fst rl1 0 i)" "\<not> way_hit k' (fst rl1 1 i)"
    using assms(5,7) w(2) ne by (auto simp: flow_find_def i_def w(3) Let_def split: if_splits)
  have ram2: "fst rl2 = put_entry w i (fresh_entry t' k' len') (fst rl1)"
    using miss w(1,4) assms(5) flow_update_ram [OF inv1, of oob' t' k' i len' "snd rl1"]
    by (auto simp: rl2_def i_def Let_def less_2_cases_iff)
  show ?thesis
    using assms(3) w(1,2) ne assms(5)
    unfolding ram2 w(3) flow_find_def Let_def flow_inv_def
    by (auto simp: i_def less_2_cases_iff dest: way_hit_unique)
qed

theorem miss_evicts_most_recent_witness:
  fixes k k' :: flow_key and ram :: flow_ram
  defines "k \<equiv> \<lparr>fk_src_ip = 0x9e71fb87, fk_dst_ip = 0, fk_protocol = 0, fk_src_port = 0, fk_dst_port = 0\<rparr>"
    and "k' \<equiv> \<lparr>fk_src_ip = 0x9e71fbc6, fk_dst_ip = 0, fk_protocol = 0, fk_src_port = 0, fk_dst_port = 0\<rparr>"
  defines "ram \<equiv> put_entry 0 0 (fresh_entry 5 k 60) (\<lambda>_ _. flow_entry0)"
  shows "flow_find 0 (fst (flow_update False 9 k' (set_idx 0 k') 60
      (flow_update False 8 k (set_idx 0 k) 60 (ram, 0)))) k = None"
proof -
  have idx: "set_idx 0 k = 0" "set_idx 0 k' = 0" unfolding k_def k'_def by code_simp+
  have "flow_inv ram"
    by (simp add: ram_def flow_inv_def way_hit_def flow_entry0_def)
  moreover have "flow_find 0 ram k = Some (fresh_entry 5 k 60)"
    by (simp add: flow_find_def idx ram_def Let_def)
  moreover have "flow_find 0 ram k' = None"
    by (simp add: flow_find_def idx ram_def Let_def way_hit_def flow_entry0_def fresh_entry_def)
      (simp add: k_def k'_def)
  ultimately show ?thesis
    using miss_evicts_most_recent [where ram = ram and pad = 0 and k = k and k' = k' and oob = False and oob' = False
        and t = 8 and t' = 9 and len = 60 and len' = 60 and l = 0] idx by simp
qed

end
