(* ===== verification/Parser_Pipeline.thy ===== *)
theory Parser_Pipeline
  imports Axis_Line Packet_Modifier Stats_Engine Flow_Table
begin

text \<open>
  The whole engine \<open>rtl/top/parser_pipeline.sv\<close>: the four header parsing stages (the UDP and the
  TCP parser side by side), the match table, the modifier, the statistics and the flow table. Its
  data path refines a line of eight registers; the register port of the module drives nothing.
\<close>

section \<open>The module\<close>

record pipe_pins =
  rst_n :: bool
  s_tdata :: bus
  s_tkeep :: keep
  s_tlast :: bool
  s_tvalid :: bool
  m_tready :: bool

definition s_beat :: "pipe_pins \<Rightarrow> axis_beat" where
  "s_beat p = \<lparr>tdata = s_tdata p, tkeep = s_tkeep p, tlast = s_tlast p\<rparr>"

record pipeline =
  eth_inst :: eth_regs
  vlan_inst :: parser_regs
  ip_inst :: parser_regs
  udp_inst :: parser_regs
  tcp_inst :: parser_regs
  match_inst :: match_regs
  mod_inst :: mod_regs
  stats_inst :: stats_regs
  flow_inst :: flow_regs

text \<open>The ready bits, from the output backwards.\<close>

definition r_flow :: "bool \<Rightarrow> pipeline \<Rightarrow> bool" where
  "r_flow m_ready p = reg_ready m_ready (fl_pipe (flow_inst p))"

definition r_stats :: "bool \<Rightarrow> pipeline \<Rightarrow> bool" where
  "r_stats m_ready p = reg_ready (r_flow m_ready p) (st_pipe (stats_inst p))"

definition r_mod :: "bool \<Rightarrow> pipeline \<Rightarrow> bool" where
  "r_mod m_ready p = reg_ready (r_stats m_ready p) (mod_pipe (mod_inst p))"

definition r_match :: "bool \<Rightarrow> pipeline \<Rightarrow> bool" where
  "r_match m_ready p = reg_ready (r_mod m_ready p) (pipe (match_inst p))"

definition r_ip :: "bool \<Rightarrow> pipeline \<Rightarrow> bool" where
  "r_ip m_ready p \<longleftrightarrow> reg_ready (r_match m_ready p) (pipe (udp_inst p)) \<and>
     reg_ready (r_match m_ready p) (pipe (tcp_inst p))"

definition r_vlan :: "bool \<Rightarrow> pipeline \<Rightarrow> bool" where
  "r_vlan m_ready p = reg_ready (r_ip m_ready p) (pipe (ip_inst p))"

definition r_eth :: "bool \<Rightarrow> pipeline \<Rightarrow> bool" where
  "r_eth m_ready p = reg_ready (r_vlan m_ready p) (pipe (vlan_inst p))"

definition pipe_ready :: "bool \<Rightarrow> pipeline \<Rightarrow> bool" where
  "pipe_ready m_ready p = reg_ready (r_eth m_ready p) (pipe (eth_inst p))"

text \<open>The selection after the transport parsers.\<close>

definition v_l4 :: "pipeline \<Rightarrow> bool" where
  "v_l4 p \<longleftrightarrow> pipe_valid (pipe (tcp_inst p)) \<or> pipe_valid (pipe (udp_inst p))"

definition b_l4 :: "pipeline \<Rightarrow> axis_beat" where
  "b_l4 p = (if pipe_valid (pipe (tcp_inst p)) then pipe_beat (pipe (tcp_inst p))
     else pipe_beat (pipe (udp_inst p)))"

definition m_l4 :: "pipeline \<Rightarrow> packet_metadata" where
  "m_l4 p = l4_select (pipe_meta (tcp_inst p)) (pipe_meta (udp_inst p))"

text \<open>One clock edge of all instances. The statistics and the flow table take the metadata at the
  output of the match table, one and two stages before the beats they see.\<close>

definition pipeline_step ::
  "(u32 \<Rightarrow> nat \<Rightarrow> bool) \<Rightarrow> 6 word \<Rightarrow> pipe_pins \<Rightarrow> pipeline \<Rightarrow> pipeline" where
  "pipeline_step oob pad pn p =
     (let rst = rst_n pn; r = m_tready pn;
          out = (\<lambda>s :: axis_reg. pipe_beat s);
          m_match = pipe_meta (match_inst p)
      in \<lparr>eth_inst = eth_step rst (s_beat pn) (s_tvalid pn) (r_eth r p) meta0 (eth_inst p),
          vlan_inst = vlan_step rst (out (pipe (eth_inst p))) (pipe_valid (pipe (eth_inst p))) (r_vlan r p)
            (pipe_meta (eth_inst p)) (vlan_inst p),
          ip_inst = ipv4_step rst (out (pipe (vlan_inst p))) (pipe_valid (pipe (vlan_inst p))) (r_ip r p)
            (pipe_meta (vlan_inst p)) (ip_inst p),
          udp_inst = udp_step rst (out (pipe (ip_inst p))) (pipe_valid (pipe (ip_inst p))) (r_match r p)
            (pipe_meta (ip_inst p)) (udp_inst p),
          tcp_inst = tcp_step rst (out (pipe (ip_inst p))) (pipe_valid (pipe (ip_inst p))) (r_match r p)
            (pipe_meta (ip_inst p)) (tcp_inst p),
          match_inst = match_step rst (b_l4 p) (v_l4 p) (r_mod r p) (m_l4 p) (match_inst p),
          mod_inst = modifier_step rst (out (pipe (match_inst p))) (pipe_valid (pipe (match_inst p))) (r_stats r p)
            m_match (pipe_mod_action (match_inst p)) (pipe_mod_data (match_inst p)) (mod_inst p),
          stats_inst = stats_step rst (out (mod_pipe (mod_inst p))) (pipe_valid (mod_pipe (mod_inst p)))
            (r_flow r p) m_match (stats_inst p),
          flow_inst = flow_step oob pad rst (out (st_pipe (stats_inst p))) (pipe_valid (st_pipe (stats_inst p)))
            r m_match (flow_inst p)\<rparr>)"

definition pipe_out :: "pipeline \<Rightarrow> axis_beat option" where
  "pipe_out p = reg_out (fl_pipe (flow_inst p))"

section \<open>The pipeline registers as slots\<close>

text \<open>The abstraction forgets the lanes that the orders of the match table may change: the lanes
  below 22 hold everything before the TTL of an untagged IPv4 header.\<close>

definition view :: "axis_beat \<Rightarrow> axis_beat" where
  "view b = b\<lparr>tdata := take_bit 176 (tdata b)\<rparr>"

definition slot :: "axis_reg \<Rightarrow> axis_beat option" where
  "slot s = (if pipe_valid s then Some (view (pipe_beat s)) else None)"

definition slots :: "pipeline \<Rightarrow> axis_beat option list" where
  "slots p =
     [slot (pipe (eth_inst p)), slot (pipe (vlan_inst p)), slot (pipe (ip_inst p)), slot (pipe (udp_inst p)),
      slot (pipe (match_inst p)), slot (mod_pipe (mod_inst p)), slot (st_pipe (stats_inst p)),
      slot (fl_pipe (flow_inst p))]"

text \<open>The transport parsers hold the same beat, and an order of the match table is one of two once
  it is in use.\<close>

definition pipe_inv :: "pipeline \<Rightarrow> bool" where
  "pipe_inv p \<longleftrightarrow>
     pipe_valid (pipe (tcp_inst p)) = pipe_valid (pipe (udp_inst p)) \<and>
     (pipe_valid (pipe (udp_inst p)) \<longrightarrow> pipe_beat (pipe (tcp_inst p)) = pipe_beat (pipe (udp_inst p))) \<and>
     (pipe_valid (pipe (match_inst p)) \<or> \<not> first_beat (match_inst p) \<longrightarrow>
        pipe_mod_action (match_inst p) \<in> {MOD_NOP, MOD_TTL_DEC})"

lemma byte_at_take_bit: "byte_at (take_bit (8 * n) (d :: bus)) i = (if i < n then byte_at d i else 0)"
  by (rule word_eq_bitsI) (auto simp: bits bit_take_bit_iff)

lemma view_modify:
  assumes "act \<in> {MOD_NOP, MOD_TTL_DEC}"
  shows "view (modify act md m b) = view b"
proof -
  have "take_bit (8 * 22) (mod_ttl_dec m d) = take_bit (8 * 22) d" for d
  proof (rule bus_eqI)
    fix i :: nat
    assume "i < 64"
    then show "byte_at (take_bit (8 * 22) (mod_ttl_dec m d)) i = byte_at (take_bit (8 * 22) d) i"
      unfolding byte_at_take_bit using ip_off_cases [of m] by (auto simp: ttl_dec_lanes)
  qed
  then show ?thesis using assms by (auto simp: view_def modify_def)
qed

text \<open>How the registers of the instances move.\<close>

lemma stage_pipes:
  "pipe (meta_stage_step upd rst b v r m s) = axis_register_step rst b v r (pipe s)"
  "pipe (eth_step rst b v r m e) = axis_register_step rst b v r (pipe e)"
  "pipe (match_step rst b v r m t) = axis_register_step rst b v r (pipe t)"
  "st_pipe (stats_step rst b v r m st) = axis_register_step rst b v r (st_pipe st)"
  "fl_pipe (flow_step oob pad rst b v r m f) = axis_register_step rst b v r (fl_pipe f)"
  by (simp_all add: meta_stage_step_def eth_step_def match_step_def stats_step_def flow_step_def Let_def)

lemmas parser_steps = vlan_step_def ipv4_step_def udp_step_def tcp_step_def

lemma slot_register:
  "slot (axis_register_step True b v r s) =
     (if r \<or> slot s = None then (if v then Some (view b) else None) else slot s)"
  by (simp add: slot_def axis_register_step_def)

lemma reg_ready_slot: "reg_ready r s \<longleftrightarrow> r \<or> slot s = None"
  by (simp add: reg_ready_def slot_def)

lemma slot_self: "(if pipe_valid s then Some (view (pipe_beat s)) else None) = slot s"
  by (simp add: slot_def)

lemma udp_tcp_slots: "pipe_inv p \<Longrightarrow> slot (pipe (tcp_inst p)) = slot (pipe (udp_inst p))"
  by (auto simp: pipe_inv_def slot_def)

lemma l4_slot: "pipe_inv p \<Longrightarrow> (if v_l4 p then Some (view (b_l4 p)) else None) = slot (pipe (udp_inst p))"
  by (auto simp: pipe_inv_def slot_def v_l4_def b_l4_def)

lemma mod_slot:
  assumes "pipe_inv p"
  shows "slot (mod_pipe (modifier_step True (pipe_beat (pipe (match_inst p))) (pipe_valid (pipe (match_inst p))) r m
      (pipe_mod_action (match_inst p)) md s)) =
    (if r \<or> slot (mod_pipe s) = None then slot (pipe (match_inst p)) else slot (mod_pipe s))"
proof (cases "pipe_valid (pipe (match_inst p))")
  case True
  then have "pipe_mod_action (match_inst p) \<in> {MOD_NOP, MOD_TTL_DEC}"
    and "slot (pipe (match_inst p)) = Some (view (pipe_beat (pipe (match_inst p))))"
    using assms by (simp_all add: pipe_inv_def slot_def)
  then show ?thesis using True by (simp add: modifier_step_def slot_register view_modify Let_def)
next
  case False
  then have "slot (pipe (match_inst p)) = None" by (simp add: slot_def)
  then show ?thesis using False by (simp add: modifier_step_def slot_register Let_def)
qed

lemma ready_chain:
  assumes "pipe_inv p"
  shows "pipe_ready r p = line_ready r (slots p)"
  using udp_tcp_slots [OF assms]
  by (simp add: pipe_ready_def r_eth_def r_vlan_def r_ip_def r_match_def r_mod_def r_stats_def r_flow_def
      reg_ready_slot slots_def)

text \<open>A clock edge out of reset is a step of the line.\<close>

lemma slots_step:
  assumes "pipe_inv p" "rst_n pn"
  shows "slots (pipeline_step oob pad pn p) =
    line_step (if s_tvalid pn then Some (view (s_beat pn)) else None) (m_tready pn) (slots p)"
proof -
  have ready: "r_flow r p = line_ready r (drop 7 (slots p))" "r_stats r p = line_ready r (drop 6 (slots p))"
    "r_mod r p = line_ready r (drop 5 (slots p))" "r_match r p = line_ready r (drop 4 (slots p))"
    "r_ip r p = line_ready r (drop 3 (slots p))" "r_vlan r p = line_ready r (drop 2 (slots p))"
    "r_eth r p = line_ready r (drop 1 (slots p))" for r
    using udp_tcp_slots [OF assms(1)]
    by (simp_all add: r_eth_def r_vlan_def r_ip_def r_match_def r_mod_def r_stats_def r_flow_def
      reg_ready_slot slots_def)
  show ?thesis
    using assms(2) mod_slot [OF assms(1)]
    by (simp add: pipeline_step_def Let_def parser_steps stage_pipes slot_register slot_self l4_slot [OF assms(1)]
        ready slots_def)
qed

lemma match_action_step:
  fixes s :: match_regs and b :: axis_beat and v r :: bool and m :: packet_metadata
  assumes "pipe_valid (pipe s) \<or> \<not> first_beat s \<longrightarrow> pipe_mod_action s \<in> {MOD_NOP, MOD_TTL_DEC}"
  defines "s' \<equiv> match_step True b v r m s"
  shows "pipe_valid (pipe s') \<or> \<not> first_beat s' \<longrightarrow> pipe_mod_action s' \<in> {MOD_NOP, MOD_TTL_DEC}"
  using assms(1)
  by (auto simp: s'_def match_step_def meta_stage_step_def axis_register_step_def track_first_def reg_ready_def
      match_lookup_eq Let_def)

lemma pipe_inv_step:
  assumes "pipe_inv p" "rst_n pn"
  shows "pipe_inv (pipeline_step oob pad pn p)"
proof -
  have "pipe_valid (pipe (tcp_inst p)) = pipe_valid (pipe (udp_inst p))" using assms(1) by (simp add: pipe_inv_def)
  then show ?thesis
    using assms match_action_step [of "match_inst p"]
    unfolding pipe_inv_def
    by (auto simp: pipeline_step_def Let_def parser_steps stage_pipes axis_register_step_def)
qed

text \<open>A clock edge in reset empties the line.\<close>

lemma reset_step:
  assumes "\<not> rst_n pn"
  shows "pipe_inv (pipeline_step oob pad pn p)" "slots (pipeline_step oob pad pn p) = replicate 8 None"
proof -
  show "pipe_inv (pipeline_step oob pad pn p)"
    using assms
    by (simp add: pipe_inv_def pipeline_step_def Let_def parser_steps stage_pipes axis_register_step_def
        match_step_def meta_stage_step_def track_first_def)
  show "slots (pipeline_step oob pad pn p) = replicate 8 None"
    using assms
    by (simp add: slots_def pipeline_step_def Let_def parser_steps stage_pipes axis_register_step_def
        modifier_step_def slot_def eval_nat_numeral)
qed

section \<open>The stream contract\<close>

definition beat_pins :: "axis_beat \<Rightarrow> bool \<Rightarrow> bool \<Rightarrow> pipe_pins" where
  "beat_pins b v r = \<lparr>rst_n = True, s_tdata = tdata b, s_tkeep = tkeep b, s_tlast = tlast b,
     s_tvalid = v, m_tready = r\<rparr>"

lemma beat_pins_simps [simp]:
  "s_beat (beat_pins b v r) = b" "rst_n (beat_pins b v r)" "s_tvalid (beat_pins b v r) = v"
  "m_tready (beat_pins b v r) = r"
  by (simp_all add: s_beat_def beat_pins_def)

definition pipe_cycle ::
  "(u32 \<Rightarrow> nat \<Rightarrow> bool) \<Rightarrow> 6 word \<Rightarrow> axis_beat \<Rightarrow> axis_beat option \<Rightarrow> bool \<Rightarrow> pipeline \<Rightarrow> pipeline" where
  "pipe_cycle oob pad x i r p =
     (case i of Some b \<Rightarrow> pipeline_step oob pad (beat_pins b True r) p
      | None \<Rightarrow> pipeline_step oob pad (beat_pins x False r) p)"

lemma slots_cycle: "pipe_inv p \<Longrightarrow> slots (pipe_cycle oob pad x i r p) = line_step (map_option view i) r (slots p)"
  by (cases i) (simp_all add: pipe_cycle_def slots_step)

lemma pipe_inv_cycle: "pipe_inv p \<Longrightarrow> pipe_inv (pipe_cycle oob pad x i r p)"
  by (cases i) (simp_all add: pipe_cycle_def pipe_inv_step)

lemma slots_line [simp]: "line_of 8 (slots p)"
  by (simp add: line_of_def slots_def)

lemma last_slot: "last (slots p) = map_option view (pipe_out p)"
  by (simp add: slots_def slot_def pipe_out_def reg_out_def)

lemma slots_run:
  "pipe_inv p \<Longrightarrow> slots (stage_run (pipe_cycle oob pad x) cs p) =
     stage_run line_step (map (\<lambda>(i, r). (map_option view i, r)) cs) (slots p)"
  by (induction cs arbitrary: p) (auto simp: slots_cycle pipe_inv_cycle)

interpretation npe: axis_flush_stage pipe_inv pipe_ready pipe_out "pipe_cycle oob pad x"
  "\<lambda>p. line_contents (slots p)" "\<lambda>_. view" view 8 for oob pad x
proof
  fix p i r
  assume inv: "pipe_inv p"
  show "pipe_inv (pipe_cycle oob pad x i r p)" by (rule pipe_inv_cycle [OF inv])
  show "line_contents (slots (pipe_cycle oob pad x i r p)) =
      (if r \<and> pipe_out p \<noteq> None then tl (line_contents (slots p)) else line_contents (slots p)) @
      (case i of Some b \<Rightarrow> if pipe_ready r p then [view b] else [] | None \<Rightarrow> [])"
    using aline.contents_step [of 8 "slots p" "map_option view i" r]
    by (cases i) (simp_all add: slots_cycle [OF inv] ready_chain [OF inv] last_slot)
  show "pipe_out p = Some b \<Longrightarrow> line_contents (slots p) \<noteq> [] \<and> hd (line_contents (slots p)) = view b" for b
    using aline.out_first [of 8 "slots p" "view b"] by (simp add: last_slot)
  show "line_contents (slots (stage_run (pipe_cycle oob pad x) (replicate 8 (None, True)) p)) = []"
    using aline.flush [of 8 "slots p"] by (simp add: slots_run [OF inv])
qed

section \<open>Properties\<close>

text \<open>C2: Data integrity of the engine: after reset, for every input and back-pressure, the pipeline
  delivers, in order, the beats it accepted, without loss or duplication: the same \<open>tkeep\<close> and
  \<open>tlast\<close> and the same data on lanes 0 to 21 (the lanes above may be rewritten by the TTL order).
  Eight cycles without input and with a ready receiver empty it, and it accepts a beat in every
  cycle in which the receiver is ready.\<close>

theorem pipeline_delivers_accepted:
  fixes p :: pipeline and oob :: "u32 \<Rightarrow> nat \<Rightarrow> bool" and pad :: "6 word" and x :: axis_beat and pn :: pipe_pins
  defines "p0 \<equiv> pipeline_step oob pad (pn\<lparr>rst_n := False\<rparr>) p"
  shows "map view (stage_delivered pipe_out (pipe_cycle oob pad x) cs p0) @
      line_contents (slots (stage_run (pipe_cycle oob pad x) cs p0)) =
      map view (stage_accepted pipe_ready (pipe_cycle oob pad x) cs p0)
    \<and> map view (stage_delivered pipe_out (pipe_cycle oob pad x) (cs @ replicate 8 (None, True)) p0) =
      map view (stage_accepted pipe_ready (pipe_cycle oob pad x) cs p0)
    \<and> pipe_ready True (stage_run (pipe_cycle oob pad x) cs p0)"
proof -
  have inv: "pipe_inv p0" and empty: "slots p0 = replicate 8 None"
    unfolding p0_def by (rule reset_step; simp)+
  show ?thesis
    using npe.stream_preserved [OF inv, of oob pad x cs] npe.all_delivered [OF inv, of oob pad x cs]
      ready_chain [OF npe.inv_run [OF inv, of oob pad x cs], of True]
    by (simp add: empty stage_entered_pure)
qed

end
