(* ===== verification/Pipeline_Sim.thy ===== *)
theory Pipeline_Sim
  imports Parser_Pipeline Verilated Packet_Mon Packet_Gen
begin

text \<open>
  What the benches of the pipeline share: the struct \<open>Sim\<close> around the Verilated module, the loops
  that cut a packet into beats and push it, and the loops that drain the output. The files repeat
  these loops; they differ in what is done with a captured beat (here a function \<open>f\<close> on an
  accumulator), in the order of driving and capturing, and in what ends the drain. Each loop is
  written out here once, and the benches use them under their own names.

  The data path alone decides what the benches see, so the facts below follow a queue of beats
  through the eight slots of the pipeline.
\<close>

section \<open>\<open>Sim\<close>\<close>

text \<open>The reads of the flow table that have no determined value.\<close>

type_synonym undet = "(u32 \<Rightarrow> nat \<Rightarrow> bool) \<times> 6 word"

definition vstep :: "undet \<Rightarrow> pipe_pins \<Rightarrow> pipeline \<Rightarrow> pipeline" where
  "vstep u = pipeline_step (fst u) (snd u)"

record psim =
  pdut :: "(pipe_pins, pipeline) vdut"
  cycles :: u64

definition pipe_pins0 :: pipe_pins where
  "pipe_pins0 = \<lparr>rst_n = False, s_tdata = 0, s_tkeep = 0, s_tlast = False, s_tvalid = False, m_tready = False\<rparr>"

definition psim_new :: "pipeline \<Rightarrow> psim" where
  "psim_new p = \<lparr>pdut = power_on pipe_pins0 p, cycles = 0\<rparr>"

definition psim_pre :: "undet \<Rightarrow> psim \<Rightarrow> psim" where
  "psim_pre u s = s\<lparr>pdut := pre (vstep u) (pdut s)\<rparr>"

definition psim_post :: "undet \<Rightarrow> psim \<Rightarrow> psim" where
  "psim_post u s = s\<lparr>pdut := post (vstep u) (pdut s), cycles := cycles s + 1\<rparr>"

definition psim_cycle :: "undet \<Rightarrow> psim \<Rightarrow> psim" where
  "psim_cycle u s = psim_post u (psim_pre u s)"

definition set_pipe :: "(pipe_pins \<Rightarrow> pipe_pins) \<Rightarrow> psim \<Rightarrow> psim" where
  "set_pipe h s = s\<lparr>pdut := (pdut s)\<lparr>pins := h (pins (pdut s))\<rparr>\<rparr>"

definition psim_reset :: "undet \<Rightarrow> nat \<Rightarrow> psim \<Rightarrow> psim" where
  "psim_reset u n s =
     (let s = set_pipe (\<lambda>p. p\<lparr>rst_n := False\<rparr>) s;
          s = (psim_cycle u ^^ n) s;
          s = set_pipe (\<lambda>p. p\<lparr>rst_n := True\<rparr>) s
      in psim_cycle u s)"

text \<open>The output pins a bench reads.\<close>

definition p_tready :: "psim \<Rightarrow> bool" where
  "p_tready s = pipe_ready (m_tready (pins (pdut s))) (vregs (pdut s))"

definition p_beat :: "psim \<Rightarrow> axis_beat" where
  "p_beat s = pipe_beat (fl_pipe (flow_inst (vregs (pdut s))))"

definition p_tvalid :: "psim \<Rightarrow> bool" where
  "p_tvalid s = pipe_valid (fl_pipe (flow_inst (vregs (pdut s))))"

definition p_taken :: "psim \<Rightarrow> bool" where
  "p_taken s \<longleftrightarrow> p_tvalid s \<and> m_tready (pins (pdut s))"

section \<open>Driving and capturing\<close>

definition beat_size :: "nat \<Rightarrow> u8 list \<Rightarrow> nat \<Rightarrow> nat" where
  "beat_size dw pkt pos = (if length pkt - pos < dw then length pkt - pos else dw)"

definition drive :: "nat \<Rightarrow> u8 list \<Rightarrow> nat \<Rightarrow> psim \<Rightarrow> psim" where
  "drive dw pkt pos s =
     (let nb = beat_size dw pkt pos
      in set_pipe (\<lambda>p. p\<lparr>s_tdata := set32 (s_tdata p) (drop pos pkt) nb, s_tkeep := keep_mask nb,
                         s_tlast := (pos + nb \<ge> length pkt), s_tvalid := True\<rparr>) s)"

text \<open>The bytes of an output beat as the benches read them: the lowest lanes, as many as \<open>tkeep\<close>
  has bits among the first \<open>dw\<close>.\<close>

definition beat_bytes :: "nat \<Rightarrow> axis_beat \<Rightarrow> u8 list" where
  "beat_bytes dw b = vlwide_get_bytes (tdata b) (keep_count dw (tkeep b))"

type_synonym 'a sink = "u8 list \<Rightarrow> bool \<Rightarrow> 'a \<Rightarrow> 'a"

definition capture :: "'a sink \<Rightarrow> nat \<Rightarrow> psim \<Rightarrow> 'a \<Rightarrow> 'a" where
  "capture f dw s a = (if p_taken s then f (beat_bytes dw (p_beat s)) (tlast (p_beat s)) a else a)"

partial_function (option) wait_ready :: "undet \<Rightarrow> psim \<Rightarrow> psim option" where
  "wait_ready u s = (if p_tready s then Some s else wait_ready u (psim_cycle u s))"

section \<open>Pushing a packet\<close>

text \<open>Capture, then drive.\<close>

partial_function (option) push_cd ::
  "undet \<Rightarrow> 'a sink \<Rightarrow> nat \<Rightarrow> u8 list \<Rightarrow> nat \<Rightarrow> psim \<Rightarrow> 'a \<Rightarrow> (psim \<times> 'a) option" where
  "push_cd u f dw pkt pos s a =
     (if pos < length pkt then
        let s = psim_pre u s;
            a = capture f dw s a;
            s = psim_post u (drive dw pkt pos s)
        in Option.bind (wait_ready u s) (\<lambda>s. push_cd u f dw pkt (pos + beat_size dw pkt pos) s a)
      else Some (s, a))"

text \<open>Drive, then capture.\<close>

partial_function (option) push_dc ::
  "undet \<Rightarrow> 'a sink \<Rightarrow> nat \<Rightarrow> u8 list \<Rightarrow> nat \<Rightarrow> psim \<Rightarrow> 'a \<Rightarrow> (psim \<times> 'a) option" where
  "push_dc u f dw pkt pos s a =
     (if pos < length pkt then
        let s = drive dw pkt pos (psim_pre u s);
            a = capture f dw s a
        in Option.bind (wait_ready u (psim_post u s))
             (\<lambda>s. push_dc u f dw pkt (pos + beat_size dw pkt pos) s a)
      else Some (s, a))"

text \<open>The cycle after the last beat, with \<open>s_tvalid\<close> low.\<close>

definition idle_capture :: "undet \<Rightarrow> 'a sink \<Rightarrow> nat \<Rightarrow> psim \<Rightarrow> 'a \<Rightarrow> psim \<times> 'a" where
  "idle_capture u f dw s a =
     (let s = psim_pre u s;
          s = set_pipe (\<lambda>p. p\<lparr>s_tvalid := False\<rparr>) s;
          a = capture f dw s a
      in (psim_post u s, a))"

text \<open>The drain that ends with a last beat, or when nothing is valid after an empty cycle.\<close>

fun drain_until_empty :: "undet \<Rightarrow> 'a sink \<Rightarrow> nat \<Rightarrow> nat \<Rightarrow> psim \<Rightarrow> 'a \<Rightarrow> psim \<times> 'a" where
  "drain_until_empty u f dw 0 s a = (s, a)"
| "drain_until_empty u f dw (Suc n) s a =
     (let s = psim_pre u s
      in if p_taken s then
           let l = tlast (p_beat s); a = f (beat_bytes dw (p_beat s)) l a; s = psim_post u s
           in if l then (s, a) else drain_until_empty u f dw n s a
         else
           let s = psim_post u s
           in if \<not> p_tvalid s then (s, a) else drain_until_empty u f dw n s a)"

section \<open>The queue in the pipeline\<close>

text \<open>What a bench can see of a beat.\<close>

definition shown :: "nat \<Rightarrow> axis_beat \<Rightarrow> u8 list \<times> bool" where
  "shown dw b = (beat_bytes dw b, tlast b)"

definition seen :: "nat \<Rightarrow> psim \<Rightarrow> (u8 list \<times> bool) option list" where
  "seen dw s = map (map_option (shown dw)) (slots (vregs (pdut s)))"

definition live :: "psim \<Rightarrow> bool" where
  "live s \<longleftrightarrow> pipe_inv (vregs (pdut s)) \<and> rst_n (pins (pdut s)) \<and> m_tready (pins (pdut s))"

definition clock_low :: "psim \<Rightarrow> bool" where
  "clock_low s \<longleftrightarrow> \<not> clk_prev (pdut s)"

lemma psim_simps [simp]:
  "vregs (pdut (psim_pre u s)) = vregs (pdut s)" "pins (pdut (psim_pre u s)) = pins (pdut s)"
  "clock_low (psim_pre u s)" "pins (pdut (psim_post u s)) = pins (pdut s)"
  "vregs (pdut (set_pipe h s)) = vregs (pdut s)" "pins (pdut (set_pipe h s)) = h (pins (pdut s))"
  "clock_low (set_pipe h s) = clock_low s"
  "cycles (psim_pre u s) = cycles s" "cycles (psim_post u s) = cycles s + 1" "cycles (set_pipe h s) = cycles s"
  by (simp_all add: psim_pre_def psim_post_def set_pipe_def clock_low_def edge)

lemma seen_simps [simp]:
  "seen dw (psim_pre u s) = seen dw s" "seen dw (set_pipe h s) = seen dw s"
  "live (psim_pre u s) = live s"
  by (simp_all add: seen_def live_def)

lemma vregs_post: "clock_low s \<Longrightarrow> vregs (pdut (psim_post u s)) = vstep u (pins (pdut s)) (vregs (pdut s))"
  by (simp add: psim_post_def clock_low_def edge)

lemma beat_bytes_view:
  assumes "dw \<le> 22"
  shows "beat_bytes dw (view b) = beat_bytes dw b"
proof -
  have "keep_count dw (tkeep b) \<le> 22"
    unfolding keep_count_def using assms length_filter_le [of _ "[0..<dw]"] le_trans by fastforce
  then show ?thesis
    using byte_at_take_bit [of 22 "tdata b"]
    by (auto simp: beat_bytes_def view_def vlwide_get_bytes_lanes)
qed

lemma shown_view: "dw \<le> 22 \<Longrightarrow> shown dw (view b) = shown dw b"
  by (simp add: shown_def beat_bytes_view) (simp add: view_def)

text \<open>One clock edge with a ready receiver shifts the queue.\<close>

lemma psim_cycle_simps [simp]:
  "vregs (pdut (psim_cycle u s)) = vstep u (pins (pdut s)) (vregs (pdut s))"
  "pins (pdut (psim_cycle u s)) = pins (pdut s)" "cycles (psim_cycle u s) = cycles s + 1"
  by (simp_all add: psim_cycle_def vregs_post)

lemma live_post: "clock_low s \<Longrightarrow> live s \<Longrightarrow> live (psim_post u s)"
  by (simp add: live_def vregs_post vstep_def pipe_inv_step)

lemma seen_post:
  assumes "clock_low s" "live s" "dw \<le> 22"
  shows "seen dw (psim_post u s) =
    (if s_tvalid (pins (pdut s)) then Some (shown dw (s_beat (pins (pdut s)))) else None) # butlast (seen dw s)"
proof -
  have "slots (vregs (pdut s)) \<noteq> []" by (simp add: slots_def)
  then show ?thesis
    using assms
    by (simp add: seen_def vregs_post vstep_def slots_step live_def line_step_True shown_view map_butlast)
qed

lemma last_seen:
  assumes "dw \<le> 22" "live s"
  shows "last (seen dw s) = (if p_taken s then Some (shown dw (p_beat s)) else None)"
  using assms by (simp add: seen_def slots_def slot_def p_taken_def p_tvalid_def p_beat_def live_def shown_view)

lemma live_valid: "live s \<Longrightarrow> p_tvalid s = p_taken s"
  by (simp add: p_taken_def live_def)

lemma length_seen [simp]: "length (seen dw s) = 8"
  by (simp add: seen_def slots_def)

lemma live_ready: "live s \<Longrightarrow> wait_ready u s = Some s"
  by (simp add: wait_ready.simps p_tready_def live_def ready_chain)

lemma capture_seen:
  assumes "dw \<le> 22" "live s"
  shows "capture f dw s a = (case last (seen dw s) of None \<Rightarrow> a | Some (bs, l) \<Rightarrow> f bs l a)"
  using last_seen [OF assms] by (simp add: capture_def shown_def)

lemma capture_cong:
  "vregs (pdut s) = vregs (pdut t) \<Longrightarrow> m_tready (pins (pdut s)) = m_tready (pins (pdut t)) \<Longrightarrow>
   capture f dw s a = capture f dw t a"
  by (simp add: capture_def p_taken_def p_tvalid_def p_beat_def)

section \<open>The loops move the queue\<close>

abbreviation sink_all :: "'a sink \<Rightarrow> (u8 list \<times> bool) list \<Rightarrow> 'a \<Rightarrow> 'a" where
  "sink_all f out a \<equiv> fold (\<lambda>(bs, l). f bs l) out a"

definition queue :: "(u8 list \<times> bool) list \<Rightarrow> (u8 list \<times> bool) option list" where
  "queue q = map Some (rev q) @ replicate (8 - length q) None"

lemma queue_Nil: "queue [] = replicate 8 None"
  by (simp add: queue_def)

lemma queue_room:
  assumes "length q < 8"
  shows "queue q = (map Some (rev q) @ replicate (7 - length q) None) @ [None]"
proof -
  have "8 - length q = Suc (7 - length q)" using assms by simp
  then show ?thesis by (simp only: queue_def replicate_Suc replicate_append_same append.assoc)
qed

lemma queue_snoc: "length q < 8 \<Longrightarrow> Some x # map Some (rev q) @ replicate (7 - length q) None = queue (q @ [x])"
  by (simp add: queue_def)

lemma queue_shift:
  assumes "length q \<le> 8"
  obtains out q' where "(case last (queue q) of None \<Rightarrow> a | Some (bs, l) \<Rightarrow> f bs l a) = sink_all f out a"
    "Some x # butlast (queue q) = queue q'" "length q' = min 8 (length q + 1)" "out @ q' = q @ [x]"
proof (cases "length q < 8")
  case True
  then have "last (queue q) = None" "Some x # butlast (queue q) = queue (q @ [x])"
    using queue_snoc [OF True, of x] by (simp_all only: queue_room last_snoc butlast_snoc)
  then show ?thesis using that [of "[]" "q @ [x]"] True by simp
next
  case False
  then have len: "length q = 8" using assms by simp
  then obtain y ys where q: "q = y # ys" by (cases q) auto
  then have "queue q = map Some (rev ys) @ [Some y]" using len by (simp add: queue_def)
  then show ?thesis using that [of "[y]" "ys @ [x]"] len by (simp add: q queue_def split: prod.split)
qed

lemma drive_pins:
  assumes "0 < dw" "dw \<le> 22" "pos < length pkt"
  shows "shown dw (s_beat (pins (pdut (drive dw pkt pos s)))) = (take dw (drop pos pkt), length (drop pos pkt) \<le> dw)"
    and "s_tvalid (pins (pdut (drive dw pkt pos s)))"
proof -
  define nb where "nb = beat_size dw pkt pos"
  have nb: "nb \<le> length (drop pos pkt)" "nb \<le> dw" "nb = min dw (length pkt - pos)"
    by (auto simp: nb_def beat_size_def)
  have "vlwide_get_bytes (set32 d (drop pos pkt) nb) nb = take nb (drop pos pkt)" for d
    using get_set_bytes [of nb "drop pos pkt" d] nb assms by simp
  moreover have "take nb (drop pos pkt) = take dw (drop pos pkt)"
    by (simp add: nb(3) min_def)
  moreover have "length pkt \<le> pos + nb \<longleftrightarrow> length (drop pos pkt) \<le> dw" using nb(3) assms by auto
  ultimately show "shown dw (s_beat (pins (pdut (drive dw pkt pos s)))) = (take dw (drop pos pkt), length (drop pos pkt) \<le> dw)"
    using keep_count_mask [of nb dw] nb(2) assms(2)
    by (simp add: shown_def beat_bytes_def drive_def s_beat_def Let_def flip: nb_def)
  show "s_tvalid (pins (pdut (drive dw pkt pos s)))" by (simp add: drive_def Let_def)
qed

lemma drive_simps [simp]:
  "vregs (pdut (drive dw pkt pos s)) = vregs (pdut s)" "clock_low (drive dw pkt pos s) = clock_low s"
  "live (drive dw pkt pos s) = live s" "seen dw' (drive dw pkt pos s) = seen dw' s"
  "cycles (drive dw pkt pos s) = cycles s" "m_tready (pins (pdut (drive dw pkt pos s))) = m_tready (pins (pdut s))"
  by (simp_all add: drive_def live_def Let_def)

text \<open>A round of the push loops.\<close>

lemma push_round:
  fixes s :: psim and u :: undet and f :: "'a sink" and a :: 'a and pkt :: "u8 list" and dw pos :: nat
  assumes "0 < dw" "dw \<le> 22" "live s" "seen dw s = queue q" "length q \<le> 8" "pos < length pkt"
  defines "s' \<equiv> psim_post u (drive dw pkt pos (psim_pre u s))"
  obtains out q' where "capture f dw (psim_pre u s) a = sink_all f out a"
    "seen dw s' = queue q'" "length q' = min 8 (length q + 1)"
    "out @ q' = q @ [(take dw (drop pos pkt), length (drop pos pkt) \<le> dw)]"
    "live s'" "cycles s' = cycles s + 1"
proof -
  obtain out q' where shift: "(case last (queue q) of None \<Rightarrow> a | Some (bs, l) \<Rightarrow> f bs l a) = sink_all f out a"
    "Some (take dw (drop pos pkt), length (drop pos pkt) \<le> dw) # butlast (queue q) = queue q'"
    "length q' = min 8 (length q + 1)" "out @ q' = q @ [(take dw (drop pos pkt), length (drop pos pkt) \<le> dw)]"
    using queue_shift [OF assms(5)] by metis
  show ?thesis
  proof (rule that [of out q'])
    show "capture f dw (psim_pre u s) a = sink_all f out a"
      using shift(1) assms(2-4) by (simp add: capture_seen)
    show "seen dw s' = queue q'"
      unfolding s'_def
      using drive_pins [OF assms(1,2,6), of "psim_pre u s"] assms(2-4) shift(2) by (simp add: seen_post)
    show "live s'" unfolding s'_def using assms(3) by (simp add: live_post)
  qed (use shift in \<open>simp_all add: s'_def\<close>)
qed

lemma packet_beats_at:
  assumes "0 < dw" "pos < length pkt"
  shows "packet_beats dw (drop pos pkt) =
    (take dw (drop pos pkt), length (drop pos pkt) \<le> dw) # packet_beats dw (drop (pos + beat_size dw pkt pos) pkt)"
proof -
  have "drop dw (drop pos pkt) = drop (pos + beat_size dw pkt pos) pkt"
    by (auto simp: beat_size_def add.commute)
  then show ?thesis using packet_beats_step [of dw "drop pos pkt"] assms by simp
qed

lemma beat_size_pos: "0 < dw \<Longrightarrow> pos < length pkt \<Longrightarrow> 0 < beat_size dw pkt pos"
  by (simp add: beat_size_def)

text \<open>What a push loop does, for both orders of driving and capturing.\<close>

definition pushed :: "nat \<Rightarrow> 'a sink \<Rightarrow> u8 list \<Rightarrow> nat \<Rightarrow> psim \<Rightarrow> 'a \<Rightarrow> (u8 list \<times> bool) list \<Rightarrow> (psim \<times> 'a) option \<Rightarrow> bool" where
  "pushed dw f pkt pos s a q res \<longleftrightarrow>
     (\<exists>s' out q'. res = Some (s', sink_all f out a) \<and> live s' \<and> seen dw s' = queue q' \<and>
        length q' = min 8 (length q + length (packet_beats dw (drop pos pkt))) \<and>
        out @ q' = q @ packet_beats dw (drop pos pkt) \<and>
        cycles s' = cycles s + of_nat (length (packet_beats dw (drop pos pkt))))"

lemma pushed_end:
  "live s \<Longrightarrow> seen dw s = queue q \<Longrightarrow> length q \<le> 8 \<Longrightarrow> length pkt \<le> pos \<Longrightarrow> pushed dw f pkt pos s a q (Some (s, a))"
  unfolding pushed_def by (rule exI [of _ s], rule exI [of _ "[]"], rule exI [of _ q]) simp

lemma pushed_step:
  assumes "0 < dw" "pos < length pkt"
    "pushed dw f pkt (pos + beat_size dw pkt pos) s1 (sink_all f out1 a) q1 res"
    "length q1 = min 8 (length q + 1)" "out1 @ q1 = q @ [(take dw (drop pos pkt), length (drop pos pkt) \<le> dw)]"
    "cycles s1 = cycles s + 1"
  shows "pushed dw f pkt pos s a q res"
proof -
  note beats = packet_beats_at [OF assms(1,2)]
  obtain s' out q' where r: "res = Some (s', sink_all f out (sink_all f out1 a))" "live s'" "seen dw s' = queue q'"
    "length q' = min 8 (length q1 + length (packet_beats dw (drop (pos + beat_size dw pkt pos) pkt)))"
    "out @ q' = q1 @ packet_beats dw (drop (pos + beat_size dw pkt pos) pkt)"
    "cycles s' = cycles s1 + of_nat (length (packet_beats dw (drop (pos + beat_size dw pkt pos) pkt)))"
    using assms(3) unfolding pushed_def by blast
  have "res = Some (s', sink_all f (out1 @ out) a)" using r(1) by simp
  moreover have "(out1 @ out) @ q' = q @ packet_beats dw (drop pos pkt)"
    using r(5) assms(5) unfolding beats by (metis append.assoc append_Cons append_Nil)
  moreover have "length q' = min 8 (length q + length (packet_beats dw (drop pos pkt)))"
    unfolding beats using r(4) assms(4) by simp
  moreover have "cycles s' = cycles s + of_nat (length (packet_beats dw (drop pos pkt)))"
    unfolding beats using r(6) assms(6) by simp
  ultimately show ?thesis unfolding pushed_def using r(2,3) by blast
qed

lemma push_cd_pushed:
  assumes "0 < dw" "dw \<le> 22" "live s" "seen dw s = queue q" "length q \<le> 8"
  shows "pushed dw f pkt pos s a q (push_cd u f dw pkt pos s a)"
  using assms(3-5)
proof (induction "length pkt - pos" arbitrary: pos s a q rule: less_induct)
  case less
  show ?case
  proof (cases "pos < length pkt")
    case False
    then show ?thesis
      using pushed_end [OF less.prems, of pkt pos f a] by (simp add: push_cd.simps [of u f dw pkt pos])
  next
    case True
    obtain out1 q1 where 1: "capture f dw (psim_pre u s) a = sink_all f out1 a"
      "seen dw (psim_post u (drive dw pkt pos (psim_pre u s))) = queue q1" "length q1 = min 8 (length q + 1)"
      "out1 @ q1 = q @ [(take dw (drop pos pkt), length (drop pos pkt) \<le> dw)]"
      "live (psim_post u (drive dw pkt pos (psim_pre u s)))"
      "cycles (psim_post u (drive dw pkt pos (psim_pre u s))) = cycles s + 1"
      using push_round [OF assms(1,2) less.prems True] by metis
    have "pushed dw f pkt (pos + beat_size dw pkt pos) (psim_post u (drive dw pkt pos (psim_pre u s)))
        (sink_all f out1 a) q1 (push_cd u f dw pkt (pos + beat_size dw pkt pos)
          (psim_post u (drive dw pkt pos (psim_pre u s))) (sink_all f out1 a))"
      using beat_size_pos [OF assms(1) True] True 1 by (intro less.hyps) auto
    from pushed_step [OF assms(1) True this 1(3,4,6)] show ?thesis
      using True 1 by (simp add: push_cd.simps [of u f dw pkt pos] Let_def live_ready)
  qed
qed

lemma capture_drive: "capture f dw' (drive dw pkt pos s) a = capture f dw' s a"
  by (rule capture_cong) simp_all

lemma push_dc_pushed:
  assumes "0 < dw" "dw \<le> 22" "live s" "seen dw s = queue q" "length q \<le> 8"
  shows "pushed dw f pkt pos s a q (push_dc u f dw pkt pos s a)"
  using assms(3-5)
proof (induction "length pkt - pos" arbitrary: pos s a q rule: less_induct)
  case less
  show ?case
  proof (cases "pos < length pkt")
    case False
    then show ?thesis
      using pushed_end [OF less.prems, of pkt pos f a] by (simp add: push_dc.simps [of u f dw pkt pos])
  next
    case True
    obtain out1 q1 where 1: "capture f dw (psim_pre u s) a = sink_all f out1 a"
      "seen dw (psim_post u (drive dw pkt pos (psim_pre u s))) = queue q1" "length q1 = min 8 (length q + 1)"
      "out1 @ q1 = q @ [(take dw (drop pos pkt), length (drop pos pkt) \<le> dw)]"
      "live (psim_post u (drive dw pkt pos (psim_pre u s)))"
      "cycles (psim_post u (drive dw pkt pos (psim_pre u s))) = cycles s + 1"
      using push_round [OF assms(1,2) less.prems True] by metis
    have "pushed dw f pkt (pos + beat_size dw pkt pos) (psim_post u (drive dw pkt pos (psim_pre u s)))
        (sink_all f out1 a) q1 (push_dc u f dw pkt (pos + beat_size dw pkt pos)
          (psim_post u (drive dw pkt pos (psim_pre u s))) (sink_all f out1 a))"
      using beat_size_pos [OF assms(1) True] True 1 by (intro less.hyps) auto
    from pushed_step [OF assms(1) True this 1(3,4,6)] show ?thesis
      using True 1 by (simp add: push_dc.simps [of u f dw pkt pos] Let_def live_ready capture_drive)
  qed
qed

text \<open>The cycle after the packet leaves one empty slot at the input.\<close>

definition trailing :: "nat \<Rightarrow> (u8 list \<times> bool) option list \<Rightarrow> (u8 list \<times> bool) list \<Rightarrow> nat \<Rightarrow> psim \<Rightarrow> bool" where
  "trailing dw xs q c s \<longleftrightarrow> live s \<and> seen dw s = xs @ map Some (rev q) @ replicate c None"

lemma idle_trailing:
  assumes "dw \<le> 22" "live s" "seen dw s = queue q" "length q \<le> 8"
  obtains s' out q' where "idle_capture u f dw s a = (s', sink_all f out a)" "out @ q' = q"
    "trailing dw [None] q' (7 - length q) s'" "length q' = min 7 (length q)"
    "\<not> s_tvalid (pins (pdut s'))" "cycles s' = cycles s + 1"
proof -
  let ?s' = "psim_post u (set_pipe (\<lambda>p. p\<lparr>s_tvalid := False\<rparr>) (psim_pre u s))"
  have live: "live (set_pipe (\<lambda>p. p\<lparr>s_tvalid := False\<rparr>) (psim_pre u s))" using assms(2) by (simp add: live_def)
  then have live': "live ?s'" by (simp add: live_post)
  have seen: "seen dw ?s' = None # butlast (queue q)" using assms live by (simp add: seen_post)
  have cap: "idle_capture u f dw s a = (?s', case last (queue q) of None \<Rightarrow> a | Some (bs, l) \<Rightarrow> f bs l a)"
    using assms(1,3) live by (simp add: idle_capture_def Let_def capture_seen)
  show ?thesis
  proof (cases "length q < 8")
    case True
    have "last (queue q) = None" "butlast (queue q) = map Some (rev q) @ replicate (7 - length q) None"
      using True
      by (simp_all only: queue_room last_snoc butlast_snoc)
    show ?thesis
      by (rule that [of ?s' "[]" q]) (use \<open>last (queue q) = None\<close> \<open>butlast (queue q) = _\<close> cap seen live' True
        in \<open>simp_all add: trailing_def\<close>)
  next
    case False
    then have len: "length q = 8" using assms by simp
    then obtain y ys where q: "q = y # ys" by (cases q) auto
    then have "queue q = map Some (rev ys) @ [Some y]" using len by (simp add: queue_def)
    then show ?thesis
      by (intro that [of ?s' "[y]" ys]) (use cap seen live' len in \<open>simp_all add: trailing_def q split_def\<close>)
  qed
qed

text \<open>A step of a drain: the input \<open>i\<close> stays as it is.\<close>

definition input_of :: "nat \<Rightarrow> psim \<Rightarrow> (u8 list \<times> bool) option" where
  "input_of dw s = (if s_tvalid (pins (pdut s)) then Some (shown dw (s_beat (pins (pdut s)))) else None)"

lemma drain_valid:
  assumes "dw \<le> 22" "trailing dw xs (b # q) 0 s"
  shows "p_taken (psim_pre u s)" "beat_bytes dw (p_beat (psim_pre u s)) = fst b" "tlast (p_beat (psim_pre u s)) = snd b"
    "trailing dw (input_of dw s # xs) q 0 (psim_cycle u s)" "input_of dw (psim_cycle u s) = input_of dw s"
    "cycles (psim_cycle u s) = cycles s + 1"
proof -
  have live: "live (psim_pre u s)" using assms(2) by (simp add: trailing_def)
  have "last (seen dw (psim_pre u s)) = Some b" using assms(2) by (simp add: trailing_def)
  then have "p_taken (psim_pre u s) \<and> shown dw (p_beat (psim_pre u s)) = b"
    using last_seen [OF assms(1) live] by (auto split: if_splits)
  then show "p_taken (psim_pre u s)" "beat_bytes dw (p_beat (psim_pre u s)) = fst b" "tlast (p_beat (psim_pre u s)) = snd b"
    by (auto simp: shown_def)
  show "trailing dw (input_of dw s # xs) q 0 (psim_cycle u s)"
    using seen_post [of "psim_pre u s" dw u] assms live
    by (simp add: trailing_def psim_cycle_def live_post input_of_def butlast_append)
qed (simp_all add: psim_cycle_def input_of_def)

lemma drain_bubble:
  assumes "dw \<le> 22" "trailing dw xs q (Suc c) s"
  shows "\<not> p_taken (psim_pre u s)" "trailing dw (input_of dw s # xs) q c (psim_cycle u s)"
    "input_of dw (psim_cycle u s) = input_of dw s" "cycles (psim_cycle u s) = cycles s + 1"
proof -
  have live: "live (psim_pre u s)" using assms(2) by (simp add: trailing_def)
  have seen: "seen dw s = (xs @ map Some (rev q) @ replicate c None) @ [None]"
    using assms(2) by (simp add: trailing_def replicate_append_same)
  then show "\<not> p_taken (psim_pre u s)"
    using last_seen [OF assms(1) live] by (auto split: if_splits)
  show "trailing dw (input_of dw s # xs) q c (psim_cycle u s)"
    using seen_post [of "psim_pre u s" dw u] assms(1) live seen
    by (simp add: trailing_def psim_cycle_def live_post input_of_def butlast_append)
qed (simp_all add: psim_cycle_def input_of_def)

lemma replicate_cons: "replicate (Suc n) x @ xs = replicate n x @ x # xs"
  by (simp add: replicate_app_Cons_same)

text \<open>The drain of a packet whose first beat is at the output, or one step from it.\<close>

lemma drain_valid_run:
  assumes "dw \<le> 22" "trailing dw xs q 0 s" "ends q" "length q \<le> n"
  shows "\<exists>s'. drain_until_empty u f dw n s a = (s', sink_all f q a) \<and>
    trailing dw (replicate (length q) (input_of dw s) @ xs) [] 0 s' \<and>
    input_of dw s' = input_of dw s \<and> cycles s' = cycles s + of_nat (length q)"
  using assms(2-4)
proof (induction n arbitrary: xs q s a)
  case 0
  then show ?case by (simp add: ends_def)
next
  case (Suc n)
  obtain b q' where q: "q = b # q'" using Suc.prems(2) by (cases q) (auto simp: ends_def)
  note step = drain_valid [OF assms(1) Suc.prems(1) [unfolded q], of u]
  have unfold: "drain_until_empty u f dw (Suc n) s a =
      (if snd b then (psim_cycle u s, f (fst b) (snd b) a) else drain_until_empty u f dw n (psim_cycle u s) (f (fst b) (snd b) a))"
    using step(1-3) by (simp add: Let_def psim_cycle_def)
  show ?case
  proof (cases "q' = []")
    case True
    then have "snd b" using Suc.prems(2) by (simp add: ends_def q)
    then show ?thesis
      unfolding unfold using True step(4-6) by (simp add: q split_def)
  next
    case False
    then have ends: "ends q'" "\<not> snd b" using Suc.prems(2) ends_suffix [of "[b]" q'] by (auto simp: ends_def q)
    have len: "length q' \<le> n" using Suc.prems(3) by (simp add: q)
    obtain s' where s': "drain_until_empty u f dw n (psim_cycle u s) (f (fst b) (snd b) a) = (s', sink_all f q' (f (fst b) (snd b) a))"
      "trailing dw (replicate (length q') (input_of dw s) @ input_of dw s # xs) [] 0 s'"
      "input_of dw s' = input_of dw s" "cycles s' = cycles s + 1 + of_nat (length q')"
      using Suc.IH [OF step(4) ends(1) len, of "f (fst b) (snd b) a"] unfolding step(5,6) by blast
    have "drain_until_empty u f dw (Suc n) s a = (s', sink_all f q a)"
      unfolding unfold using s'(1) ends(2) by (simp add: q split_def)
    moreover have "cycles s' = cycles s + of_nat (length q)" using s'(4) by (simp add: q)
    moreover have "trailing dw (replicate (length q) (input_of dw s) @ xs) [] 0 s'"
      using s'(2) by (simp only: q replicate_cons list.size(4) add_Suc_right add_0_right)
    ultimately show ?thesis using s'(3) by blast
  qed
qed

lemma drain_until_empty_run:
  assumes "dw \<le> 22" "trailing dw xs q c s" "c \<le> 1" "ends q" "length q < n"
  obtains s' where "drain_until_empty u f dw n s a = (s', sink_all f q a)"
    "trailing dw (replicate (length q + c) (input_of dw s) @ xs) [] 0 s'"
    "input_of dw s' = input_of dw s" "cycles s' = cycles s + of_nat (length q + c)"
proof (cases "c = 0")
  case True
  then show ?thesis using drain_valid_run [of dw xs q s n u f a] assms that by (auto simp del: fold_Cons)
next
  case False
  then have c: "c = Suc 0" using assms(3) by simp
  obtain m where n: "n = Suc m" using assms(5) by (cases n) auto
  note step = drain_bubble [OF assms(1) assms(2) [unfolded c], of u]
  obtain b q' where q: "q = b # q'" using assms(4) by (cases q) (auto simp: ends_def)
  obtain s' where s': "drain_until_empty u f dw m (psim_cycle u s) a = (s', sink_all f q a)"
    "trailing dw (replicate (length q) (input_of dw s) @ input_of dw s # xs) [] 0 s'"
    "input_of dw s' = input_of dw s" "cycles s' = cycles s + 1 + of_nat (length q)"
    using drain_valid_run [OF assms(1) step(2) assms(4), of m u f a] assms(5) unfolding step(3,4) n by auto
  have "live (psim_cycle u s)" using step(2) by (simp add: trailing_def)
  then have "p_tvalid (psim_cycle u s)"
    using drain_valid(1) [OF assms(1) step(2) [unfolded q], of u] live_valid [of "psim_cycle u s"]
    by (simp add: p_taken_def p_tvalid_def)
  then have "drain_until_empty u f dw n s a = (s', sink_all f q a)"
    using step(1) s'(1) by (simp add: n Let_def psim_cycle_def)
  moreover have "trailing dw (replicate (length q + c) (input_of dw s) @ xs) [] 0 s'"
    using s'(2) by (simp only: c replicate_cons add_Suc_right add_0_right)
  moreover have "cycles s' = cycles s + of_nat (length q + c)" using s'(4) by (simp add: c)
  ultimately show ?thesis using that s'(3) by blast
qed

section \<open>A packet through the pipeline\<close>

text \<open>An idle simulation: out of reset, and nothing in the pipeline.\<close>

definition idle :: "psim \<Rightarrow> bool" where
  "idle s \<longleftrightarrow> pipe_inv (vregs (pdut s)) \<and> rst_n (pins (pdut s)) \<and> slots (vregs (pdut s)) = replicate 8 None \<and>
     \<not> s_tvalid (pins (pdut s))"

definition set_ready :: "bool \<Rightarrow> psim \<Rightarrow> psim" where
  "set_ready r s = set_pipe (\<lambda>p. p\<lparr>m_tready := r\<rparr>) s"

lemma set_ready_simps [simp]:
  "idle (set_ready r s) = idle s" "cycles (set_ready r s) = cycles s"
  "m_tready (pins (pdut (set_ready r s))) = r" "s_tvalid (pins (pdut (set_ready r s))) = s_tvalid (pins (pdut s))"
  by (simp_all add: idle_def set_ready_def)

lemma idle_ready: "idle s \<Longrightarrow> live (set_ready True s) \<and> seen dw (set_ready True s) = queue []"
  by (simp add: idle_def live_def seen_def set_ready_def queue_Nil)

lemma idle_live: "idle s \<Longrightarrow> m_tready (pins (pdut s)) \<Longrightarrow> live s"
  by (simp add: idle_def live_def)

text \<open>Reset makes any simulation idle whose \<open>s_tvalid\<close> is low.\<close>

lemma reset_cycles:
  fixes u :: undet and s :: psim
  assumes "\<not> rst_n (pins (pdut s))" "0 < n"
  defines "s' \<equiv> (psim_cycle u ^^ n) s"
  shows "pipe_inv (vregs (pdut s')) \<and> slots (vregs (pdut s')) = replicate 8 None \<and> pins (pdut s') = pins (pdut s) \<and>
    cycles s' = cycles s + of_nat n"
  using assms(2) unfolding s'_def
proof (induction n)
  case (Suc n)
  have pins: "pins (pdut ((psim_cycle u ^^ n) s)) = pins (pdut s)" for n
    by (induction n) simp_all
  have cyc: "cycles ((psim_cycle u ^^ n) s) = cycles s + of_nat n" for n
    by (induction n) simp_all
  show ?case
    using reset_step [of "pins (pdut s)" "fst u" "snd u"] assms(1) pins [of n] cyc [of n]
    by (simp add: vstep_def)
qed simp

lemma line_step_idle: "line_step None r (replicate n None) = replicate n None"
  by (induction n) simp_all

lemma reset_idle:
  assumes "0 < n" "\<not> s_tvalid (pins (pdut s))"
  shows "idle (psim_reset u n s)" "cycles (psim_reset u n s) = cycles s + of_nat n + 1"
    "m_tready (pins (pdut (psim_reset u n s))) = m_tready (pins (pdut s))"
proof -
  let ?s = "set_pipe (\<lambda>p. p\<lparr>rst_n := False\<rparr>) s"
  have "\<not> rst_n (pins (pdut ?s))" by simp
  note r = reset_cycles [OF this assms(1), of u]
  then show "idle (psim_reset u n s)"
    using assms(2)
    by (simp add: psim_reset_def Let_def idle_def vstep_def pipe_inv_step slots_step line_step_idle)
  show "cycles (psim_reset u n s) = cycles s + of_nat n + 1"
    "m_tready (pins (pdut (psim_reset u n s))) = m_tready (pins (pdut s))"
    using r by (simp_all add: psim_reset_def Let_def)
qed

lemma new_reset_idle: "0 < n \<Longrightarrow> idle (psim_reset u n (psim_new p))"
  by (rule reset_idle) (simp_all add: psim_new_def pipe_pins0_def edge)

text \<open>A whole packet: push, idle cycle, drain. The files differ in the order within the push.\<close>

definition send_cd :: "undet \<Rightarrow> 'a sink \<Rightarrow> nat \<Rightarrow> nat \<Rightarrow> u8 list \<Rightarrow> psim \<Rightarrow> 'a \<Rightarrow> (psim \<times> 'a) option" where
  "send_cd u f dw timeout pkt s a =
     Option.bind (push_cd u f dw pkt 0 (set_ready True s) a)
       (\<lambda>(s, a). let (s, a) = idle_capture u f dw s a in Some (drain_until_empty u f dw timeout s a))"

definition send_dc :: "undet \<Rightarrow> 'a sink \<Rightarrow> nat \<Rightarrow> nat \<Rightarrow> u8 list \<Rightarrow> psim \<Rightarrow> 'a \<Rightarrow> (psim \<times> 'a) option" where
  "send_dc u f dw timeout pkt s a =
     Option.bind (push_dc u f dw pkt 0 (set_ready True s) a)
       (\<lambda>(s, a). let (s, a) = idle_capture u f dw s a in Some (drain_until_empty u f dw timeout s a))"

lemma drained_idle:
  assumes "trailing dw (replicate n None) [] 0 s" "n = 8" "\<not> s_tvalid (pins (pdut s))"
  shows "idle s"
proof -
  have "map (map_option (shown dw)) (slots (vregs (pdut s))) = replicate 8 None"
    using assms(1,2) by (simp add: trailing_def seen_def)
  then have "slots (vregs (pdut s)) = replicate 8 None"
    by (auto simp: list_eq_iff_nth_eq)
  then show ?thesis using assms(1,3) by (simp add: idle_def trailing_def live_def)
qed

lemma tail_of_packet:
  assumes "0 < dw" "dw \<le> 22" "6 \<le> length (packet_beats dw pkt)" "8 < timeout"
    "pushed dw f pkt 0 s a [] res" "pkt \<noteq> []"
  obtains s' where "Option.bind res (\<lambda>(s, a). let (s, a) = idle_capture u f dw s a in Some (drain_until_empty u f dw timeout s a)) =
      Some (s', sink_all f (packet_beats dw pkt) a)"
    "idle s'" "live s'" "cycles s' = cycles s + of_nat (length (packet_beats dw pkt)) + 8"
proof -
  obtain s1 out1 q1 where 1: "res = Some (s1, sink_all f out1 a)" "live s1" "seen dw s1 = queue q1"
    "length q1 = min 8 (length (packet_beats dw pkt))" "out1 @ q1 = packet_beats dw pkt"
    "cycles s1 = cycles s + of_nat (length (packet_beats dw pkt))"
    using assms(5) by (auto simp: pushed_def)
  obtain s2 out2 q2 where 2: "idle_capture u f dw s1 (sink_all f out1 a) = (s2, sink_all f out2 (sink_all f out1 a))"
    "out2 @ q2 = q1" "trailing dw [None] q2 (7 - length q1) s2" "length q2 = min 7 (length q1)"
    "\<not> s_tvalid (pins (pdut s2))" "cycles s2 = cycles s1 + 1"
    using idle_trailing [OF assms(2) 1(2,3)] 1(4) by (metis min.cobounded1)
  have split: "packet_beats dw pkt = (out1 @ out2) @ q2" using 1(5) 2(2) by simp
  have len: "6 \<le> length q2" "7 - length q1 \<le> 1" "length q2 < timeout" "length q2 + (7 - length q1) = 7"
    using 1(4) 2(4) assms(3,4) by auto
  have "q2 \<noteq> []" using len(1) by auto
  then have "ends q2" using ends_packet [OF assms(1,6)] unfolding split by (blast intro: ends_suffix)
  then obtain s3 where 3: "drain_until_empty u f dw timeout s2 (sink_all f out2 (sink_all f out1 a)) =
      (s3, sink_all f q2 (sink_all f out2 (sink_all f out1 a)))"
    "trailing dw (replicate 7 (input_of dw s2) @ [None]) [] 0 s3"
    "input_of dw s3 = input_of dw s2" "cycles s3 = cycles s2 + 7"
    using drain_until_empty_run [OF assms(2) 2(3) len(2) _ len(3), of u f] unfolding len(4)
    by (metis of_nat_numeral)
  have low: "input_of dw s2 = None" using 2(5) by (simp add: input_of_def)
  then have "\<not> s_tvalid (pins (pdut s3))" using 3(3) by (auto simp: input_of_def split: if_splits)
  moreover have "trailing dw (replicate 8 None) [] 0 s3"
    using 3(2) by (simp add: low eval_nat_numeral)
  ultimately have "idle s3" using drained_idle by blast
  moreover have "live s3" using 3(2) by (simp add: trailing_def)
  moreover have "Option.bind res (\<lambda>(s, a). let (s, a) = idle_capture u f dw s a in Some (drain_until_empty u f dw timeout s a)) =
      Some (s3, sink_all f (packet_beats dw pkt) a)"
    by (simp add: 1(1) 2(1) 3(1) split)
  moreover have "cycles s3 = cycles s + of_nat (length (packet_beats dw pkt)) + 8"
    using 1(6) 2(6) 3(4) by simp
  ultimately show ?thesis using that by blast
qed

lemma six_beats: "0 < dw \<Longrightarrow> 5 * dw < length pkt \<Longrightarrow> 6 \<le> length (packet_beats dw pkt)"
  by (simp add: length_packet_beats less_eq_div_iff_mult_less_eq)

text \<open>A packet of more than five beats goes through and leaves the pipeline empty.\<close>

lemma send_through:
  assumes "0 < dw" "dw \<le> 22" "5 * dw < length pkt" "8 < timeout" "idle s"
  shows "\<exists>s'. send_cd u f dw timeout pkt s a = Some (s', sink_all f (packet_beats dw pkt) a) \<and> idle s' \<and> live s'"
    and "\<exists>s'. send_dc u f dw timeout pkt s a = Some (s', sink_all f (packet_beats dw pkt) a) \<and> idle s' \<and> live s'"
proof -
  note six = six_beats [OF assms(1,3)]
  have ne: "pkt \<noteq> []" using assms(3) by auto
  have start: "live (set_ready True s)" "seen dw (set_ready True s) = queue []" "length ([] :: (u8 list \<times> bool) list) \<le> 8"
    using idle_ready [OF assms(5)] by auto
  show "\<exists>s'. send_cd u f dw timeout pkt s a = Some (s', sink_all f (packet_beats dw pkt) a) \<and> idle s' \<and> live s'"
    using tail_of_packet [OF assms(1,2) six assms(4) push_cd_pushed [OF assms(1,2) start] ne]
    unfolding send_cd_def by metis
  show "\<exists>s'. send_dc u f dw timeout pkt s a = Some (s', sink_all f (packet_beats dw pkt) a) \<and> idle s' \<and> live s'"
    using tail_of_packet [OF assms(1,2) six assms(4) push_dc_pushed [OF assms(1,2) start] ne]
    unfolding send_dc_def by metis
qed

text \<open>The sink of most benches appends the bytes to a vector.\<close>

definition append_rx :: "u8 list sink" where
  "append_rx bs l rx = rx @ bs"

lemma sink_append_rx: "sink_all append_rx out rx = rx @ concat (map fst out)"
  by (induction out arbitrary: rx) (auto simp: append_rx_def)

lemma send_bytes:
  assumes "0 < dw" "dw \<le> 22" "5 * dw < length pkt" "8 < timeout" "idle s"
  shows "\<exists>s'. send_cd u append_rx dw timeout pkt s rx = Some (s', rx @ pkt) \<and> idle s' \<and> live s'"
  using send_through(1) [OF assms, of u append_rx rx] by (simp add: sink_append_rx packet_bytes [OF assms(1)])

section \<open>Loops and packets of the benches\<close>

text \<open>\<open>for (int i = a; i < a + n; i++)\<close> around a body that may not return.\<close>

fun for_loop :: "(nat \<Rightarrow> 'st \<Rightarrow> 'st option) \<Rightarrow> nat \<Rightarrow> nat \<Rightarrow> 'st \<Rightarrow> 'st option" where
  "for_loop body i 0 st = Some st"
| "for_loop body i (Suc n) st = Option.bind (body i st) (for_loop body (Suc i) n)"

lemma for_loop_inv:
  assumes "P i st" "\<And>i st. P i st \<Longrightarrow> \<exists>st'. body i st = Some st' \<and> P (Suc i) st'"
  shows "\<exists>st'. for_loop body i n st = Some st' \<and> P (i + n) st'"
  using assms(1)
proof (induction n arbitrary: i st)
  case (Suc n)
  then obtain st' where "body i st = Some st'" "P (Suc i) st'" using assms(2) by blast
  then show ?case using Suc.IH [of "Suc i" st'] by simp
qed simp

definition bench_sm :: "u8 list" where "bench_sm = [0x02, 0, 0, 0, 0, 1]"
definition bench_dm :: "u8 list" where "bench_dm = [0x02, 0, 0, 0, 0, 2]"

text \<open>The packets between the two fixed hosts of the benches.\<close>

definition bench_udp :: "ipv4_hdr \<Rightarrow> u16 \<Rightarrow> u16 \<Rightarrow> u8 list \<Rightarrow> packet_gen \<Rightarrow> u8 list \<times> packet_gen" where
  "bench_udp h0 sp dp payload g = make_udp_packet h0 bench_sm bench_dm 0xC0A80001 0xC0A80002 sp dp payload g"

definition bench_tcp :: "ipv4_hdr \<Rightarrow> u16 \<Rightarrow> u16 \<Rightarrow> u8 list \<Rightarrow> packet_gen \<Rightarrow> u8 list \<times> packet_gen" where
  "bench_tcp h0 sp dp payload g =
     make_tcp_packet h0 bench_sm bench_dm 0xC0A80001 0xC0A80002 sp dp payload 0x02 g"

definition bench_arp :: "u8 list" where
  "bench_arp = make_arp_packet bench_sm bench_dm 0xC0A80001 0xC0A80002"

definition new_gen :: packet_gen where
  "new_gen = \<lparr>ip_id_counter = 0\<rparr>"

lemma bench_macs [simp]: "length bench_sm = 6" "length bench_dm = 6"
  by (simp_all add: bench_sm_def bench_dm_def)

lemma length_packets [simp]:
  "length sm = 6 \<Longrightarrow> length dm = 6 \<Longrightarrow> length (fst (make_udp_packet h0 sm dm sip dip sp dp payload g)) = 42 + length payload"
  "length sm = 6 \<Longrightarrow> length dm = 6 \<Longrightarrow> length (fst (make_tcp_packet h0 sm dm sip dip sp dp payload fl g)) = 54 + length payload"
  "length sm = 6 \<Longrightarrow> length dm = 6 \<Longrightarrow> length (make_arp_packet sm dm sip dip) = 42"
  by (simp_all add: make_udp_wire make_tcp_wire make_arp_wire eth_wire_def)

lemma length_bench [simp]:
  "length (fst (bench_udp h0 sp dp payload g)) = 42 + length payload"
  "length (fst (bench_tcp h0 sp dp payload g)) = 54 + length payload"
  "length bench_arp = 42"
  by (simp_all add: bench_udp_def bench_tcp_def bench_arp_def)

end
