(* ===== verification/Tb_Stress.thy ===== *)
theory Tb_Stress
  imports Pipeline_Sim
begin

text \<open>
  The stress bench \<open>sim/testbenches/tb_stress.cpp\<close>: four blocks of packets through the pipeline,
  compared by size. \<open>pull_beat\<close> is not called by the bench.
\<close>

section \<open>The bench\<close>

definition stress_push_and_capture ::
  "undet \<Rightarrow> u8 list \<Rightarrow> nat \<Rightarrow> psim \<Rightarrow> u8 list \<Rightarrow> (psim \<times> u8 list) option" where
  "stress_push_and_capture u pkt dw s rx = send_cd u append_rx dw 100000 pkt s rx"

definition pull_beat :: "undet \<Rightarrow> nat \<Rightarrow> psim \<Rightarrow> psim \<times> (u8 list \<times> bool) option" where
  "pull_beat u dw s =
     (let s = psim_pre u s
      in if p_tvalid s then
           let s = set_ready True s
           in (psim_post u s, Some (beat_bytes dw (p_beat s), tlast (p_beat s)))
         else (psim_post u (set_ready False s), None))"

text \<open>One packet of a block: the state is the simulation, the generator and the counters \<open>fail\<close> and
  \<open>total_pkts\<close>.\<close>

type_synonym stress_state = "psim \<times> packet_gen \<times> int \<times> int"

definition stress_packet ::
  "undet \<Rightarrow> (nat \<Rightarrow> packet_gen \<Rightarrow> u8 list \<times> packet_gen) \<Rightarrow> nat \<Rightarrow> stress_state \<Rightarrow> stress_state option" where
  "stress_packet u mk i st =
     (case st of (s, g, failed, tot) \<Rightarrow>
        let (pkt, g) = mk i g
        in Option.bind (stress_push_and_capture u pkt 8 s [])
             (\<lambda>(s, rx). Some (s, g, if length rx \<noteq> length pkt then failed + 1 else failed, tot + 1)))"

text \<open>The packets of the four blocks.\<close>

definition stress_small :: "ipv4_hdr \<Rightarrow> nat \<Rightarrow> packet_gen \<Rightarrow> u8 list \<times> packet_gen" where
  "stress_small h0 i g =
     bench_udp h0 (of_nat (100 + i)) (of_nat (200 + i)) (replicate 20 (of_nat i AND 0xFF)) g"

definition stress_mixed :: "ipv4_hdr \<Rightarrow> nat \<Rightarrow> packet_gen \<Rightarrow> u8 list \<times> packet_gen" where
  "stress_mixed h0 i g =
     (if i mod 3 = 0 then bench_tcp h0 80 55555 (replicate 30 (of_nat i AND 0xFF)) g
      else if i mod 3 = 1 then (bench_arp, g)
      else bench_udp h0 53 1234 (replicate 15 (of_nat i AND 0xFF)) g)"

definition stress_jumbo :: "ipv4_hdr \<Rightarrow> nat \<Rightarrow> packet_gen \<Rightarrow> u8 list \<times> packet_gen" where
  "stress_jumbo h0 i g =
     bench_udp h0 (of_nat (100 + i)) (of_nat (200 + i)) (replicate 1450 (of_nat i AND 0xFF)) g"

definition stress_batched :: "ipv4_hdr \<Rightarrow> nat \<Rightarrow> packet_gen \<Rightarrow> u8 list \<times> packet_gen" where
  "stress_batched h0 p g = bench_tcp h0 80 55555 (replicate 30 (of_nat p)) g"

text \<open>A block has its own \<open>Sim\<close>, whose power-on state is \<open>p\<close>; \<open>n\<close> is the number of its packets. The
  outer state is the generator with \<open>total_pkts\<close> and \<open>ok_pkts\<close>.\<close>

type_synonym stress_totals = "packet_gen \<times> int \<times> int"

definition stress_block ::
  "undet \<Rightarrow> pipeline \<Rightarrow> int \<Rightarrow> (stress_state \<Rightarrow> stress_state option) \<Rightarrow> stress_totals \<Rightarrow> stress_totals option" where
  "stress_block u p n loop t =
     (case t of (g, tot, ok) \<Rightarrow>
        Option.bind (loop (psim_reset u 8 (psim_new p), g, 0, tot))
          (\<lambda>(s, g, failed, tot). Some (g, tot, ok + (n - failed))))"

definition tb_stress_main :: "undet \<Rightarrow> ipv4_hdr \<Rightarrow> (nat \<Rightarrow> pipeline) \<Rightarrow> (int \<times> int \<times> int) option" where
  "tb_stress_main u h0 p =
     Option.bind (stress_block u (p 1) 200 (for_loop (stress_packet u (stress_small h0)) 0 200) (new_gen, 0, 0))
       (\<lambda>t. Option.bind (stress_block u (p 2) 100 (for_loop (stress_packet u (stress_mixed h0)) 0 100) t)
       (\<lambda>t. Option.bind (stress_block u (p 3) 50 (for_loop (stress_packet u (stress_jumbo h0)) 0 50) t)
       (\<lambda>t. Option.bind (stress_block u (p 4) 50
              (for_loop (\<lambda>batch. for_loop (stress_packet u (stress_batched h0)) 0 5) 0 10) t)
       (\<lambda>(g, tot, ok). Some (if ok = tot then 0 else 1, ok, tot)))))"

section \<open>Every packet comes back\<close>

definition stress_ok :: "int \<Rightarrow> stress_state \<Rightarrow> bool" where
  "stress_ok tot st \<longleftrightarrow> (case st of (s, g, failed, t) \<Rightarrow> idle s \<and> failed = 0 \<and> t = tot)"

lemma stress_packet_ok:
  assumes "\<And>g. 40 < length (fst (mk i g))" "stress_ok tot st"
  shows "\<exists>st'. stress_packet u mk i st = Some st' \<and> stress_ok (tot + 1) st'"
proof -
  obtain s g failed t where st: "st = (s, g, failed, t)" by (cases st)
  then have "idle s" using assms(2) by (simp add: stress_ok_def)
  then obtain s' where "send_cd u append_rx 8 100000 (fst (mk i g)) s [] = Some (s', fst (mk i g))" "idle s'"
    using send_bytes [of 8 "fst (mk i g)" 100000 s u "[]"] assms(1) [of g] by auto
  then show ?thesis
    using assms(2) by (simp add: stress_packet_def stress_push_and_capture_def stress_ok_def st split_def)
qed

lemma stress_loop_ok:
  assumes "\<And>i g. 40 < length (fst (mk i g))" "stress_ok tot st"
  shows "\<exists>st'. for_loop (stress_packet u mk) i n st = Some st' \<and> stress_ok (tot + int n) st'"
  using assms(2)
proof (induction n arbitrary: i st tot)
  case (Suc n)
  obtain st1 where "stress_packet u mk i st = Some st1" "stress_ok (tot + 1) st1"
    using stress_packet_ok [of mk i tot st u] assms(1) Suc.prems by blast
  then show ?case using Suc.IH [of "tot + 1" st1 "Suc i"] by (simp add: add_ac)
qed simp

lemma stress_block_ok:
  assumes "\<And>st. stress_ok tot st \<Longrightarrow> \<exists>st'. loop st = Some st' \<and> stress_ok (tot + n) st'"
  shows "\<exists>g'. stress_block u p n loop (g, tot, ok) = Some (g', tot + n, ok + n)"
proof -
  have "stress_ok tot (psim_reset u 8 (psim_new p), g, 0, tot)"
    by (simp add: stress_ok_def new_reset_idle)
  then obtain st' where "loop (psim_reset u 8 (psim_new p), g, 0, tot) = Some st'" "stress_ok (tot + n) st'"
    using assms by blast
  then show ?thesis by (cases st') (simp add: stress_block_def stress_ok_def)
qed

lemma stress_batches_ok:
  assumes "stress_ok tot st"
  shows "\<exists>st'. for_loop (\<lambda>batch. for_loop (stress_packet u (stress_batched h0)) 0 5) 0 10 st = Some st' \<and>
    stress_ok (tot + 50) st'"
proof -
  have "\<exists>st'. for_loop (\<lambda>batch. for_loop (stress_packet u (stress_batched h0)) 0 5) 0 10 st = Some st' \<and>
      (\<lambda>i. stress_ok (tot + 5 * int i)) (0 + 10) st'"
  proof (rule for_loop_inv)
    show "stress_ok (tot + 5 * int 0) st" using assms by simp
    show "\<exists>st'. for_loop (stress_packet u (stress_batched h0)) 0 5 st = Some st' \<and>
        stress_ok (tot + 5 * int (Suc i)) st'" if "stress_ok (tot + 5 * int i) st" for i st
      using stress_loop_ok [where mk = "stress_batched h0" and u = u and i = 0 and n = 5, OF _ that]
      by (simp add: stress_batched_def algebra_simps)
  qed
  then show ?thesis by simp
qed

section \<open>Properties\<close>

text \<open>C12: The stress bench passes: for every power-on state of the devices and whatever the undetermined
  reads of the flow table yield, no wait loop hangs, each of the 400 packets comes out with its
  size, and the program returns 0.\<close>

theorem tb_stress_passes: "tb_stress_main u h0 p = Some (0, 400, 400)"
proof -
  have small: "40 < length (fst (stress_small h0 i g))" "40 < length (fst (stress_mixed h0 i g))"
    "40 < length (fst (stress_jumbo h0 i g))" for i g
    by (simp_all add: stress_small_def stress_mixed_def stress_jumbo_def)
  obtain g1 where 1: "stress_block u (p 1) 200 (for_loop (stress_packet u (stress_small h0)) 0 200) (new_gen, 0, 0) =
      Some (g1, 200, 200)"
    using stress_block_ok [of 0 "for_loop (stress_packet u (stress_small h0)) 0 200" 200 u "p 1" new_gen 0]
      stress_loop_ok [where mk = "stress_small h0" and tot = 0 and u = u and i = 0 and n = 200] small(1) by fastforce
  obtain g2 where 2: "stress_block u (p 2) 100 (for_loop (stress_packet u (stress_mixed h0)) 0 100) (g1, 200, 200) =
      Some (g2, 300, 300)"
    using stress_block_ok [of 200 "for_loop (stress_packet u (stress_mixed h0)) 0 100" 100 u "p 2" g1 200]
      stress_loop_ok [where mk = "stress_mixed h0" and tot = 200 and u = u and i = 0 and n = 100] small(2) by fastforce
  obtain g3 where 3: "stress_block u (p 3) 50 (for_loop (stress_packet u (stress_jumbo h0)) 0 50) (g2, 300, 300) =
      Some (g3, 350, 350)"
    using stress_block_ok [of 300 "for_loop (stress_packet u (stress_jumbo h0)) 0 50" 50 u "p 3" g2 300]
      stress_loop_ok [where mk = "stress_jumbo h0" and tot = 300 and u = u and i = 0 and n = 50] small(3) by fastforce
  obtain g4 where 4: "stress_block u (p 4) 50
      (for_loop (\<lambda>batch. for_loop (stress_packet u (stress_batched h0)) 0 5) 0 10) (g3, 350, 350) = Some (g4, 400, 400)"
    using stress_block_ok [of 350 _ 50 u "p 4" g3 350] stress_batches_ok [where tot = 350 and u = u and ?h0.0 = h0] by fastforce
  show ?thesis by (simp only: tb_stress_main_def 1 2 3 4 bind.bind_lunit) simp
qed

end
