(* ===== verification/Tb_Flow.thy ===== *)
theory Tb_Flow
  imports Pipeline_Sim
begin

text \<open>
  The flow table bench \<open>sim/testbenches/tb_flow.cpp\<close> and the modifier bench
  \<open>sim/testbenches/tb_match_action.cpp\<close>. Both send packets through the whole pipeline; the flow
  table's outputs are not connected, so that two of the three flow tests only show that the
  simulation returns.
\<close>

section \<open>\<open>tb_flow\<close>\<close>

text \<open>\<open>push_and_drain\<close> looks at the output only to find its end.\<close>

definition flow_push_and_drain :: "undet \<Rightarrow> psim \<Rightarrow> u8 list \<Rightarrow> nat \<Rightarrow> psim option" where
  "flow_push_and_drain u s pkt dw = map_option fst (send_cd u (\<lambda>_ _ a. a) dw 100000 pkt s ())"

definition flow_send ::
  "undet \<Rightarrow> (nat \<Rightarrow> packet_gen \<Rightarrow> u8 list \<times> packet_gen) \<Rightarrow> nat \<Rightarrow> psim \<times> packet_gen \<Rightarrow> (psim \<times> packet_gen) option" where
  "flow_send u mk i st =
     (case st of (s, g) \<Rightarrow>
        let (pkt, g) = mk i g in map_option (\<lambda>s. (s, g)) (flow_push_and_drain u s pkt 8))"

definition test_basic :: "undet \<Rightarrow> ipv4_hdr \<Rightarrow> pipeline \<Rightarrow> bool option" where
  "test_basic u h0 p =
     Option.bind (for_loop (flow_send u (\<lambda>i. bench_udp h0 53 1234 (replicate 10 0x78))) 0 5
         (psim_reset u 4 (psim_new p), new_gen))
       (\<lambda>_. Some True)"

definition test_multi_flow :: "undet \<Rightarrow> ipv4_hdr \<Rightarrow> pipeline \<Rightarrow> bool option" where
  "test_multi_flow u h0 p =
     Option.bind (for_loop (flow_send u (\<lambda>i. bench_udp h0 (of_nat (100 + i)) (of_nat (200 + i)) (replicate 10 0x78))) 0 20
         (psim_reset u 4 (psim_new p), new_gen))
       (\<lambda>_. Some True)"

definition flow_data_integrity :: "undet \<Rightarrow> ipv4_hdr \<Rightarrow> pipeline \<Rightarrow> bool option" where
  "flow_data_integrity u h0 p =
     (let s = psim_reset u 4 (psim_new p);
          (pkt, g) = bench_udp h0 53 1234 [0x54, 0x65, 0x73, 0x74] new_gen
      in Option.bind (send_cd u append_rx 8 100000 pkt s [])
           (\<lambda>(s, rx). Some (length rx = length pkt)))"

definition tb_flow_main :: "undet \<Rightarrow> ipv4_hdr \<Rightarrow> (nat \<Rightarrow> pipeline) \<Rightarrow> int option" where
  "tb_flow_main u h0 p =
     Option.bind (flow_data_integrity u h0 (p 0)) (\<lambda>a.
     Option.bind (test_basic u h0 (p 1)) (\<lambda>b.
     Option.bind (test_multi_flow u h0 (p 2)) (\<lambda>c.
     Some (if a \<and> b \<and> c then 0 else 1))))"

section \<open>\<open>tb_match_action\<close>\<close>

definition match_push_and_drain :: "undet \<Rightarrow> psim \<Rightarrow> u8 list \<Rightarrow> nat \<Rightarrow> (psim \<times> u8 list) option" where
  "match_push_and_drain u s pkt dw = send_cd u append_rx dw 100000 pkt s []"

definition match_data_integrity :: "undet \<Rightarrow> ipv4_hdr \<Rightarrow> pipeline \<Rightarrow> bool option" where
  "match_data_integrity u h0 p =
     (let s = psim_reset u 4 (psim_new p);
          (pkt, g) = bench_udp h0 1234 53 [0x54, 0x65, 0x73, 0x74] new_gen
      in Option.bind (match_push_and_drain u s pkt 8) (\<lambda>(s, rx). Some (length rx = length pkt)))"

definition tb_match_action_main :: "undet \<Rightarrow> ipv4_hdr \<Rightarrow> pipeline \<Rightarrow> int option" where
  "tb_match_action_main u h0 p =
     Option.bind (match_data_integrity u h0 p) (\<lambda>a. Some (if a then 0 else 1))"

section \<open>Runs\<close>

lemma flow_loop_returns:
  assumes "\<And>i g. 40 < length (fst (mk i g))"
  shows "\<exists>st. for_loop (flow_send u mk) 0 n (psim_reset u 4 (psim_new p), g) = Some st"
proof -
  have "\<exists>st'. for_loop (flow_send u mk) 0 n (psim_reset u 4 (psim_new p), g) = Some st' \<and>
      (\<lambda>i st. idle (fst st)) (0 + n) st'"
  proof (rule for_loop_inv)
    show "idle (fst (psim_reset u 4 (psim_new p), g))" by (simp add: new_reset_idle)
    show "\<exists>st'. flow_send u mk i st = Some st' \<and> idle (fst st')" if "idle (fst st)" for i and st :: "psim \<times> packet_gen"
      using send_through(1) [of 8 "fst (mk i (snd st))" 100000 "fst st" u "\<lambda>_ _ a. a" "()"] assms that
      by (auto simp: flow_send_def flow_push_and_drain_def split_def)
  qed
  then show ?thesis by blast
qed

lemma integrity_bytes:
  assumes "40 < length pkt"
  shows "\<exists>s. send_cd u append_rx 8 100000 pkt (psim_reset u 4 (psim_new p)) [] = Some (s, pkt)"
  using send_bytes [of 8 pkt 100000 "psim_reset u 4 (psim_new p)" u "[]"] assms by (auto simp: new_reset_idle)

lemma flow_tests:
  "flow_data_integrity u h0 p = Some True" "test_basic u h0 p = Some True" "test_multi_flow u h0 p = Some True"
  "match_data_integrity u h0 p = Some True"
proof -
  show "flow_data_integrity u h0 p = Some True"
    using integrity_bytes [of "fst (bench_udp h0 53 1234 [0x54, 0x65, 0x73, 0x74] new_gen)" u p]
    by (auto simp: flow_data_integrity_def Let_def split_def)
  show "match_data_integrity u h0 p = Some True"
    using integrity_bytes [of "fst (bench_udp h0 1234 53 [0x54, 0x65, 0x73, 0x74] new_gen)" u p]
    by (auto simp: match_data_integrity_def match_push_and_drain_def Let_def split_def)
  obtain st where "for_loop (flow_send u (\<lambda>i. bench_udp h0 53 1234 (replicate 10 0x78))) 0 5
      (psim_reset u 4 (psim_new p), new_gen) = Some st"
    using flow_loop_returns [of "\<lambda>i. bench_udp h0 53 1234 (replicate 10 0x78)" u 5 p new_gen] by auto
  then show "test_basic u h0 p = Some True" unfolding test_basic_def by simp
  obtain st where "for_loop (flow_send u (\<lambda>i. bench_udp h0 (of_nat (100 + i)) (of_nat (200 + i)) (replicate 10 0x78))) 0 20
      (psim_reset u 4 (psim_new p), new_gen) = Some st"
    using flow_loop_returns [of "\<lambda>i. bench_udp h0 (of_nat (100 + i)) (of_nat (200 + i)) (replicate 10 0x78)" u 20 p new_gen]
    by auto
  then show "test_multi_flow u h0 p = Some True" unfolding test_multi_flow_def by simp
qed

section \<open>Properties\<close>

text \<open>The flow bench and the modifier bench pass, for every power-on state of the devices and
  whatever the undetermined reads of the flow table yield: all loops end, the packets of the
  integrity tests come out with their size, and both programs return 0.\<close>

theorem tb_flow_and_match_pass:
  "tb_flow_main u h0 p = Some 0 \<and> tb_match_action_main u h0 q = Some 0"
  by (simp add: tb_flow_main_def tb_match_action_main_def flow_tests)

end
