(* ===== verification/Tb_Random.thy ===== *)
theory Tb_Random
  imports Pipeline_Sim
begin

text \<open>
  The random bench \<open>sim/testbenches/tb_random.cpp\<close>: generated packets through the pipeline into
  the scoreboard. What the random engines yield are parameters, named by their use; \<open>Sim\<close> there
  has no cycle counter.
\<close>

section \<open>The environment\<close>

record env =
  env_sim :: psim
  env_mon :: packet_mon
  env_dw :: nat
  env_verbose :: bool

definition env_new :: "pipeline \<Rightarrow> bool \<Rightarrow> env" where
  "env_new p v = \<lparr>env_sim = psim_new p, env_mon = mon_new, env_dw = 8, env_verbose = v\<rparr>"

definition env_reset :: "undet \<Rightarrow> env \<Rightarrow> env" where
  "env_reset u e = e\<lparr>env_sim := psim_reset u 8 (env_sim e), env_mon := mon_reset (env_mon e)\<rparr>"

text \<open>The draws of one call of \<open>gen_pkt\<close>.\<close>

record pkt_draws =
  pd_len :: nat
  pd_byte :: "nat \<Rightarrow> u32"
  pd_src_ip :: u32
  pd_dst_ip :: u32
  pd_src_port :: u16
  pd_dst_port :: u16

definition gen_pkt :: "ipv4_hdr \<Rightarrow> pkt_draws \<Rightarrow> int \<Rightarrow> packet_gen \<Rightarrow> u8 list \<times> packet_gen" where
  "gen_pkt h0 d ty g =
     (let sm = [0x02, 0x00, 0x00, 0x00, 0x00, 0x01];
          dm = [0x02, 0x00, 0x00, 0x00, 0x00, 0x02];
          payload = map (\<lambda>i. ucast (pd_byte d i AND 0xFF)) [0..<pd_len d];
          t = ty mod 4
      in if t = 0 then make_udp_packet h0 sm dm (pd_src_ip d) (pd_dst_ip d) (pd_src_port d) (pd_dst_port d) payload g
         else if t = 1 then
           make_tcp_packet h0 sm dm (pd_src_ip d) (pd_dst_ip d) (pd_src_port d) (pd_dst_port d) payload 0x02 g
         else if t = 2 then (make_arp_packet sm dm (pd_src_ip d) (pd_dst_ip d), g)
         else make_udp_packet h0 sm dm (pd_src_ip d) (pd_dst_ip d) (pd_src_port d) 53 payload g)"

definition env_push_and_drain :: "undet \<Rightarrow> u8 list \<Rightarrow> env \<Rightarrow> env option" where
  "env_push_and_drain u pkt e =
     Option.bind (send_dc u push_beat (env_dw e) 100000 pkt (env_sim e) (env_mon e))
       (\<lambda>(s, mon). Some (e\<lparr>env_sim := set_ready False s, env_mon := mon\<rparr>))"

definition env_packet ::
  "undet \<Rightarrow> ipv4_hdr \<Rightarrow> (nat \<Rightarrow> int) \<Rightarrow> (nat \<Rightarrow> pkt_draws) \<Rightarrow> nat \<Rightarrow> env \<times> packet_gen \<Rightarrow> (env \<times> packet_gen) option" where
  "env_packet u h0 ty d i st =
     (case st of (e, g) \<Rightarrow>
        let (pkt, g) = gen_pkt h0 (d i) (ty i) g;
            e = e\<lparr>env_mon := mon_expect pkt (env_mon e)\<rparr>
        in map_option (\<lambda>e. (e, g)) (env_push_and_drain u pkt e))"

definition env_run ::
  "undet \<Rightarrow> ipv4_hdr \<Rightarrow> (nat \<Rightarrow> int) \<Rightarrow> (nat \<Rightarrow> pkt_draws) \<Rightarrow> nat \<Rightarrow> env \<Rightarrow> (bool \<times> env) option" where
  "env_run u h0 ty d num_packets e =
     Option.bind (for_loop (env_packet u h0 ty d) 0 num_packets (e, new_gen))
       (\<lambda>(e, g). Some (error_count (env_mon e) = 0 \<and> pending (env_mon e) = 0, e))"

text \<open>\<open>main\<close> with its exit code and the counts it prints; a negative \<open>-n\<close> runs no packet.\<close>

definition tb_random_main ::
  "undet \<Rightarrow> ipv4_hdr \<Rightarrow> pipeline \<Rightarrow> (nat \<Rightarrow> int) \<Rightarrow> (nat \<Rightarrow> pkt_draws) \<Rightarrow> int \<Rightarrow> bool \<Rightarrow> (int \<times> int \<times> int) option" where
  "tb_random_main u h0 p ty d num_packets verbose =
     Option.bind (env_run u h0 ty d (nat num_packets) (env_reset u (env_new p verbose)))
       (\<lambda>(pass, e). Some (if pass then 0 else 1, pkt_count (env_mon e), error_count (env_mon e)))"

section \<open>Every packet is met by its expectation\<close>

lemma sink_push_beat: "sink_all push_beat bs m = push_beats bs m"
  by (simp add: push_beats_def)

lemma length_gen_pkt: "40 < length (fst (gen_pkt h0 d ty g))"
  by (simp add: gen_pkt_def Let_def)

definition env_ok :: "nat \<Rightarrow> env \<times> packet_gen \<Rightarrow> bool" where
  "env_ok i st \<longleftrightarrow> (case st of (e, g) \<Rightarrow> idle (env_sim e) \<and> env_dw e = 8 \<and> expected (env_mon e) = [] \<and>
     rx_beats (env_mon e) = [] \<and> error_count (env_mon e) = 0 \<and> pkt_count (env_mon e) = int i)"

lemma env_packet_ok:
  assumes "env_ok i st"
  shows "\<exists>st'. env_packet u h0 ty d i st = Some st' \<and> env_ok (Suc i) st'"
proof -
  obtain e g where st: "st = (e, g)" by (cases st)
  define pkt where "pkt = fst (gen_pkt h0 (d i) (ty i) g)"
  define m where "m = mon_expect pkt (env_mon e)"
  have e: "idle (env_sim e)" "env_dw e = 8" "expected m = [pkt]" "rx_beats m = []" "error_count m = 0"
    "pkt_count m = int i"
    using assms by (simp_all add: env_ok_def st m_def mon_expect_def)
  have len: "40 < length pkt" using length_gen_pkt by (simp add: pkt_def)
  then obtain s' where s': "send_dc u push_beat 8 100000 pkt (env_sim e) m = Some (s', push_beats (packet_beats 8 pkt) m)"
    "idle s'"
    using send_through(2) [of 8 pkt 100000 "env_sim e" u push_beat m] e(1) by (auto simp: sink_push_beat)
  have "pkt \<noteq> []" using len by auto
  then have "reassemble [] (packet_beats 8 pkt) = [pkt]" "leftover [] (packet_beats 8 pkt) = []"
    using reassemble_packets [of 8 "[pkt]"] by simp_all
  then show ?thesis
    using s' e push_beats_fields [of "packet_beats 8 pkt" m]
    by (simp add: env_packet_def st split_def Let_def env_push_and_drain_def env_ok_def flip: pkt_def m_def)
qed

section \<open>Properties\<close>

text \<open>C11: The random bench passes: for any number of packets, any outcome of its random draws, any
  power-on state of the device and any undetermined reads of the flow table, all loops end, the
  scoreboard meets every expected packet with the same bytes, no expectation is left, and the
  program returns 0.\<close>

theorem tb_random_passes: "tb_random_main u h0 p ty d n verbose = Some (0, int (nat n), 0)"
proof -
  define e0 where "e0 = env_reset u (env_new p verbose)"
  have "env_ok 0 (e0, new_gen)"
    by (simp add: env_ok_def e0_def env_reset_def env_new_def new_reset_idle mon_new_def mon_reset_def)
  then obtain st where st: "for_loop (env_packet u h0 ty d) 0 (nat n) (e0, new_gen) = Some st" "env_ok (0 + nat n) st"
    using for_loop_inv [of env_ok 0 "(e0, new_gen)" "env_packet u h0 ty d" "nat n"] env_packet_ok by blast
  obtain e g where "st = (e, g)" by (cases st)
  then show ?thesis
    using st by (simp add: tb_random_main_def env_run_def env_ok_def pending_def flip: e0_def)
qed

end
