(* ===== verification/Tb_Pipeline.thy ===== *)
theory Tb_Pipeline
  imports Pipeline_Sim
begin

text \<open>
  The pipeline bench \<open>sim/testbenches/tb_pipeline.cpp\<close>: single packets through a fresh device each,
  compared by size. Its push loop does not look at \<open>s_tready\<close>, and it leaves \<open>s_tvalid\<close> high while it
  drains, so that the last beat enters the pipeline again in every cycle; the drain stops at the
  first last beat.
\<close>

section \<open>The bench\<close>

function push_nowait :: "undet \<Rightarrow> 'a sink \<Rightarrow> nat \<Rightarrow> u8 list \<Rightarrow> nat \<Rightarrow> psim \<Rightarrow> 'a \<Rightarrow> psim \<times> 'a" where
  "push_nowait u f dw pkt pos s a =
     (if pos < length pkt \<and> 0 < dw then
        let s = drive dw pkt pos (psim_pre u s);
            a = capture f dw s a
        in push_nowait u f dw pkt (pos + beat_size dw pkt pos) (psim_post u s) a
      else (s, a))"
  by pat_completeness auto
termination
  by (relation "measure (\<lambda>(u, f, dw, pkt, pos, s, a). length pkt - pos)") (auto simp: beat_size_def)

declare push_nowait.simps [simp del]

fun drain_until_last :: "undet \<Rightarrow> nat \<Rightarrow> nat \<Rightarrow> psim \<Rightarrow> u8 list \<Rightarrow> psim \<times> u8 list" where
  "drain_until_last u dw 0 s out = (s, out)"
| "drain_until_last u dw (Suc n) s out =
     (let s = psim_pre u s
      in if p_taken s then
           let out = out @ beat_bytes dw (p_beat s)
           in if tlast (p_beat s) then (psim_post u s, out)
              else drain_until_last u dw n (psim_post u s) out
         else drain_until_last u dw n (psim_post u s) out)"

text \<open>The eight cycles at the end.\<close>

definition push_and_capture :: "undet \<Rightarrow> psim \<Rightarrow> u8 list \<Rightarrow> u8 list \<Rightarrow> nat \<Rightarrow> psim \<times> u8 list" where
  "push_and_capture u s pkt out dw =
     (let (s, out) = push_nowait u append_rx dw pkt 0 (set_ready True s) out;
          (s, out) = drain_until_last u dw 100000 s out
      in ((psim_cycle u ^^ 8) s, out))"

definition push_one :: "undet \<Rightarrow> psim \<Rightarrow> u8 list \<Rightarrow> nat \<Rightarrow> psim \<times> u8 list" where
  "push_one u s pkt dw = push_and_capture u s pkt [] dw"

text \<open>The tests; each starts its own \<open>Sim\<close> and \<open>PacketGen\<close>.\<close>

definition size_test :: "undet \<Rightarrow> pipeline \<Rightarrow> u8 list \<Rightarrow> bool" where
  "size_test u p pkt = (let (s, rx) = push_one u (psim_reset u 4 (psim_new p)) pkt 8 in length rx = length pkt)"

definition test_udp :: "undet \<Rightarrow> ipv4_hdr \<Rightarrow> pipeline \<Rightarrow> bool" where
  "test_udp u h0 p = size_test u p (fst (bench_udp h0 1234 80 [0x48, 0x69] new_gen))"

definition test_tcp :: "undet \<Rightarrow> ipv4_hdr \<Rightarrow> pipeline \<Rightarrow> bool" where
  "test_tcp u h0 p = size_test u p (fst (bench_tcp h0 4321 443 [0x64, 0x61, 0x74, 0x61] new_gen))"

definition test_arp :: "undet \<Rightarrow> pipeline \<Rightarrow> bool" where
  "test_arp u p = size_test u p bench_arp"

definition test_multi :: "undet \<Rightarrow> ipv4_hdr \<Rightarrow> pipeline \<Rightarrow> pipeline \<Rightarrow> pipeline \<Rightarrow> bool" where
  "test_multi u h0 pu pt pa =
     (let (udp, g) = bench_udp h0 53 1234 [0x44, 0x4E, 0x53] new_gen;
          (tcp, g) = bench_tcp h0 80 55555 [0x48, 0x54, 0x54, 0x50] g;
          arp = bench_arp
      in size_test u pu udp \<and> size_test u pt tcp \<and> size_test u pa arp)"

definition test_dns :: "undet \<Rightarrow> ipv4_hdr \<Rightarrow> pipeline \<Rightarrow> bool" where
  "test_dns u h0 p = size_test u p (fst (bench_udp h0 1234 53 [0x44, 0x4E, 0x53] new_gen))"

definition test_http :: "undet \<Rightarrow> ipv4_hdr \<Rightarrow> pipeline \<Rightarrow> bool" where
  "test_http u h0 p = size_test u p (fst (bench_tcp h0 55555 80 [0x48, 0x54, 0x54, 0x50] new_gen))"

definition tb_pipeline_main :: "undet \<Rightarrow> ipv4_hdr \<Rightarrow> (nat \<Rightarrow> pipeline) \<Rightarrow> int" where
  "tb_pipeline_main u h0 p =
     (if test_tcp u h0 (p 0) \<and> test_udp u h0 (p 1) \<and> test_arp u (p 2) \<and> test_dns u h0 (p 3) \<and>
         test_http u h0 (p 4) \<and> test_multi u h0 (p 5) (p 6) (p 7)
      then 0 else 1)"

section \<open>What comes out\<close>

lemma push_nowait_pushed:
  assumes "0 < dw" "dw \<le> 22" "live s" "seen dw s = queue q" "length q \<le> 8"
  shows "pushed dw f pkt pos s a q (Some (push_nowait u f dw pkt pos s a))"
  using assms(3-5)
proof (induction "length pkt - pos" arbitrary: pos s a q rule: less_induct)
  case less
  show ?case
  proof (cases "pos < length pkt")
    case False
    then show ?thesis
      using pushed_end [OF less.prems, of pkt pos f a] by (simp add: push_nowait.simps [of u f dw pkt pos])
  next
    case True
    obtain out1 q1 where 1: "capture f dw (psim_pre u s) a = sink_all f out1 a"
      "seen dw (psim_post u (drive dw pkt pos (psim_pre u s))) = queue q1" "length q1 = min 8 (length q + 1)"
      "out1 @ q1 = q @ [(take dw (drop pos pkt), length (drop pos pkt) \<le> dw)]"
      "live (psim_post u (drive dw pkt pos (psim_pre u s)))"
      "cycles (psim_post u (drive dw pkt pos (psim_pre u s))) = cycles s + 1"
      using push_round [OF assms(1,2) less.prems True] by metis
    have "pushed dw f pkt (pos + beat_size dw pkt pos) (psim_post u (drive dw pkt pos (psim_pre u s)))
        (sink_all f out1 a) q1 (Some (push_nowait u f dw pkt (pos + beat_size dw pkt pos)
          (psim_post u (drive dw pkt pos (psim_pre u s))) (sink_all f out1 a)))"
      using beat_size_pos [OF assms(1) True] True 1 by (intro less.hyps) auto
    from pushed_step [OF assms(1) True this 1(3,4,6)] show ?thesis
      using True 1 assms(1) by (simp add: push_nowait.simps [of u f dw pkt pos] Let_def capture_drive)
  qed
qed

text \<open>Empty slots are waited out, and the first last beat ends the drain.\<close>

lemma drain_last_run:
  assumes "dw \<le> 22" "trailing dw xs q c s" "ends q" "c + length q \<le> n"
  shows "snd (drain_until_last u dw n s out) = out @ concat (map fst q)"
  using assms(2-4)
proof (induction n arbitrary: xs q c s out)
  case 0
  then show ?case by (simp add: ends_def)
next
  case (Suc n)
  show ?case
  proof (cases c)
    case (Suc c')
    note step = drain_bubble [OF assms(1) Suc.prems(1) [unfolded Suc], of u]
    show ?thesis
      using Suc.IH [OF step(2) Suc.prems(2), of out] Suc.prems(3) step(1) Suc by (simp add: Let_def psim_cycle_def)
  next
    case 0
    obtain b q' where q: "q = b # q'" using Suc.prems(2) by (cases q) (auto simp: ends_def)
    note step = drain_valid [OF assms(1) Suc.prems(1) [unfolded q 0], of u]
    show ?thesis
    proof (cases "q' = []")
      case True
      then have "snd b" using Suc.prems(2) by (simp add: ends_def q)
      then show ?thesis using step(1-3) True by (simp add: Let_def q)
    next
      case False
      then have ends: "ends q'" "\<not> snd b" using Suc.prems(2) ends_suffix [of "[b]" q'] by (auto simp: ends_def q)
      then show ?thesis
        using Suc.IH [OF step(4) ends(1), of "out @ fst b"] Suc.prems(3) step(1-3)
        by (simp add: Let_def psim_cycle_def q)
    qed
  qed
qed

lemma push_one_bytes:
  assumes "0 < dw" "dw \<le> 22" "pkt \<noteq> []" "idle s"
  shows "snd (push_one u s pkt dw) = pkt"
proof -
  have "pushed dw append_rx pkt 0 (set_ready True s) [] []
      (Some (push_nowait u append_rx dw pkt 0 (set_ready True s) []))"
    by (intro push_nowait_pushed [OF assms(1,2)]) (use idle_ready [OF assms(4)] in auto)
  then obtain s1 out1 q1 where 1: "push_nowait u append_rx dw pkt 0 (set_ready True s) [] = (s1, sink_all append_rx out1 [])"
    "live s1" "seen dw s1 = queue q1" "length q1 = min 8 (length (packet_beats dw pkt))"
    "out1 @ q1 = packet_beats dw pkt"
    by (auto simp: pushed_def)
  have tr: "trailing dw [] q1 (8 - length q1) s1" using 1(2,3) by (simp add: trailing_def queue_def)
  have "packet_beats dw pkt \<noteq> []" using ends_packet [OF assms(1,3)] by (simp add: ends_def)
  then have "q1 \<noteq> []" using 1(4) by (auto simp: min_def split: if_splits)
  moreover have "ends (out1 @ q1)" using ends_packet [OF assms(1,3)] 1(5) by simp
  ultimately have "ends q1" by (blast intro: ends_suffix)
  moreover have "8 - length q1 + length q1 \<le> 100000" using 1(4) by simp
  ultimately have "snd (drain_until_last u dw 100000 s1 (sink_all append_rx out1 [])) =
      sink_all append_rx out1 [] @ concat (map fst q1)"
    by (intro drain_last_run [OF assms(2) tr])
  also have "\<dots> = concat (map fst (out1 @ q1))" by (simp add: sink_append_rx)
  also have "\<dots> = pkt" using packet_bytes [OF assms(1)] 1(5) by simp
  finally show ?thesis by (simp add: push_one_def push_and_capture_def 1(1) split_def Let_def)
qed

lemma size_test_passes: "pkt \<noteq> [] \<Longrightarrow> size_test u p pkt"
  using push_one_bytes [of 8 pkt "psim_reset u 4 (psim_new p)" u]
  by (simp add: size_test_def split_def new_reset_idle)

lemma bench_nonempty [simp]:
  "fst (bench_udp h0 sp dp payload g) \<noteq> []" "fst (bench_tcp h0 sp dp payload g) \<noteq> []" "bench_arp \<noteq> []"
  using length_bench(1) [of h0 sp dp payload g] length_bench(2) [of h0 sp dp payload g] length_bench(3) by force+

section \<open>Properties\<close>

text \<open>The pipeline bench passes, and what it captures is not only of the right size but the packet
  itself: for every power-on state of the devices and whatever the undetermined reads of the flow
  table yield, a non-empty packet pushed into an idle pipeline comes out byte for byte, although the
  last beat is driven again while the bench drains, and the program returns 0.\<close>

theorem tb_pipeline_passes:
  "(\<forall>pkt s. pkt \<noteq> [] \<and> idle s \<longrightarrow> snd (push_one u s pkt 8) = pkt) \<and> tb_pipeline_main u h0 p = 0"
  using push_one_bytes [of 8]
  by (simp add: tb_pipeline_main_def test_udp_def test_tcp_def test_arp_def test_dns_def test_http_def test_multi_def
      size_test_passes split_def Let_def)

theorem tb_pipeline_passes_witness:
  "\<forall>u p. snd (push_one u (psim_reset u 4 (psim_new p)) [1, 2, 3] 8) = [1, 2, 3]"
  using tb_pipeline_passes new_reset_idle [of 4] by simp

end
