(* ===== verification/Tb_Perf.thy ===== *)
theory Tb_Perf
  imports Pipeline_Sim
begin

text \<open>
  The performance bench \<open>sim/testbenches/tb_perf.cpp\<close>: cycle counts of packet streams through the
  pipeline. The quotients that \<open>measure\<close> computes from the counts in \<open>double\<close> are in \<open>Tb_Perf_Rates\<close>.
\<close>

section \<open>\<open>measure\<close>\<close>

record perf_result =
  packets :: u64
  total_bytes :: u64
  push_cycles :: u64
  drain_cycles :: u64
  first_out :: u64
  total_cycles :: u64

text \<open>A packet without looking at the output, and the idle cycle after it.\<close>

definition push_silent :: "undet \<Rightarrow> nat \<Rightarrow> u8 list \<Rightarrow> psim \<Rightarrow> psim option" where
  "push_silent u dw pkt s = map_option fst (push_dc u (\<lambda>_ _ a. a) dw pkt 0 s ())"

definition idle_cycle :: "undet \<Rightarrow> psim \<Rightarrow> psim" where
  "idle_cycle u s = psim_post u (set_pipe (\<lambda>p. p\<lparr>s_tvalid := False\<rparr>) (psim_pre u s))"

text \<open>The drains end with a last beat or at the first empty cycle, one with a time limit and one
  without.\<close>

fun drain_gap :: "undet \<Rightarrow> nat \<Rightarrow> psim \<Rightarrow> psim" where
  "drain_gap u 0 s = s"
| "drain_gap u (Suc n) s =
     (let s = psim_pre u s
      in if p_taken s then
           if tlast (p_beat s) then psim_post u s else drain_gap u n (psim_post u s)
         else psim_post u s)"

partial_function (option) drain_rest :: "undet \<Rightarrow> psim \<Rightarrow> psim option" where
  "drain_rest u s =
     (let s = psim_pre u s
      in if p_taken s then
           let l = tlast (p_beat s); s = psim_post u s in if l then Some s else drain_rest u s
         else Some (psim_post u s))"

definition preheat :: "undet \<Rightarrow> nat \<Rightarrow> u8 list \<Rightarrow> psim \<Rightarrow> psim option" where
  "preheat u dw pkt s =
     Option.bind (push_silent u dw pkt s) (\<lambda>s. Some (drain_gap u 10000 (idle_cycle u s)))"

text \<open>The measured push; the pair is \<open>first_beat_seen\<close> and \<open>first_out\<close>.\<close>

partial_function (option) push_timed ::
  "undet \<Rightarrow> u64 \<Rightarrow> nat \<Rightarrow> u8 list \<Rightarrow> nat \<Rightarrow> psim \<Rightarrow> bool \<times> u64 \<Rightarrow> (psim \<times> bool \<times> u64) option" where
  "push_timed u start_push dw pkt pos s fb =
     (if pos < length pkt then
        let s = drive dw pkt pos (psim_pre u s);
            fb = (if p_taken s \<and> \<not> fst fb then (True, cycles s - start_push) else fb)
        in Option.bind (wait_ready u (psim_post u s))
             (\<lambda>s. push_timed u start_push dw pkt (pos + beat_size dw pkt pos) s fb)
      else Some (s, fb))"

type_synonym measure_state = "psim \<times> (bool \<times> u64) \<times> u64 \<times> u64"

definition measure_packet ::
  "undet \<Rightarrow> u64 \<Rightarrow> nat \<Rightarrow> u8 list \<Rightarrow> nat \<Rightarrow> measure_state \<Rightarrow> measure_state option" where
  "measure_packet u start_push dw pkt p st =
     (case st of (s, fb, pk, tb) \<Rightarrow>
        Option.bind (push_timed u start_push dw pkt 0 s fb)
          (\<lambda>(s, fb). Some (idle_cycle u s, fb, pk + 1, tb + of_nat (length pkt))))"

definition measure_run :: "undet \<Rightarrow> psim \<Rightarrow> u8 list \<Rightarrow> nat \<Rightarrow> nat \<Rightarrow> (psim \<times> perf_result) option" where
  "measure_run u s pkt dw num_packets =
     (let s = set_ready True s; start_cycle = cycles s
      in Option.bind (for_loop (\<lambda>p. preheat u dw pkt) 0 2 s) (\<lambda>s.
           let start_push = cycles s
           in Option.bind (for_loop (measure_packet u start_push dw pkt) 0 num_packets (s, (False, 0), 0, 0))
                (\<lambda>(s, fb, pk, tb).
                   let push_end = cycles s
                   in Option.bind (drain_rest u s) (\<lambda>s. Some (s,
                        \<lparr>packets = pk, total_bytes = tb, push_cycles = push_end - start_push,
                         drain_cycles = cycles s - push_end, first_out = snd fb,
                         total_cycles = cycles s - start_cycle - 4\<rparr>)))))"

section \<open>\<open>main\<close>\<close>

definition perf_test ::
  "undet \<Rightarrow> (packet_gen \<Rightarrow> u8 list \<times> packet_gen) \<Rightarrow> psim \<times> packet_gen \<times> perf_result list \<Rightarrow>
     (psim \<times> packet_gen \<times> perf_result list) option" where
  "perf_test u mk st =
     (case st of (s, g, rs) \<Rightarrow>
        let (pkt, g) = mk g
        in map_option (\<lambda>(s, r). (s, g, rs @ [r])) (measure_run u (psim_reset u 4 s) pkt 8 1000))"

fun perf_tests ::
  "undet \<Rightarrow> (packet_gen \<Rightarrow> u8 list \<times> packet_gen) list \<Rightarrow> psim \<times> packet_gen \<times> perf_result list \<Rightarrow>
     (psim \<times> packet_gen \<times> perf_result list) option" where
  "perf_tests u [] st = Some st"
| "perf_tests u (mk # mks) st = Option.bind (perf_test u mk st) (perf_tests u mks)"

definition first_tests :: "ipv4_hdr \<Rightarrow> (packet_gen \<Rightarrow> u8 list \<times> packet_gen) list" where
  "first_tests h0 =
     [bench_udp h0 1234 80 (replicate 22 0x78), bench_udp h0 1234 80 (replicate 214 0x78),
      bench_udp h0 1234 80 (replicate 470 0x78), bench_udp h0 1234 80 (replicate 1476 0x78),
      bench_tcp h0 4321 443 (replicate 22 0x78)]"

definition csv_tests :: "ipv4_hdr \<Rightarrow> (packet_gen \<Rightarrow> u8 list \<times> packet_gen) list" where
  "csv_tests h0 =
     map (\<lambda>(n, udp). if udp then bench_udp h0 1234 80 (replicate (n - 42) 0x78)
                     else bench_tcp h0 4321 443 (replicate (n - 54) 0x78))
       [(64, True), (256, True), (512, True), (1518, True), (64, False)]"

text \<open>The mixed test: the simulation with \<open>pkt_count\<close>, \<open>total_bytes\<close> and the cycles taken.\<close>

definition mixed_packet ::
  "undet \<Rightarrow> u8 list \<Rightarrow> u8 list \<Rightarrow> nat \<Rightarrow> psim \<times> int \<times> u64 \<Rightarrow> (psim \<times> int \<times> u64) option" where
  "mixed_packet u sp lp p st =
     (case st of (s, n, tb) \<Rightarrow>
        let pkt = (if p mod 2 = 0 then sp else lp)
        in map_option (\<lambda>s. (idle_cycle u s, n + 1, tb + of_nat (length pkt))) (push_silent u 8 pkt s))"

definition mixed_test :: "undet \<Rightarrow> ipv4_hdr \<Rightarrow> psim \<times> packet_gen \<Rightarrow> (psim \<times> packet_gen \<times> int \<times> u64 \<times> u64) option" where
  "mixed_test u h0 st =
     (case st of (s, g) \<Rightarrow>
        let (sp, g) = bench_udp h0 1234 80 (replicate 22 0x78) g;
            (lp, g) = bench_tcp h0 4321 443 (replicate 1476 0x78) g;
            s = set_ready True (psim_reset u 4 s);
            start = cycles s
        in Option.bind (for_loop (mixed_packet u sp lp) 0 1000 (s, 0, 0))
             (\<lambda>(s, n, tb). map_option (\<lambda>s. (s, g, n, tb, cycles s - start)) (drain_rest u s)))"

definition tb_perf_main ::
  "undet \<Rightarrow> ipv4_hdr \<Rightarrow> pipeline \<Rightarrow> (perf_result list \<times> (int \<times> u64 \<times> u64) \<times> perf_result list) option" where
  "tb_perf_main u h0 p =
     Option.bind (perf_tests u (first_tests h0) (psim_new p, new_gen, [])) (\<lambda>(s, g, rs).
     Option.bind (mixed_test u h0 (s, g)) (\<lambda>(s, g, mixed).
     Option.bind (perf_tests u (csv_tests h0) (s, g, [])) (\<lambda>(s, g, cs). Some (rs, mixed, cs))))"

section \<open>The slots during a run\<close>

text \<open>Beats \<open>xs\<close> pushed into slots \<open>L\<close>.\<close>

definition shifted :: "(u8 list \<times> bool) list \<Rightarrow> (u8 list \<times> bool) option list \<Rightarrow> (u8 list \<times> bool) option list" where
  "shifted xs L = take 8 (rev (map Some xs) @ L)"

lemma shifted_step:
  assumes "length L = 8"
  shows "shifted (x # xs) L = shifted xs (Some x # butlast L)"
  using assms by (simp add: shifted_def butlast_conv_take take_Cons' min_def)

lemma round_seen:
  fixes s :: psim and u :: undet and pkt :: "u8 list" and dw pos :: nat
  assumes "0 < dw" "dw \<le> 22" "live s" "pos < length pkt"
  defines "s' \<equiv> psim_post u (drive dw pkt pos (psim_pre u s))"
  shows "seen dw s' = Some (take dw (drop pos pkt), length (drop pos pkt) \<le> dw) # butlast (seen dw s)"
    "live s'" "cycles s' = cycles s + 1"
  unfolding s'_def
  using drive_pins [OF assms(1,2,4), of "psim_pre u s"] assms(2,3) by (simp_all add: seen_post live_post)

text \<open>What the measured push records, on the level of the slots: the cycle \<open>c\<close> of the first beat that
  finds the output valid.\<close>

fun timed ::
  "(u8 list \<times> bool) option list \<Rightarrow> u64 \<Rightarrow> (u8 list \<times> bool) list \<Rightarrow> bool \<times> u64 \<Rightarrow> bool \<times> u64" where
  "timed L c [] fb = fb"
| "timed L c (b # bs) fb =
     timed (Some b # butlast L) (c + 1) bs (if last L \<noteq> None \<and> \<not> fst fb then (True, c) else fb)"

lemma timed_run:
  assumes "0 < dw" "dw \<le> 22" "live s"
  shows "\<exists>s'. push_timed u st dw pkt pos s fb =
      Some (s', timed (seen dw s) (cycles s - st) (packet_beats dw (drop pos pkt)) fb) \<and>
    live s' \<and> seen dw s' = shifted (packet_beats dw (drop pos pkt)) (seen dw s) \<and>
    cycles s' = cycles s + of_nat (length (packet_beats dw (drop pos pkt)))"
  using assms(3)
proof (induction "length pkt - pos" arbitrary: pos s fb rule: less_induct)
  case less
  show ?case
  proof (cases "pos < length pkt")
    case False
    then show ?thesis using less.prems by (simp add: push_timed.simps shifted_def)
  next
    case True
    note r = round_seen [OF assms(1,2) less.prems True, of u]
    note beats = packet_beats_at [OF assms(1) True]
    define s1 where "s1 = psim_post u (drive dw pkt pos (psim_pre u s))"
    define fb1 where "fb1 = (if last (seen dw s) \<noteq> None \<and> \<not> fst fb then (True, cycles s - st) else fb)"
    have taken: "p_taken (drive dw pkt pos (psim_pre u s)) \<longleftrightarrow> last (seen dw s) \<noteq> None"
      using last_seen [OF assms(2), of "drive dw pkt pos (psim_pre u s)"] less.prems by auto
    have "length pkt - (pos + beat_size dw pkt pos) < length pkt - pos"
      using beat_size_pos [OF assms(1) True] True by simp
    from less.hyps [OF this r(2) [folded s1_def], of fb1] obtain s' where
      s': "push_timed u st dw pkt (pos + beat_size dw pkt pos) s1 fb1 =
        Some (s', timed (seen dw s1) (cycles s1 - st) (packet_beats dw (drop (pos + beat_size dw pkt pos) pkt)) fb1)"
      "live s'" "seen dw s' = shifted (packet_beats dw (drop (pos + beat_size dw pkt pos) pkt)) (seen dw s1)"
      "cycles s' = cycles s1 + of_nat (length (packet_beats dw (drop (pos + beat_size dw pkt pos) pkt)))"
      by blast
    have "push_timed u st dw pkt pos s fb = push_timed u st dw pkt (pos + beat_size dw pkt pos) s1 fb1"
      using True r(2) by (subst push_timed.simps) (simp add: Let_def taken live_ready fb1_def flip: s1_def)
    moreover have "timed (seen dw s) (cycles s - st) (packet_beats dw (drop pos pkt)) fb =
        timed (seen dw s1) (cycles s1 - st) (packet_beats dw (drop (pos + beat_size dw pkt pos) pkt)) fb1"
    proof -
      have "cycles s1 - st = cycles s - st + 1" using r(3) by (simp add: s1_def)
      then show ?thesis using r(1) unfolding beats s1_def fb1_def by (simp only: timed.simps)
    qed
    moreover have "seen dw s' = shifted (packet_beats dw (drop pos pkt)) (seen dw s)"
      unfolding beats using s'(3) r(1) by (simp add: shifted_step s1_def)
    moreover have "cycles s' = cycles s + of_nat (length (packet_beats dw (drop pos pkt)))"
      unfolding beats using s'(4) r(3) by (simp add: s1_def)
    ultimately show ?thesis using s'(1,2) by simp
  qed
qed

lemma silent_run:
  assumes "0 < dw" "dw \<le> 22" "live s"
  shows "\<exists>s'. push_dc u (\<lambda>_ _ a. a) dw pkt pos s () = Some (s', ()) \<and> live s' \<and>
    seen dw s' = shifted (packet_beats dw (drop pos pkt)) (seen dw s) \<and>
    cycles s' = cycles s + of_nat (length (packet_beats dw (drop pos pkt)))"
  using assms(3)
proof (induction "length pkt - pos" arbitrary: pos s rule: less_induct)
  case less
  show ?case
  proof (cases "pos < length pkt")
    case False
    then show ?thesis using less.prems by (simp add: push_dc.simps shifted_def)
  next
    case True
    note r = round_seen [OF assms(1,2) less.prems True, of u]
    have "length pkt - (pos + beat_size dw pkt pos) < length pkt - pos"
      using beat_size_pos [OF assms(1) True] True by simp
    from less.hyps [OF this r(2)] show ?thesis
      using True r unfolding packet_beats_at [OF assms(1) True]
      by (subst push_dc.simps) (simp add: Let_def live_ready shifted_step algebra_simps)
  qed
qed

text \<open>After a packet of at least seven beats and its idle cycle.\<close>

definition behind :: "nat \<Rightarrow> (u8 list \<times> bool) list \<Rightarrow> psim \<Rightarrow> bool" where
  "behind dw B s \<longleftrightarrow> trailing dw [None] (drop (length B - 7) B) 0 s \<and> \<not> s_tvalid (pins (pdut s))"

lemma idle_cycle_behind:
  assumes "dw \<le> 22" "live s" "seen dw s = shifted B L" "length L = 8" "7 \<le> length B"
  shows "behind dw B (idle_cycle u s)" "cycles (idle_cycle u s) = cycles s + 1"
proof -
  have live: "live (set_pipe (\<lambda>p. p\<lparr>s_tvalid := False\<rparr>) (psim_pre u s))" using assms(2) by (simp add: live_def)
  have "Suc (length B - 8) - (8 - length B) = length B - 7" using assms(5) by arith
  then have "butlast (shifted B L) = map Some (rev (drop (length B - 7) B))"
    using assms(4,5) by (simp add: shifted_def butlast_conv_take min_def take_rev rev_map take_map)
  then show "behind dw B (idle_cycle u s)"
    using assms(1-3) live by (simp add: behind_def trailing_def idle_cycle_def seen_post live_post)
qed (simp add: idle_cycle_def)

lemma drain_cycles_run:
  assumes "dw \<le> 22" "trailing dw xs q 0 s" "ends q" "length q \<le> n"
  shows "drain_gap u n s = (psim_cycle u ^^ length q) s"
    and "drain_rest u s = Some ((psim_cycle u ^^ length q) s)"
    and "trailing dw (replicate (length q) (input_of dw s) @ xs) [] 0 ((psim_cycle u ^^ length q) s)"
  using assms(2-4)
proof (induction q arbitrary: n xs s)
  case (Cons b q)
  { case 1
    note step = drain_valid [OF assms(1) 1(1), of u]
    obtain m where n: "n = Suc m" "length q \<le> m" using 1(3) by (cases n) auto
    show ?case
    proof (cases "q = []")
      case True
      then show ?thesis using step(1-3) 1(2) by (simp add: n ends_def Let_def flip: psim_cycle_def)
    next
      case False
      then have "ends q" "\<not> snd b" using 1(2) ends_suffix [of "[b]" q] by (auto simp: ends_def)
      then show ?thesis
        using Cons.IH(1) [OF step(4) _ n(2)] step(1-3)
        by (simp add: n Let_def funpow_swap1 flip: psim_cycle_def)
    qed }
  { case 2
    note step = drain_valid [OF assms(1) 2(1), of u]
    show ?case
    proof (cases "q = []")
      case True
      then show ?thesis using step(1-3) 2(2) by (simp add: drain_rest.simps ends_def Let_def flip: psim_cycle_def)
    next
      case False
      then have "ends q" "\<not> snd b" using 2(2) ends_suffix [of "[b]" q] by (auto simp: ends_def)
      then show ?thesis
        using Cons.IH(2) [OF step(4) _ order_refl] step(1-3)
        by (subst drain_rest.simps) (simp add: Let_def funpow_swap1 flip: psim_cycle_def)
    qed }
  { case 3
    note step = drain_valid [OF assms(1) 3(1), of u]
    show ?case
    proof (cases "q = []")
      case True
      then show ?thesis using step(4) by simp
    next
      case False
      then have "ends q" using 3(2) ends_suffix [of "[b]" q] by auto
      then have "trailing dw (replicate (length q) (input_of dw s) @ input_of dw s # xs) [] 0
          ((psim_cycle u ^^ length q) (psim_cycle u s))"
        using Cons.IH(3) [OF step(4), of "length q"] step(5) by simp
      then show ?thesis by (simp add: replicate_cons [symmetric] funpow_swap1 del: replicate_Suc)
    qed }
qed (simp_all add: ends_def)

lemma cycle_pow_simps [simp]:
  "pins (pdut ((psim_cycle u ^^ n) s)) = pins (pdut s)" "cycles ((psim_cycle u ^^ n) s) = cycles s + of_nat n"
  by (induction n) simp_all

text \<open>Draining what is left leaves an idle simulation after seven cycles.\<close>

lemma drain_behind:
  assumes "dw \<le> 22" "behind dw B s" "ends B" "7 \<le> length B" "7 \<le> n"
  shows "drain_gap u n s = (psim_cycle u ^^ 7) s" "drain_rest u s = Some ((psim_cycle u ^^ 7) s)"
    "idle ((psim_cycle u ^^ 7) s)" "m_tready (pins (pdut ((psim_cycle u ^^ 7) s)))"
proof -
  define q where "q = drop (length B - 7) B"
  have q: "length q = 7" using assms(4) by (simp add: q_def)
  have "ends (take (length B - 7) B @ q)" "q \<noteq> []" using assms(3) q by (auto simp: q_def)
  then have ends: "ends q" by (blast intro: ends_suffix)
  have tr: "trailing dw [None] q 0 s" and low: "\<not> s_tvalid (pins (pdut s))"
    using assms(2) by (simp_all add: behind_def q_def)
  have in_None: "input_of dw s = None" using low by (simp add: input_of_def)
  note run = drain_cycles_run [OF assms(1) tr ends, of n u] drain_cycles_run(2,3) [OF assms(1) tr ends order_refl, of u]
  show "drain_gap u n s = (psim_cycle u ^^ 7) s" using run(1) assms(5) q by simp
  show "drain_rest u s = Some ((psim_cycle u ^^ 7) s)" using run(4) q by simp
  have "trailing dw (replicate 8 None) [] 0 ((psim_cycle u ^^ 7) s)"
    using run(5) unfolding q in_None by (simp add: eval_nat_numeral)
  then show "idle ((psim_cycle u ^^ 7) s)" by (rule drained_idle) (simp_all add: low)
  show "m_tready (pins (pdut ((psim_cycle u ^^ 7) s)))" using tr by (simp add: trailing_def live_def)
qed

text \<open>What is recorded as the first output.\<close>

lemma timed_seen [simp]: "timed L c bs (True, x) = (True, x)"
  by (induction bs arbitrary: L c) simp_all

lemma timed_gap:
  "ys \<noteq> [] \<or> 0 < n \<Longrightarrow> timed (map Some ys @ replicate n None) c bs (False, x) =
     (if n < length bs then (True, c + of_nat n) else (False, x))"
proof (induction n arbitrary: ys c bs)
  case 0
  then show ?case by (cases bs) (auto simp: last_map)
next
  case (Suc n)
  have L: "map Some ys @ replicate (Suc n) None = (map Some ys @ replicate n None) @ [None]"
    by (simp add: replicate_append_same)
  have next_slots: "Some b # butlast (map Some ys @ replicate (Suc n) None) = map Some (b # ys) @ replicate n None"
    for b :: "u8 list \<times> bool"
    unfolding L by (simp only: butlast_snoc list.map append_Cons)
  have last: "last (map Some ys @ replicate (Suc n) None) = None" unfolding L by simp
  show ?case
  proof (cases bs)
    case (Cons b bs')
    have "timed (map Some ys @ replicate (Suc n) None) c bs (False, x) =
        timed (map Some (b # ys) @ replicate n None) (c + 1) bs' (False, x)"
      unfolding Cons timed.simps next_slots using last by simp
    then show ?thesis using Suc.IH [of "b # ys" "c + 1" bs'] by (simp add: Cons algebra_simps)
  qed simp
qed

section \<open>What \<open>measure\<close> counts\<close>

lemma idle_seen: "idle s \<Longrightarrow> seen dw s = replicate 8 None"
  by (simp add: idle_def seen_def)

lemma preheat_run:
  assumes "idle s" "m_tready (pins (pdut s))" "48 < length pkt"
  shows "\<exists>s'. preheat u 8 pkt s = Some s' \<and> idle s' \<and> m_tready (pins (pdut s')) \<and>
    cycles s' = cycles s + of_nat (length (packet_beats 8 pkt)) + 8"
proof -
  let ?B = "packet_beats 8 pkt"
  have k: "7 \<le> length ?B" using assms(3) by (simp add: length_packet_beats)
  have ends: "ends ?B" using assms(3) by (intro ends_packet) auto
  obtain s1 where s1: "push_silent u 8 pkt s = Some s1" "live s1" "seen 8 s1 = shifted ?B (seen 8 s)"
    "cycles s1 = cycles s + of_nat (length ?B)"
    using silent_run [of 8 s u pkt 0] idle_live [OF assms(1,2)] by (auto simp: push_silent_def)
  note b = idle_cycle_behind [OF _ s1(2,3) _ k, of u]
  have "preheat u 8 pkt s = Some ((psim_cycle u ^^ 7) (idle_cycle u s1))"
    using drain_behind(1) [OF _ b(1) ends k, of 10000 u] by (simp add: preheat_def s1(1))
  then show ?thesis
    using drain_behind(3,4) [OF _ b(1) ends k, of 7 u] b(2) s1(4) by simp
qed

text \<open>The state of the measuring loop after \<open>i\<close> packets.\<close>

definition measuring :: "u64 \<Rightarrow> u8 list \<Rightarrow> nat \<Rightarrow> measure_state \<Rightarrow> bool" where
  "measuring c0 pkt i st \<longleftrightarrow> (case st of (s, fb, pk, tb) \<Rightarrow>
     let B = packet_beats 8 pkt; k = length B
     in live s \<and> pk = of_nat i \<and> tb = of_nat (i * length pkt) \<and> cycles s = c0 + of_nat (i * (k + 1)) \<and>
        (if i = 0 then seen 8 s = replicate 8 None \<and> fb = (False, 0)
         else behind 8 B s \<and> fb = (if 8 < k then (True, 8) else if i = 1 then (False, 0) else (True, of_nat (k + 1)))))"

lemma measuring_step:
  assumes "48 < length pkt" "measuring c0 pkt i st"
  shows "\<exists>st'. measure_packet u c0 8 pkt i st = Some st' \<and> measuring c0 pkt (Suc i) st'"
proof -
  define B where "B = packet_beats 8 pkt"
  have k: "7 \<le> length B" using assms(1) by (simp add: B_def length_packet_beats)
  obtain s fb pk tb where st: "st = (s, fb, pk, tb)" by (cases st)
  have m: "live s" "pk = of_nat i" "tb = of_nat (i * length pkt)" "cycles s = c0 + of_nat (i * (length B + 1))"
    "i = 0 \<Longrightarrow> seen 8 s = replicate 8 None \<and> fb = (False, 0)"
    "i \<noteq> 0 \<Longrightarrow> behind 8 B s \<and> fb = (if 8 < length B then (True, 8) else if i = 1 then (False, 0)
       else (True, of_nat (length B + 1)))"
    using assms(2) by (auto simp: measuring_def st Let_def B_def)
  define fb' where "fb' = timed (seen 8 s) (cycles s - c0) B fb"
  obtain s1 where s1: "push_timed u c0 8 pkt 0 s fb = Some (s1, fb')" "live s1"
    "seen 8 s1 = shifted B (seen 8 s)" "cycles s1 = cycles s + of_nat (length B)"
    using timed_run [of 8 s u c0 pkt 0 fb] m(1) by (auto simp: B_def fb'_def)
  note b = idle_cycle_behind [OF _ s1(2,3) _ k, of u]
  have fb': "fb' = (if 8 < length B then (True, 8) else if Suc i = 1 then (False, 0) else (True, of_nat (length B + 1)))"
  proof (cases "i = 0")
    case True
    then show ?thesis using m(4,5) timed_gap [of "[]" 8 0 B 0] by (simp add: fb'_def)
  next
    case False
    note fb = conjunct2 [OF m(6) [OF False]]
    show ?thesis
    proof (cases "8 < length B \<or> i \<noteq> 1")
      case True
      then show ?thesis using False fb by (auto simp: fb'_def)
    next
      case F: False
      have "seen 8 s = map Some [] @ None # map Some (rev (drop (length B - 7) B))"
        using m(6) [OF False] by (simp add: behind_def trailing_def)
      moreover have "drop (length B - 7) B \<noteq> []" "B \<noteq> []" using k by auto
      ultimately have "timed (seen 8 s) c B (False, 0) = (True, c)" for c
        by (cases B) (auto simp: last_map)
      then show ?thesis using F fb m(4) by (simp add: fb'_def)
    qed
  qed
  have "live (idle_cycle u s1)" using b(1) by (simp add: behind_def trailing_def)
  then have "measuring c0 pkt (Suc i) (idle_cycle u s1, fb', pk + 1, tb + of_nat (length pkt))"
    using m(2-4) b s1(4) fb' by (simp add: measuring_def Let_def algebra_simps flip: B_def)
  then show ?thesis by (simp add: measure_packet_def st s1(1))
qed

definition perf_of :: "nat \<Rightarrow> nat \<Rightarrow> perf_result" where
  "perf_of n len = (let k = (len + 7) div 8 in
     \<lparr>packets = of_nat n, total_bytes = of_nat (n * len), push_cycles = of_nat (n * (k + 1)), drain_cycles = 7,
      first_out = (if 8 < k then 8 else of_nat (k + 1)), total_cycles = of_nat (n * (k + 1) + 2 * k + 19)\<rparr>)"

lemma measure_run_counts:
  assumes "idle s" "48 < length pkt" "2 \<le> n"
  shows "\<exists>s'. measure_run u s pkt 8 n = Some (s', perf_of n (length pkt)) \<and> idle s'"
proof -
  define B where "B = packet_beats 8 pkt"
  have len: "length B = (length pkt + 7) div 8" by (simp add: B_def length_packet_beats)
  have k: "7 \<le> length B" using assms(2) by (simp add: len)
  have ends: "ends B" unfolding B_def using assms(2) by (intro ends_packet) auto
  let ?s0 = "set_ready True s"
  have s0: "idle ?s0" "m_tready (pins (pdut ?s0))" using assms(1) by simp_all
  obtain s1 where s1: "preheat u 8 pkt ?s0 = Some s1" "idle s1" "m_tready (pins (pdut s1))"
    "cycles s1 = cycles ?s0 + of_nat (length B) + 8"
    using preheat_run [OF s0 assms(2), of u] by (auto simp: B_def)
  obtain s2 where s2: "preheat u 8 pkt s1 = Some s2" "idle s2" "m_tready (pins (pdut s2))"
    "cycles s2 = cycles s1 + of_nat (length B) + 8"
    using preheat_run [OF s1(2,3) assms(2), of u] by (auto simp: B_def)
  have heat: "for_loop (\<lambda>p. preheat u 8 pkt) 0 2 ?s0 = Some s2"
    using s1(1) s2(1) by (simp add: numeral_2_eq_2)
  have "measuring (cycles s2) pkt 0 (s2, (False, 0), 0, 0)"
    using s2(2,3) idle_live idle_seen by (simp add: measuring_def Let_def)
  then obtain st where st: "for_loop (measure_packet u (cycles s2) 8 pkt) 0 n (s2, (False, 0), 0, 0) = Some st"
    "measuring (cycles s2) pkt (0 + n) st"
    using for_loop_inv [of "measuring (cycles s2) pkt" 0 _ "measure_packet u (cycles s2) 8 pkt" n]
      measuring_step [OF assms(2)] by blast
  obtain s3 fb pk tb where s3: "st = (s3, fb, pk, tb)" by (cases st)
  have m: "behind 8 B s3" "pk = of_nat n" "tb = of_nat (n * length pkt)"
    "cycles s3 = cycles s2 + of_nat (n * (length B + 1))"
    "snd fb = (if 8 < length B then 8 else of_nat (length B + 1))"
    using st(2) assms(3) by (auto simp: measuring_def s3 Let_def B_def)
  note d = drain_behind [OF _ m(1) ends k, of 7 u]
  have "measure_run u s pkt 8 n = Some ((psim_cycle u ^^ 7) s3, perf_of n (length pkt))"
    using heat st(1) d(2) m(2-5) s1(4) s2(4)
    by (simp add: measure_run_def s3 Let_def perf_of_def algebra_simps flip: len)
  then show ?thesis using d(3) by simp
qed

section \<open>The tests of \<open>main\<close>\<close>

lemma idle_reset: "idle s \<or> (\<exists>p. s = psim_new p) \<Longrightarrow> idle (psim_reset u 4 s)"
  by (rule reset_idle) (auto simp: idle_def psim_new_def pipe_pins0_def edge)

text \<open>The tests one by one; \<open>n\<close> is the size of the packet a test sends.\<close>

lemma perf_tests_run:
  assumes "idle s \<or> (\<exists>p. s = psim_new p)" "list_all2 (\<lambda>mk n. 48 < n \<and> (\<forall>g. length (fst (mk g)) = n)) mks ns" "mks \<noteq> []"
  shows "\<exists>s' g'. perf_tests u mks (s, g, rs) = Some (s', g', rs @ map (perf_of 1000) ns) \<and> idle s'"
  using assms(2,1,3)
proof (induction mks ns arbitrary: s g rs rule: list_all2_induct)
  case (Cons mk mks n ns)
  obtain s1 where s1: "measure_run u (psim_reset u 4 s) (fst (mk g)) 8 1000 = Some (s1, perf_of 1000 n)" "idle s1"
    using measure_run_counts [OF idle_reset [OF Cons.prems(1)], of "fst (mk g)" 1000 u u] Cons.hyps(1) by auto
  have step: "perf_tests u (mk # mks) (s, g, rs) = perf_tests u mks (s1, snd (mk g), rs @ [perf_of 1000 n])"
    by (simp add: perf_test_def split_def Let_def s1(1))
  show ?case
  proof (cases "mks = []")
    case True
    then show ?thesis using step s1(2) Cons.hyps(2) by simp
  next
    case False
    then show ?thesis using Cons.IH [of s1 "snd (mk g)" "rs @ [perf_of 1000 n]"] s1(2) by (simp only: step) simp
  qed
qed simp

definition mixing :: "u64 \<Rightarrow> u8 list \<Rightarrow> u8 list \<Rightarrow> nat \<Rightarrow> psim \<times> int \<times> u64 \<Rightarrow> bool" where
  "mixing c0 sp lp i st \<longleftrightarrow> (case st of (s, n, tb) \<Rightarrow>
     live s \<and> n = int i \<and> cycles s = c0 + of_nat (i div 2 * 202 + (if odd i then 9 else 0)) \<and>
     tb = of_nat (i div 2 * 1594 + (if odd i then 64 else 0)) \<and>
     (0 < i \<longrightarrow> behind 8 (packet_beats 8 (if odd i then sp else lp)) s))"

lemma mixing_step:
  assumes "length sp = 64" "length lp = 1530" "mixing c0 sp lp i st"
  shows "\<exists>st'. mixed_packet u sp lp i st = Some st' \<and> mixing c0 sp lp (Suc i) st'"
proof -
  obtain s n tb where st: "st = (s, n, tb)" by (cases st)
  define pkt where "pkt = (if i mod 2 = 0 then sp else lp)"
  have beats: "length (packet_beats 8 pkt) = (if even i then 8 else 192)"
    using assms(1,2) by (auto simp: pkt_def length_packet_beats even_iff_mod_2_eq_zero)
  then have k: "7 \<le> length (packet_beats 8 pkt)" by simp
  have m: "live s" "n = int i" "cycles s = c0 + of_nat (i div 2 * 202 + (if odd i then 9 else 0))"
    "tb = of_nat (i div 2 * 1594 + (if odd i then 64 else 0))"
    using assms(3) by (simp_all add: mixing_def st)
  obtain s1 where s1: "push_silent u 8 pkt s = Some s1" "live s1" "seen 8 s1 = shifted (packet_beats 8 pkt) (seen 8 s)"
    "cycles s1 = cycles s + of_nat (length (packet_beats 8 pkt))"
    using silent_run [of 8 s u pkt 0] m(1) by (auto simp: push_silent_def)
  note b = idle_cycle_behind [OF _ s1(2,3) _ k, of u]
  have "live (idle_cycle u s1)" using b(1) by (simp add: behind_def trailing_def)
  moreover have "pkt = (if odd (Suc i) then sp else lp)" by (simp add: pkt_def flip: even_iff_mod_2_eq_zero)
  moreover have "length pkt = (if even i then 64 else 1530)"
    using assms(1,2) by (simp add: pkt_def even_iff_mod_2_eq_zero)
  ultimately have "mixing c0 sp lp (Suc i) (idle_cycle u s1, n + 1, tb + of_nat (length pkt))"
    using m(2-4) b s1(4) beats by (cases "even i") (simp_all add: mixing_def algebra_simps)
  moreover have "mixed_packet u sp lp i st = Some (idle_cycle u s1, n + 1, tb + of_nat (length pkt))"
    by (simp add: mixed_packet_def st s1(1) flip: pkt_def)
  ultimately show ?thesis by blast
qed

lemma mixed_test_run:
  assumes "idle s"
  shows "\<exists>s' g'. mixed_test u h0 (s, g) = Some (s', g', 1000, 797000, 101007) \<and> idle s'"
proof -
  define sp g1 where "sp = fst (bench_udp h0 1234 80 (replicate 22 0x78) g)"
    and "g1 = snd (bench_udp h0 1234 80 (replicate 22 0x78) g)"
  define lp g2 where "lp = fst (bench_tcp h0 4321 443 (replicate 1476 0x78) g1)"
    and "g2 = snd (bench_tcp h0 4321 443 (replicate 1476 0x78) g1)"
  have len: "length sp = 64" "length lp = 1530" by (simp_all add: sp_def lp_def)
  define s0 where "s0 = set_ready True (psim_reset u 4 s)"
  have "idle s0" "m_tready (pins (pdut s0))" using idle_reset assms by (simp_all add: s0_def)
  then have "mixing (cycles s0) sp lp 0 (s0, 0, 0)" using idle_live by (simp add: mixing_def)
  then obtain st where st: "for_loop (mixed_packet u sp lp) 0 1000 (s0, 0, 0) = Some st" "mixing (cycles s0) sp lp (0 + 1000) st"
    using for_loop_inv [of "mixing (cycles s0) sp lp" 0 _ "mixed_packet u sp lp" 1000] mixing_step [OF len] by blast
  obtain s1 n tb where s1: "st = (s1, n, tb)" by (cases st)
  have m: "behind 8 (packet_beats 8 lp) s1" "n = 1000" "tb = 797000" "cycles s1 = cycles s0 + 101000"
    using st(2) by (simp_all add: mixing_def s1)
  have "lp \<noteq> []" using len by auto
  then have "ends (packet_beats 8 lp)" "7 \<le> length (packet_beats 8 lp)"
    using len by (simp_all add: ends_packet length_packet_beats)
  note d = drain_behind [OF _ m(1) this, of 7 u]
  have "mixed_test u h0 (s, g) = Some ((psim_cycle u ^^ 7) s1, g2, 1000, 797000, 101007)"
    using st(1) d(2) m(2-4)
    by (simp add: mixed_test_def split_def Let_def s1 flip: sp_def g1_def lp_def g2_def s0_def)
      (simp add: s0_def)
  then show ?thesis using d(3) by simp
qed

text \<open>All eleven measurements.\<close>

lemma tb_perf_main_counts:
  "tb_perf_main u h0 p =
     Some (map (perf_of 1000) [64, 256, 512, 1518, 76], (1000, 797000, 101007),
       map (perf_of 1000) [64, 256, 512, 1518, 64])"
proof -
  obtain s1 g1 where 1: "perf_tests u (first_tests h0) (psim_new p, new_gen, []) =
      Some (s1, g1, [] @ map (perf_of 1000) [64, 256, 512, 1518, 76])" "idle s1"
    using perf_tests_run [of "psim_new p" "first_tests h0" "[64, 256, 512, 1518, 76]" u new_gen "[]"]
    by (auto simp: first_tests_def)
  obtain s2 g2 where 2: "mixed_test u h0 (s1, g1) = Some (s2, g2, 1000, 797000, 101007)" "idle s2"
    using mixed_test_run [OF 1(2)] by blast
  obtain s3 g3 where 3: "perf_tests u (csv_tests h0) (s2, g2, []) =
      Some (s3, g3, [] @ map (perf_of 1000) [64, 256, 512, 1518, 64])"
    using perf_tests_run [of s2 "csv_tests h0" "[64, 256, 512, 1518, 64]" u g2 "[]"] 2(2)
    by (auto simp: csv_tests_def)
  show "tb_perf_main u h0 p =
      Some (map (perf_of 1000) [64, 256, 512, 1518, 76], (1000, 797000, 101007),
        map (perf_of 1000) [64, 256, 512, 1518, 64])"
    unfolding tb_perf_main_def 1 2 3 by (simp add: 1 2 3)
qed

section \<open>Properties\<close>

text \<open>What the performance bench measures, exactly. For a stream of \<open>n\<close> copies of a packet of more
  than 48 bytes, that is of \<open>k \<ge> 7\<close> beats, from an idle pipeline: \<open>k + 1\<close> cycles per packet, seven to
  drain. The reported latency is the eight stages of the pipeline if \<open>k \<noteq> 8\<close>, but 9 for the
  eight-beat packets of 64 bytes, because the bench does not look at the output in its idle cycle.
  The total subtracts 4 cycles for the pre-heat, which takes \<open>2 * k + 16\<close>. All eleven measurements
  of the program return, with these counts.\<close>

theorem tb_perf_measures:
  "(\<forall>s pkt n. idle s \<and> 48 < length pkt \<and> 2 \<le> n \<longrightarrow>
      (\<exists>s'. measure_run u s pkt 8 n = Some (s', perf_of n (length pkt)) \<and> idle s'))
   \<and> tb_perf_main u h0 p =
      Some (map (perf_of 1000) [64, 256, 512, 1518, 76], (1000, 797000, 101007),
        map (perf_of 1000) [64, 256, 512, 1518, 64])"
proof
  show "\<forall>s pkt n. idle s \<and> 48 < length pkt \<and> 2 \<le> n \<longrightarrow>
      (\<exists>s'. measure_run u s pkt 8 n = Some (s', perf_of n (length pkt)) \<and> idle s')"
    using measure_run_counts by blast
  show "tb_perf_main u h0 p =
      Some (map (perf_of 1000) [64, 256, 512, 1518, 76], (1000, 797000, 101007),
        map (perf_of 1000) [64, 256, 512, 1518, 64])"
    by (rule tb_perf_main_counts)
qed

theorem tb_perf_measures_witness:
  "\<forall>u p. \<exists>s'. measure_run u (psim_reset u 4 (psim_new p)) (replicate 64 7) 8 10 = Some (s', perf_of 10 64)"
proof (intro allI)
  fix u p
  have "idle (psim_reset u 4 (psim_new p)) \<and> 48 < length (replicate 64 7) \<and> 2 \<le> (10 :: nat)"
    using new_reset_idle [of 4 u p] by simp
  then have "\<exists>s'. measure_run u (psim_reset u 4 (psim_new p)) (replicate 64 7) 8 10 =
      Some (s', perf_of 10 (length (replicate 64 (7 :: u8)))) \<and> idle s'"
    using conjunct1 [OF tb_perf_measures [where u = u]] by (metis length_replicate)
  then show "\<exists>s'. measure_run u (psim_reset u 4 (psim_new p)) (replicate 64 7) 8 10 = Some (s', perf_of 10 64)"
    by auto
qed

end
