(* ===== verification/Binary64.thy ===== *)
theory Binary64
  imports NPE_Prelude Complex_Main
begin

text \<open>
  The type \<open>double\<close> of the benches: the values of IEEE 754 binary64 that are not negative, with the
  operations the code uses (conversion from an integer, product, quotient and comparison), each
  rounded to the nearest value, ties to even. The rounding errors of a chain of operations are
  collected in one relation, \<open>near\<close>.
\<close>

section \<open>Rounding\<close>

datatype double = Fin real | Inf | NaN

definition round_even :: "real \<Rightarrow> int" where
  "round_even x =
     (let n = \<lfloor>x\<rfloor>; d = x - of_int n
      in if d < 1 / 2 \<or> d = 1 / 2 \<and> even n then n else n + 1)"

text \<open>The exponent of the last bit: the largest of -1073 to 971 for which the significand keeps its 53
  bits, and -1074 for the numbers below.\<close>

fun top_exp :: "(int \<Rightarrow> bool) \<Rightarrow> nat \<Rightarrow> int" where
  "top_exp P 0 = -1074"
| "top_exp P (Suc n) = (if P (int n - 1073) then int n - 1073 else top_exp P n)"

definition ulp_exp :: "real \<Rightarrow> int" where
  "ulp_exp x = top_exp (\<lambda>e. 2 ^ 52 * 2 powi e \<le> x) 2045"

definition rnd :: "real \<Rightarrow> double" where
  "rnd x = (let e = ulp_exp x; y = of_int (round_even (x / 2 powi e)) * 2 powi e
     in if y < 2 ^ 1024 then Fin y else Inf)"

definition of_u64 :: "u64 \<Rightarrow> double" where
  "of_u64 w = rnd (real (unat w))"

instantiation double :: "{times, inverse, ord}"
begin

fun times_double :: "double \<Rightarrow> double \<Rightarrow> double" where
  "Fin a * Fin b = rnd (a * b)"
| "Inf * Inf = Inf"
| "Inf * Fin b = (if b = 0 then NaN else Inf)"
| "Fin a * Inf = (if a = 0 then NaN else Inf)"
| "NaN * b = NaN"
| "a * NaN = NaN"

fun divide_double :: "double \<Rightarrow> double \<Rightarrow> double" where
  "Fin a div Fin b = (if b = 0 then if a = 0 then NaN else Inf else rnd (a / b))"
| "Inf div Inf = NaN"
| "Inf div Fin b = Inf"
| "Fin a div Inf = Fin 0"
| "NaN div b = NaN"
| "a div NaN = NaN"

definition inverse_double :: "double \<Rightarrow> double" where
  "inverse a = Fin 1 div (a :: double)"

fun less_double :: "double \<Rightarrow> double \<Rightarrow> bool" where
  "Fin a < Fin b \<longleftrightarrow> a < b"
| "Fin a < Inf \<longleftrightarrow> True"
| "Inf < b \<longleftrightarrow> False"
| "NaN < b \<longleftrightarrow> False"
| "Fin a < NaN \<longleftrightarrow> False"

definition less_eq_double :: "double \<Rightarrow> double \<Rightarrow> bool" where
  "a \<le> b \<longleftrightarrow> a < b \<or> a = b \<and> b \<noteq> (NaN :: double)"

instance ..

end

section \<open>Accuracy of a rounding\<close>

lemma round_even_near: "\<bar>of_int (round_even x) - x\<bar> \<le> 1 / 2"
proof -
  have "0 \<le> x - of_int \<lfloor>x\<rfloor>" "x - of_int \<lfloor>x\<rfloor> < 1" by linarith+
  then show ?thesis by (auto simp: round_even_def Let_def)
qed

lemma round_even_int: "round_even (of_int n) = n"
  by (simp add: round_even_def)

lemma top_exp_le: "top_exp P n \<le> int n - 1074"
  by (induction n) auto

lemma top_exp_top: "top_exp P n < e \<Longrightarrow> e \<le> int n - 1074 \<Longrightarrow> \<not> P e"
proof (induction n)
  case (Suc n)
  then show ?case by (cases "e = int n - 1073") (auto split: if_splits)
qed simp

lemma top_exp_sat: "P e \<Longrightarrow> -1074 < e \<Longrightarrow> e \<le> int n - 1074 \<Longrightarrow> P (top_exp P n)"
proof (induction n)
  case (Suc n)
  then show ?case by (cases "e = int n - 1073") auto
qed simp

lemma two_powi: "(2 :: real) ^ m * 2 powi e = 2 powi (int m + e)"
  by (simp add: power_int_add power_int_of_nat)

text \<open>In the range of normal numbers the significand has 53 bits.\<close>

lemma ulp_exp_bounds:
  assumes "2 powi -1000 \<le> x" "x < 2 powi 1000"
  shows "2 ^ 52 * 2 powi ulp_exp x \<le> x" "x < 2 ^ 53 * 2 powi ulp_exp x" "ulp_exp x < 971"
proof -
  let ?P = "\<lambda>e :: int. 2 ^ 52 * 2 powi e \<le> x"
  have "(2 :: real) powi (int 52 + -1073) \<le> 2 powi -1000" by (intro power_int_increasing) simp_all
  then have low: "?P (-1073)" using assms(1) unfolding two_powi by (rule order.trans)
  show sat: "2 ^ 52 * 2 powi ulp_exp x \<le> x"
    unfolding ulp_exp_def by (rule top_exp_sat [of ?P "-1073" 2045]) (use low in simp_all)
  have "(2 :: real) powi 1000 \<le> 2 powi (int 52 + 971)" by (intro power_int_increasing) simp_all
  then have "\<not> ?P 971" using assms(2) unfolding two_powi by linarith
  then have "ulp_exp x \<noteq> 971" using sat by metis
  then show top: "ulp_exp x < 971" using top_exp_le [of ?P 2045] by (simp add: ulp_exp_def)
  have "\<not> ?P (ulp_exp x + 1)"
    by (rule top_exp_top [of ?P 2045]) (use top in \<open>simp_all add: ulp_exp_def\<close>)
  then show "x < 2 ^ 53 * 2 powi ulp_exp x" by (simp add: power_int_add)
qed

lemma rnd_accurate:
  assumes "2 powi -1000 \<le> x" "x < 2 powi 1000"
  shows "\<exists>y. rnd x = Fin y \<and> \<bar>y - x\<bar> \<le> x / 2 ^ 53"
proof -
  let ?e = "ulp_exp x"
  let ?y = "of_int (round_even (x / 2 powi ?e)) * 2 powi ?e :: real"
  note b = ulp_exp_bounds [OF assms]
  have pos: "0 < (2 :: real) powi ?e" by simp
  have "?y - x = (of_int (round_even (x / 2 powi ?e)) - x / 2 powi ?e) * 2 powi ?e" by (simp add: field_simps)
  then have "\<bar>?y - x\<bar> = \<bar>of_int (round_even (x / 2 powi ?e)) - x / 2 powi ?e\<bar> * 2 powi ?e" using pos by (simp add: abs_mult)
  also have "\<dots> \<le> 1 / 2 * 2 powi ?e" using round_even_near pos by (intro mult_right_mono) simp_all
  also have "\<dots> \<le> x / 2 ^ 53" using b(1) by (simp add: field_simps)
  finally have err: "\<bar>?y - x\<bar> \<le> x / 2 ^ 53" .
  have "0 < (2 :: real) powi -1000" by simp
  then have "0 < x" using assms(1) by linarith
  then have "x / 2 ^ 53 \<le> x" by (simp add: field_simps)
  moreover have "y < 2 ^ 1 * b" if "\<bar>y - x\<bar> \<le> d" "d \<le> x" "x < b" for y d b :: real
    using that by simp
  ultimately have "?y < 2 ^ 1 * 2 powi 1000" using err assms(2) by blast
  also have "\<dots> \<le> (2 :: real) powi (int 1024)" unfolding two_powi by (intro power_int_increasing) simp_all
  finally have "?y < 2 ^ 1024" unfolding power_int_of_nat .
  then have "rnd x = Fin ?y" by (simp add: rnd_def Let_def)
  then show ?thesis using err by blast
qed

text \<open>Integers below \<open>2 ^ 53\<close> are exact.\<close>

lemma top_exp_cases: "top_exp P n = -1074 \<or> P (top_exp P n)"
  by (induction n) auto

lemma rnd_nat:
  assumes "n < 2 ^ 53"
  shows "rnd (real n) = Fin (real n)"
proof -
  let ?e = "ulp_exp (real n)"
  have n: "real n < 2 ^ 53" using assms by (metis of_nat_less_iff of_nat_numeral of_nat_power)
  have "?e \<le> 0"
  proof (rule ccontr)
    assume "\<not> ?e \<le> 0"
    then have "2 ^ 52 * 2 powi ?e \<le> real n"
      using top_exp_cases [of "\<lambda>e. 2 ^ 52 * 2 powi e \<le> real n" 2045] by (auto simp: ulp_exp_def)
    moreover have "(2 :: real) powi 1 \<le> 2 powi ?e" using \<open>\<not> ?e \<le> 0\<close> by (intro power_int_increasing) simp_all
    ultimately show False using n by simp
  qed
  then obtain k where k: "?e = - int k" using nonpos_int_cases by blast
  have "real n / 2 powi ?e = of_int (int (n * 2 ^ k))" by (simp add: k power_int_minus divide_inverse)
  moreover have "of_int (int (n * 2 ^ k)) * 2 powi ?e = real n" by (simp add: k power_int_minus)
  ultimately have "rnd (real n) = (if real n < 2 ^ 1024 then Fin (real n) else Inf)"
    by (simp only: rnd_def Let_def round_even_int)
  moreover have "real n < 2 ^ 1024" by (rule less_le_trans [OF n]) (intro power_increasing; simp)
  ultimately show ?thesis by (simp only: if_True)
qed

section \<open>Errors of a chain of operations\<close>

definition slack :: real where
  "slack = 1 + 1 / 2 ^ 52"

definition near :: "nat \<Rightarrow> double \<Rightarrow> real \<Rightarrow> bool" where
  "near n d v \<longleftrightarrow> (\<exists>y. d = Fin y \<and> v / slack ^ n \<le> y \<and> y \<le> v * slack ^ n)"

definition moderate :: "real \<Rightarrow> bool" where
  "moderate v \<longleftrightarrow> 2 powi -500 \<le> v \<and> v \<le> 2 powi 500"

lemma moderate_pos: "moderate v \<Longrightarrow> 0 < v"
  by (rule less_le_trans [of 0 "2 powi -500"]) (simp_all add: moderate_def)

lemma slack_ge: "1 \<le> slack" "0 < slack ^ n" "1 \<le> slack ^ n"
  by (simp_all add: slack_def one_le_power)

lemma slack_small: "n \<le> 20 \<Longrightarrow> slack ^ n \<le> 2"
proof -
  assume "n \<le> 20"
  then have "slack ^ n \<le> slack ^ 20" using slack_ge(1) by (rule power_increasing)
  also have "\<dots> \<le> (33 / 32) ^ 20" by (rule power_mono) (simp_all add: slack_def)
  also have "\<dots> \<le> 2" by (simp add: power_divide)
  finally show ?thesis .
qed

lemma near_rnd:
  assumes "moderate v" "v / slack ^ n \<le> x" "x \<le> v * slack ^ n" "n \<le> 20"
  shows "near (n + 1) (rnd x) v"
proof -
  note v = moderate_pos [OF assms(1)] and c = slack_ge(2) [of n] slack_small [OF assms(4)]
  have "v / 2 \<le> v / slack ^ n" using v c by (intro divide_left_mono) simp_all
  moreover have "v * slack ^ n \<le> v * 2" using v c by simp
  ultimately have x: "v / 2 \<le> x" "x \<le> v * 2" using assms(2,3) by (blast intro: order.trans)+
  then have "0 < x" using v by linarith
  have "(2 :: real) powi -1000 \<le> 2 powi (-500 - 1)" "2 ^ 1 * (2 :: real) powi 500 < 2 powi 1000"
    unfolding two_powi by (intro power_int_increasing power_int_strict_increasing; simp)+
  then have "2 powi -1000 \<le> x" "x < 2 powi 1000"
    using x assms(1) by (simp_all add: moderate_def power_int_diff)
  from rnd_accurate [OF this] obtain y where y: "rnd x = Fin y" "\<bar>y - x\<bar> \<le> x / 2 ^ 53" by blast
  have "y \<le> x + x / 2 ^ 53" using y(2) by linarith
  also have "\<dots> \<le> x * slack" using \<open>0 < x\<close> by (simp add: slack_def field_simps)
  also have "\<dots> \<le> v * slack ^ n * slack" using assms(3) slack_ge(1) by simp
  finally have "y \<le> v * slack ^ (n + 1)" by (simp add: mult_ac)
  moreover have "v / slack ^ (n + 1) \<le> y"
  proof -
    have "1 \<le> (1 - 1 / 2 ^ 53) * slack" by (simp add: slack_def field_simps)
    then have "x * 1 \<le> x * ((1 - 1 / 2 ^ 53) * slack)" using \<open>0 < x\<close> by (intro mult_left_mono) simp_all
    then have "x / slack \<le> x * (1 - 1 / 2 ^ 53)" using slack_ge(1) by (simp add: field_simps)
    also have "\<dots> = x - x / 2 ^ 53" by (simp only: right_diff_distrib mult_1_right times_divide_eq_right)
    also have "\<dots> \<le> y" using y(2) by linarith
    finally have "x / slack \<le> y" .
    moreover have "v / slack ^ n / slack \<le> x / slack" using assms(2) slack_ge(1) by (intro divide_right_mono) simp_all
    ultimately show ?thesis by (simp add: mult.commute)
  qed
  ultimately show ?thesis using y(1) by (auto simp: near_def)
qed

lemma near_const: "near 0 (Fin r) r"
  by (simp add: near_def)

lemma u64_range:
  assumes "w \<noteq> 0"
  shows "1 \<le> real (unat w)" "real (unat (w :: u64)) \<le> 2 ^ 64"
proof -
  have "1 \<le> unat w" using assms by (simp add: Suc_le_eq unat_gt_0)
  then show "1 \<le> real (unat w)" by linarith
  have "unat w < 2 ^ 64" using unsigned_less [of w, where ?'a = nat] by simp
  then have "real (unat w) < real (2 ^ 64)" by (simp only: of_nat_less_iff)
  then show "real (unat w) \<le> 2 ^ 64" by (simp only: of_nat_power of_nat_numeral order.strict_implies_order)
qed

lemma near_times:
  assumes "near n a v" "near m b w" "moderate (v * w)" "n + m \<le> 20" "0 < v" "0 < w"
  shows "near (n + m + 1) (a * b) (v * w)"
proof -
  obtain x y where x: "a = Fin x" "v / slack ^ n \<le> x" "x \<le> v * slack ^ n"
    and y: "b = Fin y" "w / slack ^ m \<le> y" "y \<le> w * slack ^ m"
    using assms(1,2) by (auto simp: near_def)
  note c = slack_ge(2) [of n] slack_ge(2) [of m]
  have pos: "0 \<le> v / slack ^ n" "0 \<le> w / slack ^ m" using assms(5,6) c by simp_all
  have "v / slack ^ n * (w / slack ^ m) \<le> x * y" by (intro mult_mono) (use x y pos in linarith)+
  moreover have "x * y \<le> v * slack ^ n * (w * slack ^ m)" by (intro mult_mono) (use x y pos assms(5) c in auto)
  ultimately show ?thesis
    using near_rnd [OF assms(3) _ _ assms(4), of "x * y"] x(1) y(1) by (simp add: power_add mult_ac)
qed

lemma near_divide:
  assumes "near n a v" "near m b w" "moderate (v / w)" "n + m \<le> 20" "0 < v" "0 < w"
  shows "near (n + m + 1) (a / b) (v / w)"
proof -
  obtain x y where x: "a = Fin x" "v / slack ^ n \<le> x" "x \<le> v * slack ^ n"
    and y: "b = Fin y" "w / slack ^ m \<le> y" "y \<le> w * slack ^ m"
    using assms(1,2) by (auto simp: near_def)
  note c = slack_ge(2) [of n] slack_ge(2) [of m]
  have pos: "0 < v / slack ^ n" "0 < w / slack ^ m" using assms(5,6) c by simp_all
  then have "0 < x" "0 < y" using x(2) y(2) by linarith+
  then have "v / slack ^ n / (w * slack ^ m) \<le> x / y" "x / y \<le> v * slack ^ n / (w / slack ^ m)"
    using x y pos by (intro frac_le; linarith)+
  then show ?thesis
    using near_rnd [OF assms(3) _ _ assms(4), of "x / y"] x(1) y(1) \<open>0 < y\<close> by (simp add: power_add field_simps)
qed

lemma near_bound:
  assumes "near n d v" "0 < v" "n \<le> 6"
  shows "\<exists>y. d = Fin y \<and> \<bar>y - v\<bar> \<le> v / 2 ^ 49"
proof -
  obtain y where y: "d = Fin y" "v / slack ^ n \<le> y" "y \<le> v * slack ^ n" using assms(1) by (auto simp: near_def)
  define \<delta> :: real where "\<delta> = 1 / 2 ^ 49"
  have "slack ^ n \<le> slack ^ 6" using assms(3) slack_ge(1) by (rule power_increasing)
  also have "\<dots> \<le> 1 + \<delta>" by (simp add: slack_def \<delta>_def field_simps)
  finally have "v * slack ^ n \<le> v * (1 + \<delta>)" using assms(2) by simp
  then have up: "v * slack ^ n \<le> v + v * \<delta>" by (simp add: algebra_simps)
  have "(2 - t) * t \<le> 1" for t :: real using zero_le_square [of "t - 1"] by (simp add: algebra_simps)
  then have "2 - slack ^ n \<le> 1 / slack ^ n" unfolding pos_le_divide_eq [OF slack_ge(2)] by blast
  then have "v * (2 - slack ^ n) \<le> v * (1 / slack ^ n)" using assms(2) by (intro mult_left_mono) simp_all
  then have "2 * v - v * slack ^ n \<le> v / slack ^ n" by (simp add: algebra_simps)
  then have "\<bar>y - v\<bar> \<le> v * \<delta>" using y(2,3) up by linarith
  then show ?thesis using y(1) by (simp add: \<delta>_def)
qed

end
