(* ===== verification/Tb_Perf_Rates.thy ===== *)
theory Tb_Perf_Rates
  imports Tb_Perf Binary64
begin

text \<open>
  The rates that \<open>measure\<close> and the mixed test of \<open>sim/testbenches/tb_perf.cpp\<close> derive from the cycle
  counts of \<open>Tb_Perf\<close>, in the \<open>double\<close> arithmetic of \<open>Binary64\<close>: how far they are from the exact
  quotients, and what the program reports. Formatting and printing are not modelled.
\<close>

section \<open>The rates\<close>

text \<open>The second half of \<open>PerfResult\<close>.\<close>

record perf_rates =
  latency_cycles :: double
  cycles_per_packet :: double
  cycles_per_byte :: double
  throughput_gbps :: double
  throughput_mpps :: double

text \<open>The literals \<open>156.25e6\<close>, \<open>8.0\<close>, \<open>1e9\<close> and \<open>1e6\<close> are integers below \<open>2 ^ 53\<close>, hence exact.\<close>

definition perf_metrics :: "perf_result \<Rightarrow> perf_rates" where
  "perf_metrics r =
     (let seconds = of_u64 (total_cycles r) / Fin 156250000
      in \<lparr>latency_cycles = of_u64 (first_out r),
          cycles_per_packet = of_u64 (push_cycles r) / of_u64 (packets r),
          cycles_per_byte = of_u64 (push_cycles r) / of_u64 (total_bytes r),
          throughput_gbps = (if Fin 0 < seconds then of_u64 (total_bytes r) * Fin 8 / seconds / Fin 1000000000 else Fin 0),
          throughput_mpps = of_u64 (packets r) / seconds / Fin 1000000\<rparr>)"

definition measure_rates ::
  "undet \<Rightarrow> psim \<Rightarrow> u8 list \<Rightarrow> nat \<Rightarrow> nat \<Rightarrow> (psim \<times> perf_result \<times> perf_rates) option" where
  "measure_rates u s pkt dw num_packets =
     map_option (\<lambda>(s, r). (s, r, perf_metrics r)) (measure_run u s pkt dw num_packets)"

text \<open>What the mixed test prints: \<open>Gbps\<close>, \<open>Mpps\<close> and \<open>cyc/pkt\<close>. The packet count is an \<open>int\<close>.\<close>

definition of_int_double :: "int \<Rightarrow> double" where
  "of_int_double n = rnd (of_int n)"

definition mixed_rates :: "int \<times> u64 \<times> u64 \<Rightarrow> double \<times> double \<times> double" where
  "mixed_rates m =
     (case m of (count, bytes, cyc) \<Rightarrow>
        let sec = of_u64 cyc / Fin 156250000;
            mpps = (if Fin 0 < sec then of_int_double count / sec / Fin 1000000 else Fin 0)
        in (if Fin 0 < sec then of_u64 bytes * Fin 8 / sec / Fin 1000000000 else Fin 0, mpps,
            of_u64 cyc / of_int_double count))"

definition tb_perf_report ::
  "undet \<Rightarrow> ipv4_hdr \<Rightarrow> pipeline \<Rightarrow> (perf_rates list \<times> (double \<times> double \<times> double) \<times> perf_rates list) option" where
  "tb_perf_report u h0 p =
     map_option (\<lambda>(rs, m, cs). (map perf_metrics rs, mixed_rates m, map perf_metrics cs)) (tb_perf_main u h0 p)"

section \<open>Their accuracy\<close>

text \<open>The value of a \<open>double\<close> is within a relative error of \<open>2 ^ -49\<close> of \<open>v\<close>.\<close>

definition accurate :: "double \<Rightarrow> real \<Rightarrow> bool" where
  "accurate d v \<longleftrightarrow> (\<exists>y. d = Fin y \<and> \<bar>y - v\<bar> \<le> v / 2 ^ 49)"

lemma near_accurate: "near n d v \<Longrightarrow> 0 < v \<Longrightarrow> n \<le> 6 \<Longrightarrow> accurate d v"
  unfolding accurate_def by (rule near_bound)

text \<open>Numbers between \<open>2 ^ -100\<close> and \<open>2 ^ 100\<close>: their products and quotients are \<open>moderate\<close>.\<close>

definition small :: "nat \<Rightarrow> real \<Rightarrow> bool" where
  "small n v \<longleftrightarrow> 2 powi - int (100 * n) \<le> v \<and> v \<le> 2 powi int (100 * n)"

lemma small_moderate: "small n v \<Longrightarrow> n \<le> 5 \<Longrightarrow> moderate v"
proof -
  assume v: "small n v" and n: "n \<le> 5"
  have "(2 :: real) powi -500 \<le> 2 powi - int (100 * n)" "(2 :: real) powi int (100 * n) \<le> 2 powi 500"
    using n by (intro power_int_increasing; simp)+
  then show "moderate v" using v unfolding small_def moderate_def by linarith
qed

lemma small_pos: "small n v \<Longrightarrow> 0 < v"
  by (rule less_le_trans [of 0 "2 powi - int (100 * n)"]) (simp_all add: small_def)

lemma small_times: "small n v \<Longrightarrow> small m w \<Longrightarrow> small (n + m) (v * w)"
proof -
  assume s: "small n v" "small m w"
  have "2 powi - int (100 * n) * 2 powi - int (100 * m) \<le> v * w"
    by (intro mult_mono) (use s small_pos [OF s(1)] in \<open>auto simp: small_def\<close>)
  moreover have "v * w \<le> 2 powi int (100 * n) * 2 powi int (100 * m)"
    by (intro mult_mono) (use s small_pos [OF s(1)] small_pos [OF s(2)] in \<open>auto simp: small_def\<close>)
  ultimately show "small (n + m) (v * w)"
    unfolding small_def by (simp flip: power_int_add add: algebra_simps)
qed

lemma small_inverse: "small n v \<Longrightarrow> small n (1 / v)"
proof -
  assume s: "small n v"
  have "1 / 2 powi int (100 * n) \<le> 1 / v" "1 / v \<le> 1 / 2 powi - int (100 * n)"
    by (intro divide_left_mono; use s small_pos [OF s] in \<open>simp add: small_def\<close>)+
  then show "small n (1 / v)" unfolding small_def by (simp add: power_int_minus divide_inverse)
qed

lemma small_divide: "small n v \<Longrightarrow> small m w \<Longrightarrow> small (n + m) (v / w)"
  using small_times [OF _ small_inverse, of n v m w] by simp

lemma small_one: "1 \<le> v \<Longrightarrow> v \<le> 2 ^ 64 \<Longrightarrow> small 1 v"
proof -
  assume v: "1 \<le> v" "v \<le> 2 ^ 64"
  have "(2 :: real) powi - int (100 * 1) \<le> 2 powi 0" by (intro power_int_increasing) simp_all
  then have "2 powi - int (100 * 1) \<le> v" using v(1) by simp
  moreover have "(2 :: real) ^ 64 \<le> 2 ^ (100 * 1)" by (intro power_increasing) simp_all
  then have "v \<le> 2 powi int (100 * 1)" unfolding power_int_of_nat using v(2) by (rule order.trans [rotated])
  ultimately show "small 1 v" by (simp only: small_def)
qed

text \<open>Both at once, as the operations compose.\<close>

definition approx :: "nat \<Rightarrow> nat \<Rightarrow> double \<Rightarrow> real \<Rightarrow> bool" where
  "approx n i d v \<longleftrightarrow> near n d v \<and> small i v"

lemma approx_u64: "w \<noteq> 0 \<Longrightarrow> approx 1 1 (of_u64 w) (real (unat w))"
proof -
  assume "w \<noteq> 0"
  then have s: "small 1 (real (unat w))" using u64_range by (intro small_one)
  then show "approx 1 1 (of_u64 w) (real (unat w))"
    using near_rnd [OF small_moderate [OF s], of 0] by (simp add: approx_def of_u64_def)
qed

lemma approx_const: "1 \<le> c \<Longrightarrow> c \<le> 2 ^ 64 \<Longrightarrow> approx 0 1 (Fin c) c"
  using small_one near_const by (simp add: approx_def)

lemma approx_times:
  "approx n i a v \<Longrightarrow> approx m j b w \<Longrightarrow> n + m \<le> 20 \<Longrightarrow> i + j \<le> 5 \<Longrightarrow> approx (n + m + 1) (i + j) (a * b) (v * w)"
  unfolding approx_def using near_times small_times small_moderate small_pos by blast

lemma approx_divide:
  "approx n i a v \<Longrightarrow> approx m j b w \<Longrightarrow> n + m \<le> 20 \<Longrightarrow> i + j \<le> 5 \<Longrightarrow> approx (n + m + 1) (i + j) (a / b) (v / w)"
  unfolding approx_def using near_divide small_divide small_moderate small_pos by blast

lemma approx_accurate: "approx n i d v \<Longrightarrow> n \<le> 6 \<Longrightarrow> accurate d v"
  unfolding approx_def using near_accurate small_pos by blast

lemma approx_positive: "approx n i d v \<Longrightarrow> Fin 0 < d"
proof -
  assume a: "approx n i d v"
  then have "0 < v / slack ^ n" using small_pos [of i v] slack_ge(2) [of n] by (simp add: approx_def)
  then show "Fin 0 < d" using a by (auto simp: approx_def near_def intro: less_le_trans)
qed

text \<open>The expressions of the code.\<close>

lemma seconds_approx: "w \<noteq> 0 \<Longrightarrow> approx 2 2 (of_u64 w / Fin 156250000) (real (unat w) / 156250000)"
  using approx_divide [OF approx_u64 [of w] approx_const [of 156250000]] by (simp only: numeral_eq_Suc) simp

lemma seconds_positive: "w \<noteq> 0 \<Longrightarrow> Fin 0 < of_u64 w / Fin 156250000"
  by (rule approx_positive [OF seconds_approx])

lemma gbps_accurate:
  assumes "b \<noteq> 0" "c \<noteq> 0"
  shows "accurate (of_u64 b * Fin 8 / (of_u64 c / Fin 156250000) / Fin 1000000000)
    (real (unat b) * 8 / (real (unat c) / 156250000) / 1000000000)"
proof -
  have lits: "approx 0 1 (Fin 8) 8" "approx 0 1 (Fin 1000000000) 1000000000" by (rule approx_const; simp)+
  note bits = approx_times [OF approx_u64 [OF assms(1)] lits(1)]
  show ?thesis
    by (rule approx_accurate [OF approx_divide [OF approx_divide [OF bits seconds_approx [OF assms(2)]] lits(2)]]) simp_all
qed

lemma mpps_accurate:
  assumes "n \<noteq> 0" "c \<noteq> 0"
  shows "accurate (of_u64 n / (of_u64 c / Fin 156250000) / Fin 1000000)
    (real (unat n) / (real (unat c) / 156250000) / 1000000)"
proof -
  have lit: "approx 0 1 (Fin 1000000) 1000000" by (rule approx_const; simp)
  show ?thesis
    by (rule approx_accurate [OF approx_divide [OF approx_divide
          [OF approx_u64 [OF assms(1)] seconds_approx [OF assms(2)]] lit]]) simp_all
qed

lemma of_u64_exact: "unat w < 2 ^ 53 \<Longrightarrow> of_u64 w = Fin (real (unat w))"
  unfolding of_u64_def by (rule rnd_nat)

lemma rnd_numeral: "(numeral n :: nat) < 2 ^ 53 \<Longrightarrow> rnd (numeral n) = Fin (numeral n)"
  using rnd_nat [of "numeral n"] by simp

section \<open>Properties\<close>

text \<open>C27: The rates of the performance bench are accurate: if packets were sent in some cycles, every
  rate that \<open>measure\<close> computes in \<open>double\<close> is within a relative error of \<open>2 ^ -49\<close> of the exact
  quotient of the counts, and the latency is exact below \<open>2 ^ 53\<close> cycles. If no cycle was counted,
  only the Gbps are guarded against the division by zero: the Mpps are infinite.\<close>

theorem perf_metrics_accurate:
  fixes r :: perf_result
  assumes "packets r \<noteq> 0" "total_bytes r \<noteq> 0" "push_cycles r \<noteq> 0"
  shows "accurate (cycles_per_packet (perf_metrics r)) (real (unat (push_cycles r)) / real (unat (packets r)))
    \<and> accurate (cycles_per_byte (perf_metrics r)) (real (unat (push_cycles r)) / real (unat (total_bytes r)))
    \<and> (if total_cycles r = 0
       then throughput_gbps (perf_metrics r) = Fin 0 \<and> throughput_mpps (perf_metrics r) = Inf
       else accurate (throughput_gbps (perf_metrics r))
           (real (unat (total_bytes r)) * 8 / (real (unat (total_cycles r)) / 156250000) / 1000000000)
         \<and> accurate (throughput_mpps (perf_metrics r))
           (real (unat (packets r)) / (real (unat (total_cycles r)) / 156250000) / 1000000))
    \<and> (unat (first_out r) < 2 ^ 53 \<longrightarrow> latency_cycles (perf_metrics r) = Fin (real (unat (first_out r))))"
proof (intro conjI)
  note counts = approx_u64 [OF assms(1)] approx_u64 [OF assms(2)] approx_u64 [OF assms(3)]
  show "accurate (cycles_per_packet (perf_metrics r)) (real (unat (push_cycles r)) / real (unat (packets r)))"
    "accurate (cycles_per_byte (perf_metrics r)) (real (unat (push_cycles r)) / real (unat (total_bytes r)))"
    using approx_accurate [OF approx_divide [OF counts(3,1)]] approx_accurate [OF approx_divide [OF counts(3,2)]]
    by (simp_all add: perf_metrics_def Let_def)
  show "unat (first_out r) < 2 ^ 53 \<longrightarrow> latency_cycles (perf_metrics r) = Fin (real (unat (first_out r)))"
    unfolding perf_metrics_def Let_def perf_rates.simps by (blast intro: of_u64_exact)
  show "if total_cycles r = 0
      then throughput_gbps (perf_metrics r) = Fin 0 \<and> throughput_mpps (perf_metrics r) = Inf
      else accurate (throughput_gbps (perf_metrics r))
          (real (unat (total_bytes r)) * 8 / (real (unat (total_cycles r)) / 156250000) / 1000000000)
        \<and> accurate (throughput_mpps (perf_metrics r))
          (real (unat (packets r)) / (real (unat (total_cycles r)) / 156250000) / 1000000)"
  proof (cases "total_cycles r = 0")
    case True
    have "rnd 0 = Fin 0" using rnd_nat [of 0] by simp
    then have "of_u64 (total_cycles r) / Fin 156250000 = Fin 0" by (simp add: True of_u64_def)
    moreover have "\<exists>y. of_u64 (packets r) = Fin y \<and> y \<noteq> 0"
      using approx_positive [OF counts(1)] counts(1) by (auto simp: approx_def near_def)
    ultimately show ?thesis using True by (auto simp: perf_metrics_def Let_def)
  next
    case False
    then show ?thesis
      using gbps_accurate [OF assms(2) False] mpps_accurate [OF assms(1) False] seconds_positive [OF False]
      by (simp add: perf_metrics_def Let_def)
  qed
qed

theorem perf_metrics_accurate_witness:
  "accurate (throughput_gbps (perf_metrics (perf_of 1000 64))) (80000 / 9035)
   \<and> latency_cycles (perf_metrics (perf_of 1000 64)) = Fin 9"
  using perf_metrics_accurate [of "perf_of 1000 64"] by (simp add: perf_of_def)

text \<open>C26: What the performance bench reports, for every power-on state: the latencies and the cycles per
  packet of the first five tests exactly (nine cycles for the smallest packets, where the pipeline has
  eight stages), the Gbps of these tests and of the mixed one within a relative error of \<open>2 ^ -49\<close> of
  \<open>1.25 * bytes / cycles\<close>. The cycles of a test include most of the pre-heat and, for every packet,
  an idle cycle, so no test reports the 10 Gbps of the bus.\<close>

theorem tb_perf_reports:
  "\<exists>rs gbps mpps cyc cs. tb_perf_report u h0 p = Some (rs, (gbps, mpps, cyc), cs)
     \<and> map latency_cycles rs = map Fin [9, 8, 8, 8, 8]
     \<and> map cycles_per_packet rs = map Fin [9, 33, 65, 191, 11]
     \<and> list_all2 accurate (map throughput_gbps rs)
         [80000 / 9035, 320000 / 33083, 640000 / 65147, 1897500 / 191399, 95000 / 11039]
     \<and> accurate gbps (996250 / 101007)"
proof -
  have gbps: "accurate (throughput_gbps (perf_metrics (perf_of 1000 64))) (80000 / 9035)"
    "accurate (throughput_gbps (perf_metrics (perf_of 1000 256))) (320000 / 33083)"
    "accurate (throughput_gbps (perf_metrics (perf_of 1000 512))) (640000 / 65147)"
    "accurate (throughput_gbps (perf_metrics (perf_of 1000 1518))) (1897500 / 191399)"
    "accurate (throughput_gbps (perf_metrics (perf_of 1000 76))) (95000 / 11039)"
    using gbps_accurate [of 64000 9035] gbps_accurate [of 256000 33083] gbps_accurate [of 512000 65147]
      gbps_accurate [of 1518000 191399] gbps_accurate [of 76000 11039]
    by (simp_all add: perf_metrics_def Let_def perf_of_def seconds_positive)
  have mixed: "accurate (fst (mixed_rates (1000, 797000, 101007))) (996250 / 101007)"
    using gbps_accurate [of 797000 101007] by (simp add: mixed_rates_def Let_def seconds_positive)
  have exact: "latency_cycles (perf_metrics (perf_of 1000 n)) = Fin (if n = 64 then 9 else 8)"
    "cycles_per_packet (perf_metrics (perf_of 1000 n)) = Fin (real ((n + 15) div 8))"
    if "n \<in> {64, 256, 512, 1518, 76}" for n
    using that by (auto simp: perf_metrics_def Let_def perf_of_def of_u64_exact rnd_numeral)
  show ?thesis
    using gbps mixed
    by (cases "mixed_rates (1000, 797000, 101007)") (simp add: tb_perf_report_def tb_perf_main_counts exact)
qed

end
