(* ===== verification/Packet_Scheduler.thy ===== *)
theory Packet_Scheduler
  imports Axis_Fifo Npe_Pkg
begin

text \<open>
  The packet scheduler \<open>rtl/schedulers/packet_scheduler.sv\<close>: three FIFOs, one per priority, a
  classification of the incoming beats by the class in their metadata, and a registered arbiter with
  a strict and a weighted round-robin mode. The statements hold for every FIFO depth that is a power
  of two. The two assignments to \<open>arb_state_out\<close> and \<open>arb_ready_out\<close> drive nothing (and read a name
  that the module does not declare) and have no counterpart here.
\<close>

section \<open>Classification\<close>

datatype queue_id = Q_HIGH | Q_MED | Q_LOW

fun queue_index :: "queue_id \<Rightarrow> nat" where
  "queue_index Q_HIGH = 0"
| "queue_index Q_MED = 1"
| "queue_index Q_LOW = 2"

text \<open>The queues in the order of their priority, the highest first.\<close>

instantiation queue_id :: linorder
begin

definition "less_eq_queue_id a b \<longleftrightarrow> queue_index a \<le> queue_index b"

definition "less_queue_id a b \<longleftrightarrow> queue_index a < queue_index b"

instance
proof
  fix a b c :: queue_id
  show "a < b \<longleftrightarrow> a \<le> b \<and> \<not> b \<le> a" "a \<le> a" "a \<le> b \<or> b \<le> a"
    by (auto simp: less_eq_queue_id_def less_queue_id_def)
  show "a \<le> b \<Longrightarrow> b \<le> c \<Longrightarrow> a \<le> c" by (simp add: less_eq_queue_id_def)
  show "a \<le> b \<Longrightarrow> b \<le> a \<Longrightarrow> a = b" by (cases a; cases b) (simp_all add: less_eq_queue_id_def)
qed

end

lemma queue_index_less: "queue_index q < 3"
  by (cases q) simp_all

lemma queue_index_onto: "i < 3 \<Longrightarrow> \<exists>q. queue_index q = i"
  using queue_index.simps by (metis One_nat_def less_2_cases less_Suc_eq numeral_3_eq_3 numeral_2_eq_2)

definition dest_queue :: "packet_metadata \<Rightarrow> queue_id" where
  "dest_queue m =
     (if class_id m = 0 then Q_LOW
      else if class_id m = 1 \<or> class_id m = 2 then Q_MED
      else if class_id m = 3 \<or> class_id m = 4 then Q_HIGH
      else Q_MED)"

section \<open>The module\<close>

record sched_pins =
  rst_n :: bool
  s_tdata :: bus
  s_tkeep :: keep
  s_tlast :: bool
  s_tvalid :: bool
  s_meta :: meta_bits
  m_tready :: bool
  weight_high :: u8
  weight_med :: u8
  weight_low :: u8

text \<open>The arrays have three entries; what their other indices yield stands for undetermined reads,
  which only happen before the first reset.\<close>

record scheduler =
  queue_fifo :: "nat \<Rightarrow> axis_beat axis_fifo"
  arb_state :: nat
  wrr_count :: "nat \<Rightarrow> u8"

definition s_beat :: "sched_pins \<Rightarrow> axis_beat" where
  "s_beat p = \<lparr>tdata = s_tdata p, tkeep = s_tkeep p, tlast = s_tlast p\<rparr>"

definition dest :: "sched_pins \<Rightarrow> nat" where
  "dest p = queue_index (dest_queue (unpack_meta (s_meta p)))"

definition wrr_weight :: "sched_pins \<Rightarrow> nat \<Rightarrow> u8" where
  "wrr_weight p q = (if q = 0 then weight_high p else if q = 1 then weight_med p else weight_low p)"

definition sched_ready :: "nat \<Rightarrow> sched_pins \<Rightarrow> scheduler \<Rightarrow> bool" where
  "sched_ready depth p s \<longleftrightarrow> \<not> fifo_full depth (queue_fifo s (dest p))"

definition fifo_vin :: "nat \<Rightarrow> sched_pins \<Rightarrow> scheduler \<Rightarrow> nat \<Rightarrow> bool" where
  "fifo_vin depth p s q \<longleftrightarrow> s_tvalid p \<and> sched_ready depth p s \<and> q = dest p"

definition fifo_rin :: "sched_pins \<Rightarrow> scheduler \<Rightarrow> nat \<Rightarrow> bool" where
  "fifo_rin p s q \<longleftrightarrow> arb_state s < 3 \<and> q = arb_state s \<and> m_tready p"

definition arb_ready :: "nat \<Rightarrow> scheduler \<Rightarrow> nat \<Rightarrow> bool" where
  "arb_ready depth s q \<longleftrightarrow> \<not> fifo_empty depth (queue_fifo s q)"

definition arb_next :: "nat \<Rightarrow> nat \<Rightarrow> sched_pins \<Rightarrow> scheduler \<Rightarrow> nat" where
  "arb_next depth mode p s =
     (let rdy = arb_ready depth s; w = wrr_weight p; a = arb_state s
      in if mode = 0 then
           if rdy 0 then 0 else if rdy 1 then 1 else if rdy 2 then 2 else a
         else if rdy a \<and> wrr_count s a < w a then a
         else if a = 0 then
           if rdy 1 \<and> w 1 \<noteq> 0 then 1 else if rdy 2 \<and> w 2 \<noteq> 0 then 2
           else if rdy 0 \<and> w 0 \<noteq> 0 then 0 else a
         else if a = 1 then
           if rdy 2 \<and> w 2 \<noteq> 0 then 2 else if rdy 0 \<and> w 0 \<noteq> 0 then 0
           else if rdy 1 \<and> w 1 \<noteq> 0 then 1 else a
         else
           if rdy 0 \<and> w 0 \<noteq> 0 then 0 else if rdy 1 \<and> w 1 \<noteq> 0 then 1
           else if rdy 2 \<and> w 2 \<noteq> 0 then 2 else a)"

text \<open>The credit counters. The sum with the literal 1 is computed with 32 bits and does not wrap.\<close>

definition wrr_update :: "nat \<Rightarrow> nat \<Rightarrow> sched_pins \<Rightarrow> scheduler \<Rightarrow> nat \<Rightarrow> u8" where
  "wrr_update depth mode p s q =
     (if mode = 1 \<and> q < 3 \<and> arb_state s = q \<and> m_tvalid (queue_fifo s q) \<and> m_tready p then
        if unat (wrr_count s q) + 1 \<ge> unat (wrr_weight p q) \<or> \<not> arb_ready depth s q then 0
        else wrr_count s q + 1
      else wrr_count s q)"

definition scheduler_step :: "nat \<Rightarrow> nat \<Rightarrow> sched_pins \<Rightarrow> scheduler \<Rightarrow> scheduler" where
  "scheduler_step depth mode p s =
     \<lparr>queue_fifo = (\<lambda>q. if q < 3 then
          axis_fifo_step depth (rst_n p) (s_beat p) (fifo_vin depth p s q) (fifo_rin p s q) (queue_fifo s q)
        else queue_fifo s q),
      arb_state = (if \<not> rst_n p then 0 else arb_next depth mode p s),
      wrr_count = (if \<not> rst_n p then (wrr_count s)(0 := 0, 1 := 0, 2 := 0)
        else wrr_update depth mode p s)\<rparr>"

definition sched_out :: "nat \<Rightarrow> scheduler \<Rightarrow> axis_beat option" where
  "sched_out depth s =
     (if arb_state s < 3 \<and> m_tvalid (queue_fifo s (arb_state s))
      then Some (rd_raw depth (queue_fifo s (arb_state s))) else None)"

section \<open>Runs\<close>

text \<open>What crossed the interfaces in a run over the pins of each cycle: what the module accepted for
  queue \<open>q\<close>, and what it delivered from there.\<close>

definition sched_run :: "nat \<Rightarrow> nat \<Rightarrow> sched_pins list \<Rightarrow> scheduler \<Rightarrow> scheduler" where
  "sched_run depth mode = fold (scheduler_step depth mode)"

fun sched_accepted :: "nat \<Rightarrow> nat \<Rightarrow> nat \<Rightarrow> sched_pins list \<Rightarrow> scheduler \<Rightarrow> axis_beat list" where
  "sched_accepted depth mode q [] s = []"
| "sched_accepted depth mode q (p # ps) s =
     (if s_tvalid p \<and> sched_ready depth p s \<and> dest p = q then [s_beat p] else []) @
     sched_accepted depth mode q ps (scheduler_step depth mode p s)"

fun sched_delivered :: "nat \<Rightarrow> nat \<Rightarrow> nat \<Rightarrow> sched_pins list \<Rightarrow> scheduler \<Rightarrow> axis_beat list" where
  "sched_delivered depth mode q [] s = []"
| "sched_delivered depth mode q (p # ps) s =
     (case sched_out depth s of Some b \<Rightarrow> if m_tready p \<and> arb_state s = q then [b] else [] | None \<Rightarrow> []) @
     sched_delivered depth mode q ps (scheduler_step depth mode p s)"

section \<open>The three queues as lists\<close>

definition sched_rep :: "nat \<Rightarrow> scheduler \<Rightarrow> (nat \<Rightarrow> axis_beat list) \<Rightarrow> bool" where
  "sched_rep k s xs \<longleftrightarrow> arb_state s < 3 \<and> (\<forall>q<3. fifo_rep k (queue_fifo s q) (xs q))"

text \<open>The contents after a cycle, and the invariant: every queue is well formed.\<close>

definition sched_contents :: "nat \<Rightarrow> scheduler \<Rightarrow> nat \<Rightarrow> axis_beat list" where
  "sched_contents k s q = fifo_contents (2 ^ k) (queue_fifo s q)"

definition queues_step :: "nat \<Rightarrow> sched_pins \<Rightarrow> nat \<Rightarrow> (nat \<Rightarrow> axis_beat list) \<Rightarrow> nat \<Rightarrow> axis_beat list" where
  "queues_step k p a xs q =
     (if q = a \<and> m_tready p then tl (xs q) else xs q) @
     (if s_tvalid p \<and> q = dest p \<and> length (xs q) < 2 ^ k then [s_beat p] else [])"

definition sched_inv :: "nat \<Rightarrow> scheduler \<Rightarrow> bool" where
  "sched_inv k s \<longleftrightarrow> arb_state s < 3 \<and> (\<forall>q<3. fifo_inv k (queue_fifo s q))"

lemma dest_less: "dest p < 3"
  by (simp add: dest_def queue_index_less)

lemma sched_inv_rep: "sched_inv k s \<longleftrightarrow> sched_rep k s (sched_contents k s)"
  by (simp add: sched_inv_def sched_rep_def sched_contents_def fifo_inv_def)

lemma sched_repI: "sched_rep k s xs \<Longrightarrow> sched_inv k s \<and> (\<forall>q<3. sched_contents k s q = xs q)"
  by (auto simp: sched_inv_def sched_rep_def sched_contents_def fifo_inv_rep contents_rep)

lemma sched_flags:
  assumes "sched_rep k s xs"
  shows "sched_ready (2 ^ k) p s \<longleftrightarrow> length (xs (dest p)) < 2 ^ k"
    "q < 3 \<Longrightarrow> arb_ready (2 ^ k) s q \<longleftrightarrow> xs q \<noteq> []"
    "q < 3 \<Longrightarrow> m_tvalid (queue_fifo s q) \<longleftrightarrow> xs q \<noteq> []"
    "sched_out (2 ^ k) s = (case xs (arb_state s) of [] \<Rightarrow> None | b # _ \<Rightarrow> Some b)"
proof -
  have rep: "q < 3 \<Longrightarrow> fifo_rep k (queue_fifo s q) (xs q)" for q using assms by (simp add: sched_rep_def)
  show "sched_ready (2 ^ k) p s \<longleftrightarrow> length (xs (dest p)) < 2 ^ k"
    using fifo_flags_rep(2) [OF rep [OF dest_less [of p]]] fifo_repD(3) [OF rep [OF dest_less [of p]]]
    by (auto simp: sched_ready_def intro: le_neq_implies_less)
  show "q < 3 \<Longrightarrow> arb_ready (2 ^ k) s q \<longleftrightarrow> xs q \<noteq> []" "q < 3 \<Longrightarrow> m_tvalid (queue_fifo s q) \<longleftrightarrow> xs q \<noteq> []"
    using fifo_flags_rep(1,5) [OF rep] by (auto simp: arb_ready_def)
  show "sched_out (2 ^ k) s = (case xs (arb_state s) of [] \<Rightarrow> None | b # _ \<Rightarrow> Some b)"
    using assms rd_raw_rep [OF rep] fifo_flags_rep(5) [OF rep]
    by (auto simp: sched_out_def sched_rep_def split: list.split)
qed

lemma arb_next_less: "arb_state s < 3 \<Longrightarrow> arb_next depth mode p s < 3"
  by (simp add: arb_next_def Let_def)

lemma sched_rep_step:
  assumes "sched_rep k s xs" "rst_n p"
  shows "sched_rep k (scheduler_step (2 ^ k) mode p s) (queues_step k p (arb_state s) xs)"
proof -
  have "fifo_rep k (axis_fifo_step (2 ^ k) True (s_beat p) (fifo_vin (2 ^ k) p s q) (fifo_rin p s q) (queue_fifo s q))
      (queues_step k p (arb_state s) xs q)" if "q < 3" for q
  proof -
    have "fifo_rep k (queue_fifo s q) (xs q)" using assms(1) that by (simp add: sched_rep_def)
    from rep_step [OF this, of "s_beat p" "fifo_vin (2 ^ k) p s q" "fifo_rin p s q"]
    show ?thesis
      using assms(1) sched_flags(1) [OF assms(1), of p]
      by (auto simp: queue_step_def queues_step_def fifo_vin_def fifo_rin_def sched_rep_def)
  qed
  then show ?thesis
    using assms by (simp add: sched_rep_def scheduler_step_def arb_next_less)
qed


lemma sched_reset_rep:
  assumes "\<forall>q<3. length (ram (queue_fifo s q)) = 2 ^ k" "\<not> rst_n p"
  shows "sched_rep k (scheduler_step (2 ^ k) mode p s) (\<lambda>_. [])"
    "q < 3 \<Longrightarrow> wrr_count (scheduler_step (2 ^ k) mode p s) q = 0"
    "arb_state (scheduler_step (2 ^ k) mode p s) = 0"
proof -
  show "sched_rep k (scheduler_step (2 ^ k) mode p s) (\<lambda>_. [])"
    using assms by (simp add: sched_rep_def scheduler_step_def rep_reset)
  show "q < 3 \<Longrightarrow> wrr_count (scheduler_step (2 ^ k) mode p s) q = 0"
    using assms(2) by (auto simp: scheduler_step_def less_Suc_eq numeral_3_eq_3)
  show "arb_state (scheduler_step (2 ^ k) mode p s) = 0" using assms(2) by (simp add: scheduler_step_def)
qed

lemma sched_inv_run:
  "sched_inv k s \<Longrightarrow> list_all rst_n ps \<Longrightarrow> sched_inv k (sched_run (2 ^ k) mode ps s)"
proof (induction ps arbitrary: s)
  case (Cons p ps)
  then have "sched_inv k (scheduler_step (2 ^ k) mode p s)"
    using sched_repI [OF sched_rep_step] by (auto simp: sched_inv_rep)
  then show ?case using Cons by (simp add: sched_run_def)
qed (simp add: sched_run_def)

lemma sched_contents_step:
  assumes "sched_inv k s" "rst_n p" "q < 3"
  shows "sched_contents k (scheduler_step (2 ^ k) mode p s) q = queues_step k p (arb_state s) (sched_contents k s) q"
  using sched_repI [OF sched_rep_step [OF assms(1) [unfolded sched_inv_rep] assms(2)]] assms(3) by blast

lemma sched_inv_step: "sched_inv k s \<Longrightarrow> rst_n p \<Longrightarrow> sched_inv k (scheduler_step (2 ^ k) mode p s)"
  using sched_inv_run [of k s "[p]"] by (simp add: sched_run_def)

lemma sched_stream:
  assumes "sched_inv k s" "list_all rst_n ps" "q < 3"
  shows "sched_contents k s q @ sched_accepted (2 ^ k) mode q ps s =
    sched_delivered (2 ^ k) mode q ps s @ sched_contents k (sched_run (2 ^ k) mode ps s) q"
  using assms(1,2)
proof (induction ps arbitrary: s)
  case Nil
  show ?case by (simp add: sched_run_def)
next
  case (Cons p ps)
  have p: "rst_n p" using Cons.prems by simp
  note flags = sched_flags(1,4) [OF Cons.prems(1) [unfolded sched_inv_rep]]
  let ?in = "if s_tvalid p \<and> sched_ready (2 ^ k) p s \<and> dest p = q then [s_beat p] else []"
  let ?out = "case sched_out (2 ^ k) s of Some b \<Rightarrow> if m_tready p \<and> arb_state s = q then [b] else [] | None \<Rightarrow> []"
  let ?s' = "scheduler_step (2 ^ k) mode p s"
  have step: "sched_contents k s q @ ?in = ?out @ sched_contents k ?s' q"
    using sched_contents_step [OF Cons.prems(1) p assms(3), of mode]
    by (auto simp: queues_step_def flags split: list.split)
  have "sched_contents k ?s' q @ sched_accepted (2 ^ k) mode q ps ?s' =
      sched_delivered (2 ^ k) mode q ps ?s' @ sched_contents k (sched_run (2 ^ k) mode ps ?s') q"
    using Cons.IH [OF sched_inv_step [OF Cons.prems(1) p]] Cons.prems(2) by simp
  then have "(sched_contents k s q @ ?in) @ sched_accepted (2 ^ k) mode q ps ?s' =
      (?out @ sched_delivered (2 ^ k) mode q ps ?s') @ sched_contents k (sched_run (2 ^ k) mode ps ?s') q"
    by (simp only: step append.assoc)
  then show ?case by (simp only: sched_accepted.simps sched_delivered.simps sched_run_def fold.simps comp_apply append.assoc)
qed


section \<open>Arbitration\<close>

text \<open>The arbiter of the strict mode, and what either mode does when the selected queue is empty.\<close>

lemma strict_next:
  assumes "sched_inv k s" "rst_n p" "q < 3" "sched_contents k s q \<noteq> []" "\<forall>i<q. sched_contents k s i = []"
  shows "arb_state (scheduler_step (2 ^ k) 0 p s) = q"
proof -
  note rdy = sched_flags(2) [OF assms(1) [unfolded sched_inv_rep]]
  consider "q = 0" | "q = 1" | "q = 2" using assms(3) by linarith
  then show ?thesis
    using assms(2,4,5) by cases (simp_all add: scheduler_step_def arb_next_def Let_def rdy)
qed

lemma empty_next:
  assumes "sched_inv k s" "rst_n p" "mode \<noteq> 0 \<Longrightarrow> \<forall>i<3. wrr_weight p i \<noteq> 0"
    "sched_contents k s (arb_state s) = []" "q < 3" "sched_contents k s q \<noteq> []"
  shows "sched_contents k s (arb_state (scheduler_step (2 ^ k) mode p s)) \<noteq> []"
proof -
  note rdy = sched_flags(2) [OF assms(1) [unfolded sched_inv_rep]]
  have "arb_state s < 3" using assms(1) by (simp add: sched_inv_def)
  then have "arb_state s = 0 \<or> arb_state s = 1 \<or> arb_state s = 2" "q = 0 \<or> q = 1 \<or> q = 2"
    using assms(5) by linarith+
  then show ?thesis
    using assms(2-4,6)
    by (cases "mode = 0"; elim disjE) (simp_all add: scheduler_step_def arb_next_def Let_def rdy)
qed

definition sched_load :: "nat \<Rightarrow> scheduler \<Rightarrow> nat" where
  "sched_load k s = length (sched_contents k s 0) + length (sched_contents k s 1) + length (sched_contents k s 2)"

text \<open>A cycle without input and with a ready receiver: either a beat leaves, or the arbiter moves to
  a queue that has one.\<close>

definition draining :: "nat \<Rightarrow> sched_pins \<Rightarrow> bool" where
  "draining mode p \<longleftrightarrow> rst_n p \<and> m_tready p \<and> \<not> s_tvalid p \<and> (mode \<noteq> 0 \<longrightarrow> (\<forall>i<3. wrr_weight p i \<noteq> 0))"

definition sched_rank :: "nat \<Rightarrow> scheduler \<Rightarrow> nat" where
  "sched_rank k s = 2 * sched_load k s + (if sched_contents k s (arb_state s) = [] then 1 else 0)"

lemma drain_contents:
  assumes "sched_inv k s" "draining mode p" "q < 3"
  shows "sched_contents k (scheduler_step (2 ^ k) mode p s) q =
    (if q = arb_state s then tl (sched_contents k s q) else sched_contents k s q)"
  using assms sched_contents_step [OF assms(1) _ assms(3)] by (simp add: draining_def queues_step_def)

lemma drain_rank:
  assumes "sched_inv k s" "draining mode p" "sched_load k s \<noteq> 0"
  shows "sched_rank k (scheduler_step (2 ^ k) mode p s) < sched_rank k s"
proof (cases "sched_contents k s (arb_state s) = []")
  case True
  let ?s' = "scheduler_step (2 ^ k) mode p s"
  have same: "sched_contents k ?s' q = sched_contents k s q" if "q < 3" for q
    using drain_contents [OF assms(1,2) that] True by simp
  have "\<exists>q<3. sched_contents k s q \<noteq> []"
  proof (rule ccontr)
    assume "\<not> (\<exists>q<3. sched_contents k s q \<noteq> [])"
    then show False using assms(3) by (simp add: sched_load_def)
  qed
  then obtain q where q: "q < 3" "sched_contents k s q \<noteq> []" by blast
  have "sched_contents k s (arb_state ?s') \<noteq> []"
    by (rule empty_next [OF assms(1) _ _ True q]) (use assms(2) in \<open>auto simp: draining_def\<close>)
  moreover have "arb_state ?s' < 3"
    using sched_inv_step [OF assms(1), of p mode] assms(2) by (simp add: sched_inv_def draining_def)
  ultimately show ?thesis using True same by (simp add: sched_rank_def sched_load_def)
next
  case False
  have a: "arb_state s < 3" using assms(1) by (simp add: sched_inv_def)
  have "0 < length (sched_contents k s (arb_state s))" using False by simp
  moreover have "arb_state s = 0 \<or> arb_state s = 1 \<or> arb_state s = 2" using a by linarith
  ultimately have "sched_load k (scheduler_step (2 ^ k) mode p s) + 1 = sched_load k s"
    by (elim disjE) (simp_all add: sched_load_def drain_contents [OF assms(1,2)])
  then show ?thesis using False by (simp add: sched_rank_def)
qed

lemma drain_load:
  assumes "sched_inv k s" "draining mode p" "sched_load k s = 0"
  shows "sched_load k (scheduler_step (2 ^ k) mode p s) = 0"
  using assms(3) by (auto simp: sched_load_def drain_contents [OF assms(1,2)])

lemma drain_run:
  assumes "sched_inv k s" "list_all (draining mode) ps" "sched_rank k s \<le> length ps + 1"
  shows "sched_load k (sched_run (2 ^ k) mode ps s) = 0"
  using assms
proof (induction ps arbitrary: s)
  case Nil
  then show ?case by (simp add: sched_run_def sched_rank_def)
next
  case (Cons p ps)
  let ?s' = "scheduler_step (2 ^ k) mode p s"
  have p: "draining mode p" "rst_n p" using Cons.prems by (simp_all add: draining_def)
  have "sched_rank k ?s' \<le> length ps + 1"
    using drain_rank [OF Cons.prems(1) p(1)] drain_load [OF Cons.prems(1) p(1)] Cons.prems(3)
    by (cases "sched_load k s = 0") (auto simp: sched_rank_def)
  then show ?case
    using Cons.IH [OF sched_inv_step [OF Cons.prems(1) p(2)]] Cons.prems(2) by (simp add: sched_run_def)
qed

text \<open>The credits stay below the weights as long as these do not change.\<close>

definition credit_ok :: "(nat \<Rightarrow> u8) \<Rightarrow> scheduler \<Rightarrow> bool" where
  "credit_ok w s \<longleftrightarrow> (\<forall>q<3. wrr_count s q = 0 \<or> wrr_count s q < w q)"

lemma credit_step:
  assumes "credit_ok w s" "rst_n p" "wrr_weight p = w"
  shows "credit_ok w (scheduler_step depth mode p s)"
proof -
  have "c + 1 < w q" if "unat c + 1 < unat (w q)" for c :: u8 and q
    using that unsigned_less [of "w q", where ?'a = nat] by (simp add: word_less_nat_alt unat_word_ariths)
  then have "wrr_update depth mode p s q = 0 \<or> wrr_update depth mode p s q < w q" if "q < 3" for q
    using assms that by (auto simp: credit_ok_def wrr_update_def not_le)
  then show ?thesis using assms(2) by (simp add: credit_ok_def scheduler_step_def)
qed

lemma credit_run:
  "credit_ok w s \<Longrightarrow> list_all (\<lambda>p. rst_n p \<and> wrr_weight p = w) ps \<Longrightarrow> credit_ok w (sched_run depth mode ps s)"
  by (induction ps arbitrary: s) (auto simp: sched_run_def credit_step)

lemma wrr_stays:
  assumes "sched_inv k s" "rst_n p" "credit_ok (wrr_weight p) s" "wrr_weight p (arb_state s) \<noteq> 0"
    "sched_contents k s (arb_state s) \<noteq> []"
  shows "arb_state (scheduler_step (2 ^ k) 1 p s) = arb_state s"
proof -
  have a: "arb_state s < 3" using assms(1) by (simp add: sched_inv_def)
  then have "wrr_count s (arb_state s) < wrr_weight p (arb_state s)"
    using assms(3,4) by (auto simp: credit_ok_def word_neq_0_conv)
  then show ?thesis
    using a assms(2,5) sched_flags(2) [OF assms(1) [unfolded sched_inv_rep] a]
    by (simp add: scheduler_step_def arb_next_def Let_def)
qed

lemma wrr_run:
  assumes "sched_inv k s" "1 \<le> k" "credit_ok w s" "w (arb_state s) \<noteq> 0" "sched_contents k s (arb_state s) \<noteq> []"
    "list_all (\<lambda>p. rst_n p \<and> wrr_weight p = w \<and> s_tvalid p \<and> dest p = arb_state s) ps"
  shows "arb_state (sched_run (2 ^ k) 1 ps s) = arb_state s \<and>
    (\<forall>q<3. q \<noteq> arb_state s \<longrightarrow> sched_delivered (2 ^ k) 1 q ps s = [])"
  using assms(1,3-6)
proof (induction ps arbitrary: s)
  case Nil
  show ?case by (simp add: sched_run_def)
next
  case (Cons p ps)
  let ?s' = "scheduler_step (2 ^ k) 1 p s" and ?a = "arb_state s"
  have p: "rst_n p" "wrr_weight p = w" "s_tvalid p" "dest p = ?a" using Cons.prems by simp_all
  have stay: "arb_state ?s' = ?a" using wrr_stays [OF Cons.prems(1) p(1)] Cons.prems p by simp
  have a: "?a < 3" using Cons.prems(1) by (simp add: sched_inv_def)
  have "(2 :: nat) ^ 1 \<le> 2 ^ k" using assms(2) by (intro power_increasing) simp_all
  then have "sched_contents k ?s' ?a \<noteq> []"
    using sched_contents_step [OF Cons.prems(1) p(1) a, of 1] p Cons.prems(4)
    by (cases "sched_contents k s ?a"; cases "tl (sched_contents k s ?a)") (auto simp: queues_step_def)
  then have IH: "arb_state (sched_run (2 ^ k) 1 ps ?s') = ?a \<and>
      (\<forall>q<3. q \<noteq> ?a \<longrightarrow> sched_delivered (2 ^ k) 1 q ps ?s' = [])"
    using Cons.IH [OF sched_inv_step [OF Cons.prems(1) p(1)] credit_step [OF Cons.prems(2) p(1,2)]]
      Cons.prems(3,5) stay by simp
  then show ?case by (auto simp: sched_run_def split: option.split)
qed

section \<open>Properties\<close>

definition sched_pins0 :: sched_pins where
  "sched_pins0 = \<lparr>rst_n = False, s_tdata = 0, s_tkeep = 0, s_tlast = False, s_tvalid = False, s_meta = 0,
     m_tready = False, weight_high = 0, weight_med = 0, weight_low = 0\<rparr>"

text \<open>A beat, and the FIFO of two entries that holds one, for the witnesses.\<close>

definition sample_beat :: axis_beat where
  "sample_beat = \<lparr>tdata = 5, tkeep = 1, tlast = True\<rparr>"

definition sample_fifo :: "bool \<Rightarrow> axis_beat axis_fifo" where
  "sample_fifo one = \<lparr>wr_ptr = (if one then 1 else 0), rd_ptr = 0, m_tvalid = one, ram = [sample_beat, sample_beat]\<rparr>"

lemma sample_rep: "fifo_rep 1 (sample_fifo one) (if one then [sample_beat] else [])"
  by (auto simp: fifo_rep_def sample_fifo_def)

lemma sample_inv:
  assumes "arb_state s < 3" "\<forall>q<3. \<exists>one. queue_fifo s q = sample_fifo one"
  shows "sched_inv 1 s"
  using assms sample_rep by (auto simp: sched_inv_def fifo_inv_rep) metis





text \<open>Strict priority: in the strict mode the arbiter selects, in every cycle, the first queue
  that held a beat in the cycle before, whatever it served before and whatever arrives; a queue that
  takes over offers its oldest beat at once.\<close>

theorem strict_priority:
  fixes q :: queue_id
  assumes "sched_inv k s" "rst_n p" "sched_contents k s (queue_index q) \<noteq> []"
    "\<forall>q' < q. sched_contents k s (queue_index q') = []"
  shows "arb_state (scheduler_step (2 ^ k) 0 p s) = queue_index q
    \<and> (arb_state s \<noteq> queue_index q \<longrightarrow>
        sched_out (2 ^ k) (scheduler_step (2 ^ k) 0 p s) = Some (hd (sched_contents k s (queue_index q))))"
proof -
  have "sched_contents k s i = []" if "i < queue_index q" for i
    using that assms(4) queue_index_onto [of i] queue_index_less [of q] by (auto simp: less_queue_id_def)
  then have next_q: "arb_state (scheduler_step (2 ^ k) 0 p s) = queue_index q"
    using strict_next [OF assms(1,2) queue_index_less assms(3)] by blast
  have "sched_out (2 ^ k) (scheduler_step (2 ^ k) 0 p s) = Some (hd (sched_contents k s (queue_index q)))"
    if "arb_state s \<noteq> queue_index q"
    using sched_flags(4) [OF sched_inv_step [OF assms(1,2), of 0, unfolded sched_inv_rep]] next_q that assms(3)
      sched_contents_step [OF assms(1,2) queue_index_less, of 0]
    by (auto simp: queues_step_def neq_Nil_conv)
  then show ?thesis using next_q by blast
qed

theorem strict_priority_witness:
  fixes s :: scheduler
  defines "s \<equiv> \<lparr>queue_fifo = (\<lambda>q. sample_fifo (q = 0 \<or> q = 2)), arb_state = 2, wrr_count = (\<lambda>_. 0)\<rparr>"
  shows "sched_out 2 (scheduler_step 2 0 (sched_pins0\<lparr>rst_n := True\<rparr>) s) = Some sample_beat"
proof -
  have inv: "sched_inv 1 s" by (rule sample_inv) (auto simp: s_def)
  have "sched_contents 1 s 0 = [sample_beat]"
    using contents_rep [OF sample_rep [of True]] by (simp add: sched_contents_def s_def)
  then show ?thesis
    using strict_priority [OF inv, of "sched_pins0\<lparr>rst_n := True\<rparr>" Q_HIGH]
    by (simp add: s_def less_queue_id_def)
qed

text \<open>C13: The scheduler empties: in either mode, if all weights are positive in the round-robin mode,
  cycles without input and with a ready receiver, twice as many as beats are stored, deliver all of
  them. (The registered arbiter costs a cycle when it changes the queue.)\<close>

theorem scheduler_drains:
  assumes "sched_inv k s" "list_all (draining mode) ps" "2 * sched_load k s \<le> length ps"
  shows "sched_load k (sched_run (2 ^ k) mode ps s) = 0"
  using drain_run [OF assms(1,2)] assms(3) by (simp add: sched_rank_def)

theorem scheduler_drains_witness:
  fixes s :: scheduler
  defines "s \<equiv> \<lparr>queue_fifo = (\<lambda>q. sample_fifo (q = 0 \<or> q = 2)), arb_state = 1, wrr_count = (\<lambda>_. 0)\<rparr>"
  shows "sched_load 1 (sched_run 2 1 (replicate 4 (sched_pins0\<lparr>rst_n := True, m_tready := True,
    weight_high := 2, weight_med := 1, weight_low := 1\<rparr>)) s) = 0"
proof -
  have inv: "sched_inv 1 s" by (rule sample_inv) (auto simp: s_def)
  have "sched_load 1 s = 2"
    using contents_rep [OF sample_rep [of True]] contents_rep [OF sample_rep [of False]]
    by (simp add: sched_load_def sched_contents_def s_def)
  then show ?thesis
    using scheduler_drains [OF inv, of 1 "replicate 4 (sched_pins0\<lparr>rst_n := True, m_tready := True,
      weight_high := 2, weight_med := 1, weight_low := 1\<rparr>)"]
    by (simp add: draining_def sched_pins0_def wrr_weight_def list_all_iff)
qed

text \<open>C14: The weighted round-robin does not rotate: in the round-robin mode with constant weights, the
  queue that is served, if its weight is not 0, keeps the arbiter for as long as a beat arrives for
  it in every cycle, however small its weight and whatever waits in the other queues, which deliver
  nothing. (The credit counter is cleared in the cycle in which it reaches the weight, so that the
  arbiter never sees it exhausted.)\<close>

theorem wrr_never_rotates:
  assumes "sched_inv k s" "1 \<le> k" "credit_ok w s" "w (arb_state s) \<noteq> 0" "sched_contents k s (arb_state s) \<noteq> []"
    "list_all (\<lambda>p. rst_n p \<and> wrr_weight p = w \<and> s_tvalid p \<and> dest p = arb_state s) ps"
  shows "arb_state (sched_run (2 ^ k) 1 ps s) = arb_state s \<and>
    (\<forall>q<3. q \<noteq> arb_state s \<longrightarrow> sched_delivered (2 ^ k) 1 q ps s = [])"
  by (rule wrr_run [OF assms])

theorem wrr_never_rotates_witness:
  fixes s :: scheduler and p :: sched_pins
  defines "s \<equiv> \<lparr>queue_fifo = (\<lambda>q. sample_fifo (q = 0 \<or> q = 2)), arb_state = 0, wrr_count = (\<lambda>_. 0)\<rparr>"
    and "p \<equiv> sched_pins0\<lparr>rst_n := True, s_tvalid := True, s_meta := 1572864, m_tready := True,
      weight_high := 1, weight_med := 9, weight_low := 9\<rparr>"
  shows "sched_delivered 2 1 2 (replicate 50 p) s = []"
proof -
  have inv: "sched_inv 1 s" by (rule sample_inv) (auto simp: s_def)
  have high: "sched_contents 1 s 0 = [sample_beat]"
    using contents_rep [OF sample_rep [of True]] by (simp add: sched_contents_def s_def)
  have "class_id (unpack_meta 1572864) = 3" by (simp add: unpack_meta_def field_def)
  then have "dest p = 0" by (simp add: p_def dest_def dest_queue_def)
  moreover have "credit_ok (wrr_weight p) s" by (simp add: credit_ok_def s_def)
  ultimately show ?thesis
    using wrr_never_rotates [OF inv, of "wrr_weight p" "replicate 50 p"] high
    by (simp add: s_def p_def wrr_weight_def list_all_iff)
qed

end
