(* ===== verification/Tb_Scheduler.thy ===== *)
theory Tb_Scheduler
  imports Packet_Scheduler Packet_Mon Packet_Gen
begin

text \<open>
  The scheduler bench \<open>sim/testbenches/tb_scheduler.cpp\<close>, on the module with its default parameters
  (depth 16, strict mode). Its push loop waits without a bound until \<open>s_tready\<close> is high, while it
  keeps \<open>m_tready\<close> low, and is a partial function; its drain loops have 100000 rounds.
\<close>

section \<open>The device\<close>

definition vsched_step :: "sched_pins \<Rightarrow> scheduler \<Rightarrow> scheduler" where
  "vsched_step = scheduler_step 16 0"

record sched_sim =
  sdut :: "(sched_pins, scheduler) vdut"
  sched_cycles :: u64

definition ssim_new :: "scheduler \<Rightarrow> sched_sim" where
  "ssim_new s = \<lparr>sdut = power_on sched_pins0 s, sched_cycles = 0\<rparr>"

definition ssim_pre :: "sched_sim \<Rightarrow> sched_sim" where
  "ssim_pre m = m\<lparr>sdut := pre vsched_step (sdut m)\<rparr>"

definition ssim_post :: "sched_sim \<Rightarrow> sched_sim" where
  "ssim_post m = m\<lparr>sdut := post vsched_step (sdut m), sched_cycles := sched_cycles m + 1\<rparr>"

definition ssim_cycle :: "sched_sim \<Rightarrow> sched_sim" where
  "ssim_cycle m = ssim_post (ssim_pre m)"

definition set_sched :: "(sched_pins \<Rightarrow> sched_pins) \<Rightarrow> sched_sim \<Rightarrow> sched_sim" where
  "set_sched h m = m\<lparr>sdut := (sdut m)\<lparr>pins := h (pins (sdut m))\<rparr>\<rparr>"

definition ssim_reset :: "sched_sim \<Rightarrow> sched_sim" where
  "ssim_reset m =
     (let m = set_sched (\<lambda>p. p\<lparr>rst_n := False\<rparr>) m;
          m = (ssim_cycle ^^ 4) m;
          m = set_sched (\<lambda>p. p\<lparr>rst_n := True\<rparr>) m
      in ssim_cycle m)"

text \<open>The output pins.\<close>

definition out_ready :: "sched_sim \<Rightarrow> bool" where
  "out_ready m = sched_ready 16 (pins (sdut m)) (vregs (sdut m))"

definition out_beat :: "sched_sim \<Rightarrow> axis_beat option" where
  "out_beat m = sched_out 16 (vregs (sdut m))"

definition out_taken :: "sched_sim \<Rightarrow> axis_beat option" where
  "out_taken m = (if m_tready (pins (sdut m)) then out_beat m else None)"

definition out_bytes :: "nat \<Rightarrow> axis_beat \<Rightarrow> u8 list" where
  "out_bytes dw b = vlwide_get_bytes (tdata b) (keep_count dw (tkeep b))"

section \<open>\<open>push_packet\<close>\<close>

partial_function (option) sched_wait :: "sched_sim \<Rightarrow> sched_sim option" where
  "sched_wait m = (if out_ready m then Some m else sched_wait (ssim_cycle m))"

definition sched_drive :: "nat \<Rightarrow> u8 \<Rightarrow> u8 list \<Rightarrow> nat \<Rightarrow> sched_sim \<Rightarrow> sched_sim" where
  "sched_drive dw cls pkt pos m =
     (let nb = (if length pkt - pos < dw then length pkt - pos else dw);
          m = ssim_pre m
      in ssim_post (set_sched (\<lambda>p. p\<lparr>s_tdata := set32 (s_tdata p) (drop pos pkt) nb, s_tkeep := keep_mask nb,
           s_tlast := (pos + nb \<ge> length pkt), s_tvalid := True,
           s_meta := meta_put (s_meta p) 10 (push_bit 13 (ucast cls))\<rparr>) m))"

partial_function (option) sched_push_loop :: "nat \<Rightarrow> u8 \<Rightarrow> u8 list \<Rightarrow> nat \<Rightarrow> sched_sim \<Rightarrow> sched_sim option" where
  "sched_push_loop dw cls pkt pos m =
     (if pos < length pkt then
        Option.bind (sched_wait (sched_drive dw cls pkt pos m)) (\<lambda>m.
          sched_push_loop dw cls pkt (pos + (if length pkt - pos < dw then length pkt - pos else dw)) m)
      else Some m)"

definition sched_push :: "nat \<Rightarrow> u8 \<Rightarrow> u8 list \<Rightarrow> sched_sim \<Rightarrow> sched_sim option" where
  "sched_push dw cls pkt m =
     map_option (\<lambda>m. ssim_post (set_sched (\<lambda>p. p\<lparr>s_tvalid := False\<rparr>) (ssim_pre m)))
       (sched_push_loop dw cls pkt 0 (set_sched (\<lambda>p. p\<lparr>m_tready := False\<rparr>) m))"

section \<open>Draining\<close>

fun drain_one_loop :: "nat \<Rightarrow> nat \<Rightarrow> sched_sim \<Rightarrow> u8 list \<Rightarrow> sched_sim \<times> u8 list" where
  "drain_one_loop dw 0 m out = (m, out)"
| "drain_one_loop dw (Suc n) m out =
     (let m = ssim_pre m
      in case out_taken m of
           Some b \<Rightarrow>
             let out = out @ out_bytes dw b; m = ssim_post m
             in if tlast b then (m, out) else drain_one_loop dw n m out
         | None \<Rightarrow> drain_one_loop dw n (ssim_post m) out)"

definition drain_one :: "nat \<Rightarrow> sched_sim \<Rightarrow> sched_sim \<times> u8 list" where
  "drain_one dw m = drain_one_loop dw 100000 (set_sched (\<lambda>p. p\<lparr>m_tready := True\<rparr>) m) []"

fun sched_drain_loop :: "nat \<Rightarrow> nat \<Rightarrow> sched_sim \<Rightarrow> u8 list \<Rightarrow> sched_sim \<times> u8 list" where
  "sched_drain_loop dw 0 m out = (m, out)"
| "sched_drain_loop dw (Suc n) m out =
     (let m = ssim_pre m
      in case out_taken m of
           Some b \<Rightarrow> sched_drain_loop dw n (ssim_post m) (out @ out_bytes dw b)
         | None \<Rightarrow>
             let m = ssim_post m
             in if out_beat m = None then (m, out) else sched_drain_loop dw n m out)"

definition sched_drain_all :: "nat \<Rightarrow> sched_sim \<Rightarrow> u8 list \<Rightarrow> sched_sim \<times> u8 list" where
  "sched_drain_all dw m out = sched_drain_loop dw 100000 (set_sched (\<lambda>p. p\<lparr>m_tready := True\<rparr>) m) out"

section \<open>The tests\<close>

definition sched_sm :: "u8 list" where "sched_sm = [0x02, 0, 0, 0, 0, 1]"
definition sched_dm :: "u8 list" where "sched_dm = [0x02, 0, 0, 0, 0, 2]"

definition sched_udp :: "ipv4_hdr \<Rightarrow> u16 \<Rightarrow> u16 \<Rightarrow> u8 list \<Rightarrow> packet_gen \<Rightarrow> u8 list \<times> packet_gen" where
  "sched_udp h0 sp dp payload g = make_udp_packet h0 sched_sm sched_dm 0xC0A80001 0xC0A80002 sp dp payload g"

definition sched_tcp :: "ipv4_hdr \<Rightarrow> u16 \<Rightarrow> u16 \<Rightarrow> u8 list \<Rightarrow> packet_gen \<Rightarrow> u8 list \<times> packet_gen" where
  "sched_tcp h0 sp dp payload g = make_tcp_packet h0 sched_sm sched_dm 0xC0A80001 0xC0A80002 sp dp payload 0x02 g"

definition test_strict_priority :: "ipv4_hdr \<Rightarrow> scheduler \<Rightarrow> bool option" where
  "test_strict_priority h0 s =
     (let m = ssim_reset (ssim_new s);
          (low, g) = sched_udp h0 53 1234 [0x4C] \<lparr>ip_id_counter = 0\<rparr>;
          (med, g) = sched_tcp h0 80 55555 [0x4D] g;
          (high, g) = sched_tcp h0 443 55555 [0x48] g
      in Option.bind (sched_push 8 0 low m) (\<lambda>m.
         Option.bind (sched_push 8 2 med m) (\<lambda>m.
         Option.bind (sched_push 8 3 high m) (\<lambda>m.
           let (m, r1) = drain_one 8 m; (m, r2) = drain_one 8 m; (m, r3) = drain_one 8 m
           in Some (length r1 = length high \<and> length r2 = length med \<and> length r3 = length low)))))"

definition test_wrr_order :: "ipv4_hdr \<Rightarrow> scheduler \<Rightarrow> bool option" where
  "test_wrr_order h0 s =
     (let m = ssim_reset (ssim_new s);
          (pkt, g) = sched_udp h0 53 1234 [0x54] \<lparr>ip_id_counter = 0\<rparr>
      in Option.bind (sched_push 8 1 pkt m) (\<lambda>m.
           let (m, rx) = drain_one 8 m in Some (length rx = length pkt)))"

text \<open>The three packets of \<open>test_multi_queue\<close>; it builds them a second time to sum their sizes.\<close>

definition multi_packet :: "ipv4_hdr \<Rightarrow> nat \<Rightarrow> packet_gen \<Rightarrow> u8 list \<times> packet_gen" where
  "multi_packet h0 i g = sched_udp h0 (of_nat (100 + i)) (of_nat (200 + i)) [0x41 + of_nat i] g"

definition test_multi_queue :: "ipv4_hdr \<Rightarrow> scheduler \<Rightarrow> bool option" where
  "test_multi_queue h0 s =
     (let m = ssim_reset (ssim_new s);
          (p0, g) = multi_packet h0 0 \<lparr>ip_id_counter = 0\<rparr>;
          (p1, g) = multi_packet h0 1 g;
          (p2, g) = multi_packet h0 2 g;
          (e0, g) = multi_packet h0 0 g;
          (e1, g) = multi_packet h0 1 g;
          (e2, g) = multi_packet h0 2 g
      in Option.bind (sched_push 8 0 p0 m) (\<lambda>m.
         Option.bind (sched_push 8 1 p1 m) (\<lambda>m.
         Option.bind (sched_push 8 2 p2 m) (\<lambda>m.
           let (m, rx) = sched_drain_all 8 m []
           in Some (length rx = length e0 + length e1 + length e2)))))"

definition tb_scheduler_main :: "ipv4_hdr \<Rightarrow> (nat \<Rightarrow> scheduler) \<Rightarrow> int option" where
  "tb_scheduler_main h0 s =
     Option.bind (test_strict_priority h0 (s 0)) (\<lambda>a.
     Option.bind (test_wrr_order h0 (s 1)) (\<lambda>b.
     Option.bind (test_multi_queue h0 (s 2)) (\<lambda>c.
     Some (if a \<and> b \<and> c then 0 else 1))))"

section \<open>One queue fills up\<close>

lemma ssim_simps [simp]:
  "vregs (sdut (ssim_pre m)) = vregs (sdut m)" "pins (sdut (ssim_pre m)) = pins (sdut m)"
  "\<not> clk_prev (sdut (ssim_pre m))"
  "\<not> clk_prev (sdut m) \<Longrightarrow> vregs (sdut (ssim_post m)) = scheduler_step 16 0 (pins (sdut m)) (vregs (sdut m))"
  "pins (sdut (ssim_post m)) = pins (sdut m)"
  "vregs (sdut (set_sched h m)) = vregs (sdut m)" "pins (sdut (set_sched h m)) = h (pins (sdut m))"
  "clk_prev (sdut (set_sched h m)) = clk_prev (sdut m)"
  by (simp_all add: ssim_pre_def ssim_post_def set_sched_def edge vsched_step_def)

lemma ssim_cycle_simps [simp]:
  "vregs (sdut (ssim_cycle m)) = scheduler_step 16 0 (pins (sdut m)) (vregs (sdut m))"
  "pins (sdut (ssim_cycle m)) = pins (sdut m)"
  by (simp_all add: ssim_cycle_def)

text \<open>The bench writes the class into bits 333 to 340 of the metadata, a part of \<open>dst_mac\<close>, so that
  every packet has class 0 and goes to the low queue: the state of a running bench is its contents.\<close>

definition low_only :: "axis_beat list \<Rightarrow> sched_sim \<Rightarrow> bool" where
  "low_only q m \<longleftrightarrow> sched_rep 4 (vregs (sdut m)) ((\<lambda>_. [])(2 := q)) \<and> rst_n (pins (sdut m)) \<and>
     class_id (unpack_meta (s_meta (pins (sdut m)))) = 0"

lemma dest_low: "class_id (unpack_meta (s_meta p)) = 0 \<Longrightarrow> dest p = 2"
  by (simp add: dest_def dest_queue_def)

lemma low_only_post:
  assumes "low_only q m" "\<not> clk_prev (sdut m)"
  defines "p \<equiv> pins (sdut m)"
  shows "low_only ((if arb_state (vregs (sdut m)) = 2 \<and> m_tready p then tl q else q) @
      (if s_tvalid p \<and> length q < 16 then [s_beat p] else [])) (ssim_post m)"
proof -
  have rep: "sched_rep 4 (vregs (sdut m)) ((\<lambda>_. [])(2 := q))" and p: "rst_n p" "dest p = 2"
    using assms(1) dest_low by (simp_all add: low_only_def p_def)
  have "queues_step 4 p (arb_state (vregs (sdut m))) ((\<lambda>_. [])(2 := q)) =
      (\<lambda>_. [])(2 := (if arb_state (vregs (sdut m)) = 2 \<and> m_tready p then tl q else q) @
        (if s_tvalid p \<and> length q < 16 then [s_beat p] else []))"
    by (auto simp: queues_step_def p(2))
  then show ?thesis
    using sched_rep_step [OF rep p(1), of 0] assms(1,2) by (simp add: low_only_def p_def)
qed

lemma low_only_ready: "low_only q m \<Longrightarrow> out_ready m \<longleftrightarrow> length q < 16"
  using sched_flags(1) [of 4 "vregs (sdut m)" "(\<lambda>_. [])(2 := q)" "pins (sdut m)"] dest_low
  by (auto simp: low_only_def out_ready_def)

lemma class_unchanged: "class_id (unpack_meta m) = 0 \<Longrightarrow> class_id (unpack_meta (meta_put m 10 w)) = 0"
  by (simp add: class_id_put)

definition shows_as :: "nat \<Rightarrow> axis_beat \<Rightarrow> u8 list \<times> bool" where
  "shows_as dw b = (out_bytes dw b, tlast b)"

lemma drive_low:
  assumes "dw \<le> 63" "pos < length pkt" "low_only q m" "\<not> m_tready (pins (sdut m))" "length q < 16"
  obtains b where "low_only (q @ [b]) (sched_drive dw cls pkt pos m)"
    "\<not> m_tready (pins (sdut (sched_drive dw cls pkt pos m)))"
    "shows_as dw b = (take dw (drop pos pkt), length (drop pos pkt) \<le> dw)"
proof -
  define nb where "nb = (if length pkt - pos < dw then length pkt - pos else dw)"
  define h :: "sched_pins \<Rightarrow> sched_pins" where "h = (\<lambda>p. p\<lparr>s_tdata := set32 (s_tdata p) (drop pos pkt) nb, s_tkeep := keep_mask nb,
    s_tlast := (pos + nb \<ge> length pkt), s_tvalid := True, s_meta := meta_put (s_meta p) 10 (push_bit 13 (ucast cls))\<rparr>)"
  let ?m = "set_sched h (ssim_pre m)" and ?b = "s_beat (h (pins (sdut m)))"
  have drive: "sched_drive dw cls pkt pos m = ssim_post ?m" by (simp add: sched_drive_def Let_def h_def nb_def)
  have low: "low_only q ?m" using assms(3) class_unchanged by (simp add: low_only_def h_def)
  have nb: "nb \<le> length (drop pos pkt)" "nb \<le> dw" "take nb (drop pos pkt) = take dw (drop pos pkt)"
    "length pkt \<le> pos + nb \<longleftrightarrow> length (drop pos pkt) \<le> dw"
    using assms(2) by (auto simp: nb_def)
  have "vlwide_get_bytes (set32 d (drop pos pkt) nb) nb = take nb (drop pos pkt)" for d
    using get_set_bytes [of nb "drop pos pkt" d] nb assms(1) by simp
  then have bytes: "shows_as dw ?b = (take dw (drop pos pkt), length (drop pos pkt) \<le> dw)"
    using keep_count_mask [OF nb(2) assms(1)] nb(3,4)
    by (simp add: shows_as_def out_bytes_def s_beat_def h_def)
  show ?thesis
    by (rule that [of ?b])
      (use low_only_post [OF low] assms(4,5) bytes in \<open>simp_all add: drive h_def\<close>)
qed

text \<open>The wait loop of a full queue never ends: the bench does not drain while it pushes.\<close>

lemma wait_not_full:
  assumes "sched_wait m = Some m'" "low_only q m" "\<not> m_tready (pins (sdut m))"
  shows "length q \<noteq> 16"
  using assms(2,3)
proof (induction rule: sched_wait.raw_induct [OF _ assms(1)])
  case (1 wait m m')
  show ?case
  proof
    assume len: "length q = 16"
    then have wait: "wait (ssim_cycle m) = Some m'" using 1(2,3) low_only_ready by auto
    have "low_only q (ssim_pre m)" using 1(3) by (simp add: low_only_def)
    then have "low_only q (ssim_cycle m)" "\<not> m_tready (pins (sdut (ssim_cycle m)))"
      using low_only_post [of q "ssim_pre m"] 1(4) len by (simp_all add: ssim_cycle_def)
    then show False using 1(1) [OF wait] len by blast
  qed
qed

lemma wait_full: "low_only q m \<Longrightarrow> length q = 16 \<Longrightarrow> \<not> m_tready (pins (sdut m)) \<Longrightarrow> sched_wait m = None"
  using wait_not_full by (cases "sched_wait m") auto

lemma wait_room: "low_only q m \<Longrightarrow> length q < 16 \<Longrightarrow> sched_wait m = Some m"
  by (subst sched_wait.simps) (simp add: low_only_ready)

lemma beats_at:
  assumes "0 < dw" "pos < length pkt"
  shows "packet_beats dw (drop pos pkt) = (take dw (drop pos pkt), length (drop pos pkt) \<le> dw) #
    packet_beats dw (drop (pos + (if length pkt - pos < dw then length pkt - pos else dw)) pkt)"
  using packet_beats_step [of dw "drop pos pkt"] assms by (auto simp: add.commute)

lemma push_loop_low:
  assumes "0 < dw" "dw \<le> 63" "low_only q m" "\<not> m_tready (pins (sdut m))" "length q < 16"
  shows "if length q + length (packet_beats dw (drop pos pkt)) < 16
    then \<exists>m' q'. sched_push_loop dw cls pkt pos m = Some m' \<and> low_only (q @ q') m' \<and>
      \<not> m_tready (pins (sdut m')) \<and> map (shows_as dw) q' = packet_beats dw (drop pos pkt)
    else sched_push_loop dw cls pkt pos m = None"
  using assms(3-5)
proof (induction "length pkt - pos" arbitrary: pos m q rule: less_induct)
  case less
  show ?case
  proof (cases "pos < length pkt")
    case False
    then have "sched_push_loop dw cls pkt pos m = Some m" by (subst sched_push_loop.simps) simp
    then show ?thesis using False less.prems by (auto intro!: exI [of _ "[]"])
  next
    case True
    let ?nb = "if length pkt - pos < dw then length pkt - pos else dw"
    obtain b where b: "low_only (q @ [b]) (sched_drive dw cls pkt pos m)"
      "\<not> m_tready (pins (sdut (sched_drive dw cls pkt pos m)))"
      "shows_as dw b = (take dw (drop pos pkt), length (drop pos pkt) \<le> dw)"
      using drive_low [OF assms(2) True less.prems] by metis
    note beats = beats_at [OF assms(1) True]
    have loop: "sched_push_loop dw cls pkt pos m = Option.bind (sched_wait (sched_drive dw cls pkt pos m))
        (\<lambda>m. sched_push_loop dw cls pkt (pos + ?nb) m)"
      using True by (subst sched_push_loop.simps) simp
    show ?thesis
    proof (cases "length q = 15")
      case full: True
      then have "sched_wait (sched_drive dw cls pkt pos m) = None" using wait_full [OF b(1) _ b(2)] by simp
      then show ?thesis using full by (simp add: loop beats)
    next
      case False
      then have room: "length (q @ [b]) < 16" using less.prems(3) by simp
      have "length pkt - (pos + ?nb) < length pkt - pos" using True assms(1) by auto
      note IH = less.hyps [OF this b(1,2) room]
      have step: "sched_push_loop dw cls pkt pos m = sched_push_loop dw cls pkt (pos + ?nb) (sched_drive dw cls pkt pos m)"
        by (simp only: loop wait_room [OF b(1) room] bind.simps)
      have beats': "map (shows_as dw) (b # q') = packet_beats dw (drop pos pkt)"
        if "map (shows_as dw) q' = packet_beats dw (drop (pos + ?nb) pkt)" for q'
        unfolding beats using that b(3) by simp
      have len: "length q + length (packet_beats dw (drop pos pkt)) =
          length (q @ [b]) + length (packet_beats dw (drop (pos + ?nb) pkt))"
        unfolding beats by simp
      show ?thesis
      proof (cases "length q + length (packet_beats dw (drop pos pkt)) < 16")
        case True
        then obtain m' q' where "sched_push_loop dw cls pkt (pos + ?nb) (sched_drive dw cls pkt pos m) = Some m'"
          "low_only ((q @ [b]) @ q') m'" "\<not> m_tready (pins (sdut m'))"
          "map (shows_as dw) q' = packet_beats dw (drop (pos + ?nb) pkt)"
          using IH unfolding len by auto
        then show ?thesis using True step beats' by (auto intro!: exI [of _ "b # q'"])
      next
        case False
        then show ?thesis using IH step unfolding len by simp
      qed
    qed
  qed
qed

section \<open>Reset and drain\<close>

lemma reset_low:
  assumes "\<forall>q<3. length (ram (queue_fifo s q)) = 16"
  shows "low_only [] (ssim_reset (ssim_new s))" "\<not> s_tvalid (pins (sdut (ssim_reset (ssim_new s))))"
proof -
  let ?m0 = "set_sched (\<lambda>p. p\<lparr>rst_n := False\<rparr>) (ssim_new s)"
  have pins0: "pins (sdut ((ssim_cycle ^^ n) ?m0)) = sched_pins0" for n
    by (induction n) (simp_all add: ssim_new_def edge sched_pins0_def)
  have rams: "\<forall>q<3. length (ram (queue_fifo (vregs (sdut ((ssim_cycle ^^ n) ?m0))) q)) = 16" for n
  proof (induction n)
    case 0
    show ?case using assms by (simp add: ssim_new_def edge)
  next
    case (Suc n)
    then show ?case
      by (simp add: pins0) (simp add: scheduler_step_def sched_pins0_def axis_fifo_step_def)
  qed
  let ?m1 = "ssim_cycle ((ssim_cycle ^^ 3) ?m0)"
  have "sched_rep 4 (vregs (sdut ?m1)) (\<lambda>_. [])"
    using sched_reset_rep(1) [of "vregs (sdut ((ssim_cycle ^^ 3) ?m0))" 4 sched_pins0 0] rams [of 3]
    by (simp add: pins0) (simp add: sched_pins0_def)
  moreover have "pins (sdut ?m1) = sched_pins0" using pins0 [of 4] by (simp add: numeral_eq_Suc)
  moreover have "class_id (unpack_meta 0) = 0" by (simp add: unpack_meta_def field_def)
  ultimately have low: "low_only [] (ssim_pre (set_sched (\<lambda>p. p\<lparr>rst_n := True\<rparr>) ?m1))"
    by (simp add: low_only_def sched_pins0_def fun_upd_idem)
  have reset: "ssim_reset (ssim_new s) = ssim_post (ssim_pre (set_sched (\<lambda>p. p\<lparr>rst_n := True\<rparr>) ?m1))"
    by (simp add: ssim_reset_def Let_def ssim_cycle_def numeral_eq_Suc)
  show "low_only [] (ssim_reset (ssim_new s))"
    using low_only_post [OF low] \<open>pins (sdut ?m1) = sched_pins0\<close>
    by (simp add: reset sched_pins0_def)
  show "\<not> s_tvalid (pins (sdut (ssim_reset (ssim_new s))))"
    using \<open>pins (sdut ?m1) = sched_pins0\<close> by (simp add: reset sched_pins0_def)
qed

lemma low_only_arb:
  assumes "low_only q m" "q \<noteq> []"
  shows "arb_state (vregs (sdut (ssim_cycle m))) = 2"
proof -
  have rep: "sched_rep 4 (vregs (sdut m)) ((\<lambda>_. [])(2 := q))" and p: "rst_n (pins (sdut m))"
    using assms(1) by (simp_all add: low_only_def)
  show ?thesis
    using strict_next [of 4 "vregs (sdut m)" "pins (sdut m)" 2] sched_repI [OF rep] p assms(2)
    by (simp add: ssim_cycle_def)
qed

lemma low_only_taken:
  assumes "low_only q m" "m_tready (pins (sdut m))"
  shows "out_taken m = (if arb_state (vregs (sdut m)) = 2 \<and> q \<noteq> [] then Some (hd q) else None)"
  using sched_flags(4) [of 4 "vregs (sdut m)" "(\<lambda>_. [])(2 := q)"] assms
  by (auto simp: out_taken_def out_beat_def low_only_def split: list.splits)

lemma low_only_cycle:
  assumes "low_only q m" "m_tready (pins (sdut m))" "\<not> s_tvalid (pins (sdut m))"
  shows "low_only (if arb_state (vregs (sdut m)) = 2 then tl q else q) (ssim_cycle m)"
    "m_tready (pins (sdut (ssim_cycle m)))" "\<not> s_tvalid (pins (sdut (ssim_cycle m)))"
  using low_only_post [of q "ssim_pre m"] assms by (auto simp: ssim_cycle_def low_only_def)

text \<open>A packet in the queue comes out whole; the drain loop stops at its last beat.\<close>

lemma drain_packet:
  assumes "low_only q m" "m_tready (pins (sdut m))" "\<not> s_tvalid (pins (sdut m))"
    "arb_state (vregs (sdut m)) = 2" "ends (map (shows_as dw) q)" "length q \<le> n"
  shows "snd (drain_one_loop dw n m out) = out @ concat (map (out_bytes dw) q)"
  using assms
proof (induction q arbitrary: n m out)
  case Nil
  then show ?case by (simp add: ends_def)
next
  case (Cons b q)
  then obtain n' where n: "n = Suc n'" by (cases n) auto
  have taken: "out_taken (ssim_pre m) = Some b"
    using low_only_taken [of "b # q" "ssim_pre m"] Cons.prems by (simp add: low_only_def)
  note cycle = low_only_cycle [OF Cons.prems(1-3)]
  show ?case
  proof (cases "q = []")
    case True
    then have "tlast b" using Cons.prems(5) by (simp add: ends_def shows_as_def)
    then show ?thesis using True taken by (simp add: n)
  next
    case False
    then have "\<not> tlast b" "ends (map (shows_as dw) q)"
      using Cons.prems(5) ends_suffix [of "[shows_as dw b]" "map (shows_as dw) q"]
      by (simp_all add: ends_def) (simp add: shows_as_def)
    then show ?thesis
      using Cons.IH [OF _ cycle(2,3) low_only_arb [OF Cons.prems(1)], of n' "out @ out_bytes dw b"] cycle(1)
        Cons.prems(4,6) taken
      by (simp add: n ssim_cycle_def [symmetric])
  qed
qed

lemma drain_after_push:
  assumes "low_only q m" "\<not> s_tvalid (pins (sdut m))" "ends (map (shows_as dw) q)" "length q < 100000"
  shows "snd (drain_one dw m) = concat (map (out_bytes dw) q)"
proof -
  let ?m = "set_sched (\<lambda>p. p\<lparr>m_tready := True\<rparr>) m"
  have m: "low_only q ?m" "m_tready (pins (sdut ?m))" "\<not> s_tvalid (pins (sdut ?m))"
    using assms(1,2) by (simp_all add: low_only_def)
  show ?thesis
  proof (cases "arb_state (vregs (sdut ?m)) = 2")
    case True
    then show ?thesis
      using drain_packet [OF m True assms(3), of 100000 "[]"] assms(4) unfolding drain_one_def by simp
  next
    case False
    have q: "q \<noteq> []" using assms(3) by (auto simp: ends_def)
    note cycle = low_only_cycle [OF m]
    have "out_taken (ssim_pre ?m) = None"
      using low_only_taken [of q "ssim_pre ?m"] m False by (simp add: low_only_def)
    then have "drain_one_loop dw (Suc 99999) ?m [] = drain_one_loop dw 99999 (ssim_cycle ?m) []"
      by (simp only: drain_one_loop.simps Let_def option.case ssim_cycle_def)
    moreover have "snd (drain_one_loop dw 99999 (ssim_cycle ?m) []) = concat (map (out_bytes dw) q)"
      using drain_packet [OF _ cycle(2,3) low_only_arb [OF m(1) q] assms(3), of 99999 "[]"] cycle(1) False assms(4)
      by simp
    ultimately show ?thesis by (simp add: drain_one_def)
  qed
qed

section \<open>Which pushes return\<close>

lemma low_only_set:
  "low_only q m \<Longrightarrow> low_only q (set_sched (\<lambda>p. p\<lparr>m_tready := r\<rparr>) m)"
  "low_only q m \<Longrightarrow> low_only q (set_sched (\<lambda>p. p\<lparr>s_tvalid := r\<rparr>) (ssim_pre m))"
  by (simp_all add: low_only_def)

lemma push_fits:
  assumes "0 < dw" "dw \<le> 63" "low_only q m" "length q + length (packet_beats dw pkt) < 16"
  obtains m' q' where "sched_push dw cls pkt m = Some m'" "low_only (q @ q') m'"
    "\<not> s_tvalid (pins (sdut m'))" "map (shows_as dw) q' = packet_beats dw pkt"
proof -
  let ?m = "set_sched (\<lambda>p. p\<lparr>m_tready := False\<rparr>) m"
  have "\<not> m_tready (pins (sdut ?m))" "length q < 16" using assms(4) by simp_all
  from push_loop_low [OF assms(1,2) low_only_set(1) [OF assms(3)] this, of 0 pkt cls] assms(4)
  obtain m' q' where 1: "sched_push_loop dw cls pkt 0 ?m = Some m'" "low_only (q @ q') m'"
    "\<not> m_tready (pins (sdut m'))" "map (shows_as dw) q' = packet_beats dw pkt"
    by auto
  show ?thesis
    by (rule that [of "ssim_post (set_sched (\<lambda>p. p\<lparr>s_tvalid := False\<rparr>) (ssim_pre m'))" q'])
      (use 1 low_only_post [OF low_only_set(2) [OF 1(2)], of False] in \<open>simp_all add: sched_push_def\<close>)
qed

lemma push_hangs:
  assumes "0 < dw" "dw \<le> 63" "low_only q m" "length q < 16" "16 \<le> length q + length (packet_beats dw pkt)"
  shows "sched_push dw cls pkt m = None"
proof -
  let ?m = "set_sched (\<lambda>p. p\<lparr>m_tready := False\<rparr>) m"
  have "\<not> m_tready (pins (sdut ?m))" by simp
  from push_loop_low [OF assms(1,2) low_only_set(1) [OF assms(3)] this assms(4), of 0 pkt cls] assms(5)
  have "sched_push_loop dw cls pkt 0 ?m = None" by simp
  then show ?thesis by (simp add: sched_push_def)
qed

lemma shown_length: "map (shows_as dw) q = packet_beats dw pkt \<Longrightarrow> length q = length (packet_beats dw pkt)"
  by (metis length_map)

lemma push_two_hang:
  assumes "0 < dw" "dw \<le> 63" "low_only [] m"
    "length (packet_beats dw p1) + length (packet_beats dw p2) < 16"
    "16 \<le> length (packet_beats dw p1) + length (packet_beats dw p2) + length (packet_beats dw p3)"
  shows "Option.bind (sched_push dw c1 p1 m) (\<lambda>m. Option.bind (sched_push dw c2 p2 m) (\<lambda>m.
    Option.bind (sched_push dw c3 p3 m) f)) = None"
proof -
  obtain m1 q1 where 1: "sched_push dw c1 p1 m = Some m1" "low_only q1 m1" "map (shows_as dw) q1 = packet_beats dw p1"
    by (rule push_fits [OF assms(1-3), of p1 c1]) (use assms(4) in simp_all)
  obtain m2 q2 where 2: "sched_push dw c2 p2 m1 = Some m2" "low_only (q1 @ q2) m2" "map (shows_as dw) q2 = packet_beats dw p2"
    by (rule push_fits [OF assms(1,2) 1(2), of p2 c2]) (use shown_length [OF 1(3)] assms(4) in simp_all)
  have "sched_push dw c3 p3 m2 = None"
    using push_hangs [OF assms(1,2) 2(2)] shown_length [OF 1(3)] shown_length [OF 2(3)] assms(4,5) by simp
  then show ?thesis by (simp add: 1 2)
qed

lemma sched_sizes [simp]:
  "length (fst (sched_udp h0 sp dp payload g)) = 42 + length payload"
  "length (fst (sched_tcp h0 sp dp payload g)) = 54 + length payload"
  by (simp_all add: sched_udp_def sched_tcp_def sched_sm_def sched_dm_def make_udp_wire make_tcp_wire eth_wire_def)

lemma one_packet:
  assumes "0 < dw" "dw \<le> 63" "low_only [] m" "pkt \<noteq> []" "length (packet_beats dw pkt) < 16"
  obtains m' where "sched_push dw cls pkt m = Some m'" "snd (drain_one dw m') = pkt"
proof -
  obtain m' q where 1: "sched_push dw cls pkt m = Some m'" "low_only q m'" "\<not> s_tvalid (pins (sdut m'))"
    "map (shows_as dw) q = packet_beats dw pkt"
    by (rule push_fits [OF assms(1-3), of pkt cls]) (use assms(5) in simp_all)
  have "ends (map (shows_as dw) q)" using ends_packet [OF assms(1,4)] 1(4) by simp
  moreover have "length q < 100000" using shown_length [OF 1(4)] assms(5) by simp
  moreover have "concat (map (out_bytes dw) q) = concat (map fst (map (shows_as dw) q))"
    by (simp add: shows_as_def comp_def)
  ultimately have "snd (drain_one dw m') = pkt"
    using drain_after_push [OF 1(2,3)] packet_bytes [OF assms(1), of pkt] 1(4) by simp
  then show ?thesis using that 1(1) by blast
qed

section \<open>Properties\<close>

text \<open>C15: The scheduler bench never returns: whatever the power-on state, its first test pushes 20
  beats without draining, all of class 0 because the class is written to the wrong word of the
  metadata, into a queue of 16, and waits forever for \<open>s_tready\<close>; the last test does the same
  with 18 beats. The test in between, with a packet of 6 beats, passes.\<close>

theorem tb_scheduler_hangs:
  assumes "\<forall>i. \<forall>q<3. length (ram (queue_fifo (s i) q)) = 16"
  shows "test_strict_priority h0 (s 0) = None \<and> test_wrr_order h0 (s 1) = Some True
    \<and> test_multi_queue h0 (s 2) = None \<and> tb_scheduler_main h0 s = None"
proof -
  have low: "low_only [] (ssim_reset (ssim_new (s i)))" for i using reset_low(1) assms by blast
  have strict: "test_strict_priority h0 (s 0) = None"
    unfolding test_strict_priority_def Let_def split_def
    by (rule push_two_hang [OF _ _ low]) (simp_all add: length_packet_beats)
  have multi: "test_multi_queue h0 (s 2) = None"
    unfolding test_multi_queue_def Let_def split_def
    by (rule push_two_hang [OF _ _ low]) (simp_all add: length_packet_beats multi_packet_def)
  let ?pkt = "fst (sched_udp h0 53 1234 [0x54] \<lparr>ip_id_counter = 0\<rparr>)"
  have "length ?pkt = 43" by simp
  then have "?pkt \<noteq> []" by (metis list.size(3) zero_neq_numeral)
  obtain m' where "sched_push 8 1 ?pkt (ssim_reset (ssim_new (s 1))) = Some m'" "snd (drain_one 8 m') = ?pkt"
    by (rule one_packet [OF _ _ low [of 1] \<open>?pkt \<noteq> []\<close>, of 8 1]) (simp_all add: length_packet_beats)
  then have "test_wrr_order h0 (s 1) = Some True" by (simp add: test_wrr_order_def split_def)
  then show ?thesis using strict multi by (simp add: tb_scheduler_main_def)
qed

theorem tb_scheduler_hangs_witness:
  "tb_scheduler_main zero_hdr (\<lambda>_. \<lparr>queue_fifo = (\<lambda>_. \<lparr>wr_ptr = 1, rd_ptr = 0, m_tvalid = True,
      ram = replicate 16 sample_beat\<rparr>), arb_state = 3, wrr_count = (\<lambda>_. 7)\<rparr>) = None"
  using tb_scheduler_hangs [where s = "\<lambda>_. \<lparr>queue_fifo = (\<lambda>_. \<lparr>wr_ptr = 1, rd_ptr = 0, m_tvalid = True,
      ram = replicate 16 sample_beat\<rparr>), arb_state = 3, wrr_count = (\<lambda>_. 7)\<rparr>" and ?h0.0 = zero_hdr]
  by simp

end
