(* ===== verification/Narrow_Beats.thy ===== *)
theory Narrow_Beats
  imports Tb_Flow
begin

text \<open>
  What the pipeline makes of packets whose first beat holds no headers, above all of those in beats of
  eight bytes, as all its benches send them. The parsers read the headers from the lanes of the first
  beat only, and find zeros above lane 7: no packet is recognised as IPv4, and all belong to one flow,
  whatever the further beats hold. The metadata of every stage is traced through the pipeline as an
  invariant, from reset on.
\<close>

section \<open>Metadata without headers\<close>

definition unparsed :: "packet_metadata \<Rightarrow> bool" where
  "unparsed m \<longleftrightarrow> m\<lparr>dst_mac := 0, src_mac := 0, pkt_length := 0\<rparr> = meta0"

lemma unparsedD:
  assumes "unparsed m"
  shows "ethertype m = 0" "\<not> vlan_valid m" "\<not> ipv4_valid m" "\<not> tcp_valid m" "\<not> udp_valid m" "protocol m = 0"
    "class_id m = 0" "\<not> meta_drop m" "\<not> crc_error m" "\<not> parse_error m" "flow_key_of m = flow_key_of meta0"
proof -
  let ?m = "m\<lparr>dst_mac := 0, src_mac := 0, pkt_length := 0\<rparr>"
  have m: "?m = meta0" using assms by (simp add: unparsed_def)
  have "ethertype ?m = 0" "\<not> vlan_valid ?m" "\<not> ipv4_valid ?m" "\<not> tcp_valid ?m" "\<not> udp_valid ?m" "protocol ?m = 0"
    "class_id ?m = 0" "\<not> meta_drop ?m" "\<not> crc_error ?m" "\<not> parse_error ?m"
    unfolding m by (simp_all add: meta0_def)
  then show "ethertype m = 0" "\<not> vlan_valid m" "\<not> ipv4_valid m" "\<not> tcp_valid m" "\<not> udp_valid m" "protocol m = 0"
    "class_id m = 0" "\<not> meta_drop m" "\<not> crc_error m" "\<not> parse_error m"
    by simp_all
  have "flow_key_of ?m = flow_key_of m" by (simp add: flow_key_of_def)
  then show "flow_key_of m = flow_key_of meta0" using m by simp
qed

lemma unparsed_length: "unparsed (m\<lparr>pkt_length := n\<rparr>) \<longleftrightarrow> unparsed m"
  by (simp add: unparsed_def)

lemma unparsed_stages:
  shows "word16_be d 12 = 0 \<Longrightarrow> unparsed (eth_parse d meta0)"
    and "unparsed m \<Longrightarrow> unparsed (vlan_parse d m)"
    and "unparsed m \<Longrightarrow> unparsed (ipv4_parse d m)"
    and "unparsed m \<Longrightarrow> unparsed (udp_parse d m)"
    and "unparsed m \<Longrightarrow> unparsed (tcp_parse d m)"
    and "unparsed m \<Longrightarrow> unparsed (match_parse m)"
proof -
  show "word16_be d 12 = 0 \<Longrightarrow> unparsed (eth_parse d meta0)"
    by (simp add: unparsed_def eth_parse_def meta0_def npe_consts)
next
  assume m: "unparsed m"
  note parts = unparsedD [OF m]
  show "unparsed (vlan_parse d m)" "unparsed (ipv4_parse d m)" "unparsed (udp_parse d m)" "unparsed (tcp_parse d m)"
    using m parts by (simp_all add: vlan_parse_def ipv4_parse_def udp_parse_def tcp_parse_def Let_def npe_consts)
  have "service m = 0" using parts by (simp add: service_def npe_consts)
  moreover have "m\<lparr>class_id := 0, meta_drop := False\<rparr> = m" using parts by (cases m) simp
  ultimately show "unparsed (match_parse m)" using m by (simp add: match_parse_def match_lookup_eq)
qed

section \<open>An invariant of the stages\<close>

text \<open>A stage that has met a packet since the reset holds such metadata.\<close>

definition stage_ok :: "'x parser_regs_scheme \<Rightarrow> bool" where
  "stage_ok s \<longleftrightarrow> unparsed (pipe_meta s) \<or> first_beat s \<and> \<not> pipe_valid (pipe s)"

lemma stage_okD: "stage_ok s \<Longrightarrow> pipe_valid (pipe s) \<Longrightarrow> unparsed (pipe_meta s)"
  by (simp add: stage_ok_def)

lemma stage_ok_step:
  assumes "stage_ok s" "v \<Longrightarrow> reg_ready r (pipe s) \<Longrightarrow> first_beat s \<Longrightarrow> unparsed (upd b m)"
  shows "stage_ok (meta_stage_step upd True b v r m s)"
  using assms
  by (auto simp: stage_ok_def meta_stage_step_def axis_register_step_def track_first_def reg_ready_def Let_def)

lemma eth_ok_step:
  assumes "stage_ok e" "v \<Longrightarrow> reg_ready r (pipe e) \<Longrightarrow> first_beat e \<Longrightarrow> word16_be (tdata b) 12 = 0"
  shows "stage_ok (eth_step True b v r meta0 e)"
proof -
  have "stage_ok (meta_stage_step (\<lambda>b. eth_parse (tdata b)) True b v r meta0 e)"
    by (rule stage_ok_step [OF assms(1)]) (use assms(2) unparsed_stages(1) in blast)
  then show ?thesis by (auto simp: stage_ok_def eth_step_def Let_def unparsed_length)
qed

lemma match_ok_step:
  assumes "stage_ok t" "v \<Longrightarrow> unparsed m"
  shows "stage_ok (match_step True b v r m t)"
proof -
  have "stage_ok (meta_stage_step (\<lambda>b. match_parse) True b v r m t)"
    by (rule stage_ok_step [OF assms(1)]) (use assms(2) unparsed_stages(6) in blast)
  then show ?thesis by (auto simp: stage_ok_def match_step_def Let_def)
qed

lemma parser_ok_steps:
  assumes "v \<Longrightarrow> unparsed m"
  shows "stage_ok s \<Longrightarrow> stage_ok (vlan_step True b v r m s)" "stage_ok s \<Longrightarrow> stage_ok (ipv4_step True b v r m s)"
    "stage_ok s \<Longrightarrow> stage_ok (udp_step True b v r m s)" "stage_ok s \<Longrightarrow> stage_ok (tcp_step True b v r m s)"
  unfolding parser_steps by (rule stage_ok_step; use assms unparsed_stages in blast)+

text \<open>The counters of what the parsers did not see, and the one flow.\<close>

definition nothing_counted :: "stats_regs \<Rightarrow> bool" where
  "nothing_counted s \<longleftrightarrow> cnt_ipv4 s = 0 \<and> cnt_tcp s = 0 \<and> cnt_udp s = 0 \<and> cnt_arp s = 0 \<and> cnt_drops s = 0 \<and> cnt_errors s = 0"

definition one_flow :: "flow_ram \<Rightarrow> bool" where
  "one_flow ram \<longleftrightarrow> (\<forall>w i. fe_valid (ram w i) \<longrightarrow> fe_key (ram w i) = flow_key_of meta0)"

lemma nothing_counted_step:
  assumes "nothing_counted s" "v \<Longrightarrow> unparsed m"
  shows "nothing_counted (stats_step True b v r m s)"
  using assms unparsedD [of m]
  by (auto simp: nothing_counted_def stats_step_def count_packet_def inc_if_def npe_consts Let_def)

lemma one_flow_update:
  assumes "one_flow ram"
  shows "one_flow (fst (flow_update oob t (flow_key_of meta0) i len (ram, l)))"
  using assms by (auto simp: one_flow_def flow_update_def fresh_entry_def way_hit_def Let_def)

lemma one_flow_step:
  assumes "one_flow (flow_ram s)" "v \<Longrightarrow> unparsed m"
  shows "one_flow (flow_ram (flow_step oob pad True b v r m s))"
  using assms one_flow_update unparsedD(11) [of m] by (auto simp: flow_step_def Let_def)

definition no_headers :: "pipeline \<Rightarrow> bool" where
  "no_headers p \<longleftrightarrow> pipe_inv p \<and>
     stage_ok (eth_inst p) \<and> stage_ok (vlan_inst p) \<and> stage_ok (ip_inst p) \<and> stage_ok (udp_inst p) \<and>
     stage_ok (tcp_inst p) \<and> stage_ok (match_inst p) \<and>
     (pipe_valid (mod_pipe (mod_inst p)) \<or> pipe_valid (st_pipe (stats_inst p)) \<longrightarrow> unparsed (pipe_meta (match_inst p))) \<and>
     nothing_counted (stats_inst p) \<and> one_flow (flow_ram (flow_inst p))"

lemma unparsed_l4:
  assumes "no_headers p" "v_l4 p"
  shows "unparsed (m_l4 p)"
proof -
  have "pipe_valid (pipe (udp_inst p))" "pipe_valid (pipe (tcp_inst p))"
    using assms by (auto simp: no_headers_def pipe_inv_def v_l4_def)
  then show ?thesis
    using assms(1) stage_okD [of "udp_inst p"] stage_okD [of "tcp_inst p"]
    by (simp add: no_headers_def m_l4_def l4_select_def)
qed

lemma match_stays:
  assumes "stage_ok t" "unparsed (pipe_meta t)" "v \<Longrightarrow> unparsed m"
  shows "unparsed (pipe_meta (match_step True b v r m t))"
  using assms unparsed_stages(6) [of m]
  by (auto simp: match_step_def meta_stage_step_def Let_def)

lemma no_headers_step:
  assumes "no_headers p" "rst_n pn"
    "s_tvalid pn \<Longrightarrow> pipe_ready (m_tready pn) p \<Longrightarrow> first_beat (eth_inst p) \<Longrightarrow> word16_be (s_tdata pn) 12 = 0"
  shows "no_headers (pipeline_step oob pad pn p)"
proof -
  note parts = assms(1) [unfolded no_headers_def]
  let ?p = "pipeline_step oob pad pn p"
  have data: "word16_be (tdata (s_beat pn)) 12 = 0"
    if "s_tvalid pn" "reg_ready (r_eth (m_tready pn) p) (pipe (eth_inst p))" "first_beat (eth_inst p)"
    using assms(3) that by (simp add: s_beat_def pipe_ready_def)
  have eth: "pipe_valid (pipe (eth_inst p)) \<Longrightarrow> unparsed (pipe_meta (eth_inst p))"
    and vlan: "pipe_valid (pipe (vlan_inst p)) \<Longrightarrow> unparsed (pipe_meta (vlan_inst p))"
    and ip: "pipe_valid (pipe (ip_inst p)) \<Longrightarrow> unparsed (pipe_meta (ip_inst p))"
    and match: "pipe_valid (pipe (match_inst p)) \<Longrightarrow> unparsed (pipe_meta (match_inst p))"
    and modi: "pipe_valid (mod_pipe (mod_inst p)) \<Longrightarrow> unparsed (pipe_meta (match_inst p))"
    and stats: "pipe_valid (st_pipe (stats_inst p)) \<Longrightarrow> unparsed (pipe_meta (match_inst p))"
    using parts stage_okD by blast+
  have "stage_ok (eth_inst ?p)" "stage_ok (vlan_inst ?p)" "stage_ok (ip_inst ?p)" "stage_ok (udp_inst ?p)"
    "stage_ok (tcp_inst ?p)" "stage_ok (match_inst ?p)"
    using parts assms(2) eth_ok_step data parser_ok_steps(1) [OF eth] parser_ok_steps(2) [OF vlan]
      parser_ok_steps(3,4) [OF ip] match_ok_step unparsed_l4 [OF assms(1)]
    by (simp_all add: pipeline_step_def Let_def)
  moreover have "nothing_counted (stats_inst ?p)"
    using parts assms(2) nothing_counted_step [OF _ modi] by (simp add: pipeline_step_def Let_def)
  moreover have "one_flow (flow_ram (flow_inst ?p))"
    using parts assms(2) one_flow_step [OF _ stats] by (simp add: pipeline_step_def Let_def)
  moreover have "unparsed (pipe_meta (match_inst ?p))"
    if "pipe_valid (mod_pipe (mod_inst ?p)) \<or> pipe_valid (st_pipe (stats_inst ?p))"
  proof -
    have "unparsed (pipe_meta (match_inst p))"
      using that assms(2) match modi stats
      by (auto simp: pipeline_step_def modifier_step_def stage_pipes axis_register_step_def Let_def split: if_splits)
    then show ?thesis
      using parts assms(2) match_stays unparsed_l4 [OF assms(1)] by (simp add: pipeline_step_def Let_def)
  qed
  ultimately show ?thesis
    using parts pipe_inv_step [of p pn] assms(2) unfolding no_headers_def by blast
qed

lemma no_headers_reset:
  assumes "\<not> rst_n pn"
  shows "no_headers (pipeline_step oob pad pn p)"
proof -
  have ok: "stage_ok (meta_stage_step upd False b v r m s)" for upd b v r m and s :: "'x parser_regs_scheme"
    by (simp add: stage_ok_def meta_stage_step_def track_first_def axis_register_step_def Let_def)
  have eth: "stage_ok (eth_step False b v r m e)" for b v r m e
    using ok [of "\<lambda>b. eth_parse (tdata b)" b v r m e] by (simp add: stage_ok_def eth_step_def Let_def)
  have match: "stage_ok (match_step False b v r m t)" for b v r m t
    using ok [of "\<lambda>b. match_parse" b v r m t] by (simp add: stage_ok_def match_step_def Let_def)
  show ?thesis
    using assms reset_step(1) [OF assms]
    by (auto simp: no_headers_def pipeline_step_def parser_steps ok eth match modifier_step_def stage_pipes
        axis_register_step_def nothing_counted_def stats_step_def one_flow_def flow_step_def flow_entry0_def Let_def)
qed

text \<open>Input whose first beats carry no type: \<open>first\<close> says that the next beat begins a packet. The
  other beats of a packet are arbitrary, and so is what is on the lanes while no beat is accepted.\<close>

fun plain_first_beats ::
  "(u32 \<Rightarrow> nat \<Rightarrow> bool) \<Rightarrow> 6 word \<Rightarrow> bool \<Rightarrow> pipe_pins list \<Rightarrow> pipeline \<Rightarrow> bool" where
  "plain_first_beats oob pad first [] p = True"
| "plain_first_beats oob pad first (pn # pns) p =
     (let accepted = (s_tvalid pn \<and> pipe_ready (m_tready pn) p)
      in rst_n pn \<and> (accepted \<and> first \<longrightarrow> word16_be (s_tdata pn) 12 = 0) \<and>
         plain_first_beats oob pad (if accepted then s_tlast pn else first) pns (pipeline_step oob pad pn p))"

lemma eth_first_beat:
  assumes "rst_n pn"
  shows "first_beat (eth_inst (pipeline_step oob pad pn p)) =
    (if s_tvalid pn \<and> pipe_ready (m_tready pn) p then s_tlast pn else first_beat (eth_inst p))"
  using assms
  by (auto simp: pipeline_step_def eth_step_def meta_stage_step_def track_first_def pipe_ready_def s_beat_def Let_def)

lemma no_headers_run:
  "no_headers p \<Longrightarrow> plain_first_beats oob pad (first_beat (eth_inst p)) pns p \<Longrightarrow>
     no_headers (fold (pipeline_step oob pad) pns p)"
proof (induction pns arbitrary: p)
  case (Cons pn pns)
  then have "no_headers (pipeline_step oob pad pn p)"
    by (intro no_headers_step) (simp_all add: Let_def)
  moreover have "plain_first_beats oob pad (first_beat (eth_inst (pipeline_step oob pad pn p))) pns (pipeline_step oob pad pn p)"
    using Cons.prems(2) by (simp add: eth_first_beat Let_def)
  ultimately show ?case using Cons.IH by simp
qed simp

section \<open>The benches\<close>

text \<open>What holds of a simulation whose bench has only ever driven the lowest eight lanes.\<close>

definition narrow :: "psim \<Rightarrow> bool" where
  "narrow s \<longleftrightarrow> no_headers (vregs (pdut s)) \<and> rst_n (pins (pdut s)) \<and>
     (\<forall>i. 8 \<le> i \<and> i < 64 \<longrightarrow> byte_at (s_tdata (pins (pdut s))) i = 0)"

lemma narrow_word: "byte_at d 12 = 0 \<Longrightarrow> byte_at d 13 = 0 \<Longrightarrow> word16_be d 12 = 0"
  by (simp add: word16_be_def)

lemma narrow_pins:
  "narrow (psim_pre u s) = narrow s" "narrow (set_ready r s) = narrow s"
  "narrow (set_pipe (\<lambda>p. p\<lparr>s_tvalid := v\<rparr>) s) = narrow s"
  by (simp_all add: narrow_def set_ready_def)

lemma narrow_post:
  assumes "narrow s"
  shows "narrow (psim_post u s)"
proof -
  have "vregs (pdut (psim_post u s)) =
      (if clk_prev (pdut s) then vregs (pdut s) else vstep u (pins (pdut s)) (vregs (pdut s)))"
    by (simp add: psim_post_def post_def set_clk_def eval_def)
  moreover have "no_headers (vstep u (pins (pdut s)) (vregs (pdut s)))"
    unfolding vstep_def
    by (rule no_headers_step) (use assms narrow_word [of "s_tdata (pins (pdut s))"] in \<open>simp_all add: narrow_def\<close>)
  ultimately show ?thesis using assms by (simp add: narrow_def)
qed

lemma narrow_cycle: "narrow s \<Longrightarrow> narrow (psim_cycle u s)"
  by (simp add: psim_cycle_def narrow_post narrow_pins)

lemma narrow_drive:
  assumes "narrow s" "dw \<le> 8"
  shows "narrow (drive dw pkt pos s)"
proof -
  define nb where "nb = beat_size dw pkt pos"
  have "nb \<le> 8" using assms(2) by (auto simp: nb_def beat_size_def)
  then have "(nb + 3) div 4 \<le> 2" by linarith
  then have "byte_at (set32 d (drop pos pkt) nb) i = byte_at d i" if "8 \<le> i" "i < 64" for d i
    using that \<open>nb \<le> 8\<close> by (simp add: lane)
  then show ?thesis using assms(1) by (simp add: narrow_def drive_def Let_def nb_def [symmetric])
qed

lemma narrow_wait:
  assumes "wait_ready u s = Some s'" "narrow s"
  shows "narrow s'"
  using assms(2)
proof (induction rule: wait_ready.raw_induct [OF _ assms(1)])
  case (1 wait u s s')
  then show ?case by (auto simp: narrow_cycle split: if_splits)
qed

lemma narrow_push:
  assumes "push_cd u f dw pkt pos s a = Some (s', a')" "narrow s" "dw \<le> 8"
  shows "narrow s'"
proof -
  have "narrow (fst (s', a'))"
    using assms(2,3)
  proof (induction rule: push_cd.raw_induct [OF _ assms(1)])
    case (1 push u f dw pkt pos s a res)
    show ?case
    proof (cases "pos < length pkt")
      case False
      then show ?thesis using 1 by auto
    next
      case True
      define s1 where "s1 = psim_post u (drive dw pkt pos (psim_pre u s))"
      have "narrow s1" using 1(3,4) by (simp add: s1_def narrow_post narrow_drive narrow_pins)
      moreover obtain s2 where "wait_ready u s1 = Some s2"
        "push u f dw pkt (pos + beat_size dw pkt pos) s2 (capture f dw (psim_pre u s) a) = Some res"
        using 1(2) True by (auto simp: s1_def Let_def bind_eq_Some_conv)
      ultimately show ?thesis using 1(1,4) narrow_wait by blast
    qed
  qed
  then show ?thesis by simp
qed

lemma narrow_drain: "narrow s \<Longrightarrow> narrow (fst (drain_until_empty u f dw n s a))"
  by (induction n arbitrary: s a) (auto simp: Let_def narrow_pins narrow_post)

lemma narrow_send:
  assumes "send_cd u f dw timeout pkt s a = Some (s', a')" "narrow s" "dw \<le> 8"
  shows "narrow s'"
proof -
  obtain s1 a1 where push: "push_cd u f dw pkt 0 (set_ready True s) a = Some (s1, a1)"
    and rest: "(let (s, a) = idle_capture u f dw s1 a1 in Some (drain_until_empty u f dw timeout s a)) = Some (s', a')"
    using assms(1) by (auto simp: send_cd_def bind_eq_Some_conv)
  have "narrow s1" by (rule narrow_push [OF push]) (use assms(2,3) in \<open>simp_all add: narrow_pins\<close>)
  then have "narrow (fst (idle_capture u f dw s1 a1))"
    by (simp add: idle_capture_def Let_def narrow_post narrow_pins)
  then show ?thesis
    using rest narrow_drain [of "fst (idle_capture u f dw s1 a1)" u f dw timeout "snd (idle_capture u f dw s1 a1)"]
    by (simp add: split_def Let_def)
qed

lemma narrow_reset:
  assumes "0 < n"
  shows "narrow (psim_reset u n (psim_new p))"
proof -
  let ?s = "set_pipe (\<lambda>p. p\<lparr>rst_n := False\<rparr>) (psim_new p)"
  obtain k where n: "n = Suc k" using assms by (cases n) auto
  have pins: "pins (pdut ((psim_cycle u ^^ j) ?s)) = pipe_pins0" for j
    by (induction j) (simp_all add: psim_cycle_def psim_new_def edge pipe_pins0_def)
  have "vregs (pdut ((psim_cycle u ^^ n) ?s)) = vstep u pipe_pins0 (vregs (pdut ((psim_cycle u ^^ k) ?s)))"
    using pins [of k] by (simp add: n psim_cycle_def psim_post_def psim_pre_def edge)
  then have "no_headers (vregs (pdut ((psim_cycle u ^^ n) ?s)))"
    by (simp add: vstep_def no_headers_reset pipe_pins0_def)
  then have "narrow (set_pipe (\<lambda>p. p\<lparr>rst_n := True\<rparr>) ((psim_cycle u ^^ n) ?s))"
    using pins [of n] by (simp add: narrow_def pipe_pins0_def byte_at_zero)
  then show ?thesis by (simp add: psim_reset_def Let_def narrow_cycle)
qed

lemma narrow_flow_send:
  assumes "flow_send u mk i st = Some st'" "narrow (fst st)"
  shows "narrow (fst st')"
proof -
  obtain s g where st: "st = (s, g)" by (cases st)
  obtain s' where s': "send_cd u (\<lambda>_ _ a. a) 8 100000 (fst (mk i g)) s () = Some (s', ())" "fst st' = s'"
    using assms(1) by (auto simp: st flow_send_def flow_push_and_drain_def split_def Let_def)
  have "narrow s'" by (rule narrow_send [OF s'(1)]) (use assms(2) in \<open>simp_all add: st\<close>)
  then show ?thesis by (simp add: s'(2))
qed

lemma flow_loop_narrow:
  assumes "\<And>i g. 40 < length (fst (mk i g))"
  shows "\<exists>st. for_loop (flow_send u mk) 0 n (psim_reset u 4 (psim_new p), g) = Some st \<and> narrow (fst st)"
proof -
  obtain st where st: "for_loop (flow_send u mk) 0 n (psim_reset u 4 (psim_new p), g) = Some st"
    using flow_loop_returns [where mk = mk, OF assms] by blast
  have "for_loop (flow_send u mk) i n st1 = Some st2 \<Longrightarrow> narrow (fst st1) \<Longrightarrow> narrow (fst st2)" for i st1 st2
    by (induction n arbitrary: i st1) (auto simp: bind_eq_Some_conv dest: narrow_flow_send)
  then show ?thesis using st narrow_reset [of 4 u p] by auto
qed

section \<open>Properties\<close>

lemma one_flow_find: "one_flow ram \<Longrightarrow> {k. flow_find pad ram k \<noteq> None} \<subseteq> {flow_key_of meta0}"
  by (auto simp: flow_find_def one_flow_def way_hit_def Let_def split: if_splits)

text \<open>C20: Headers are found only in the first beat of a packet: after reset, under any back-pressure,
  if lanes 12 and 13 are zero in every beat that begins a packet, and whatever the further beats of the
  packets carry, the pipeline counts no IPv4, TCP, UDP or ARP packet, no drop and no error, the match
  table gives class 0, and the flow table knows at most the flow whose addresses, ports and protocol
  are all zero. Packets in beats of eight bytes are such input.\<close>

theorem headers_only_in_first_beat:
  fixes p p' :: pipeline and p0 :: pipe_pins and oob :: "u32 \<Rightarrow> nat \<Rightarrow> bool" and pad :: "6 word" and pns :: "pipe_pins list"
  defines "p' \<equiv> fold (pipeline_step oob pad) pns (pipeline_step oob pad p0 p)"
  assumes "\<not> rst_n p0" "plain_first_beats oob pad True pns (pipeline_step oob pad p0 p)"
  shows "cnt_ipv4 (stats_inst p') = 0 \<and> cnt_tcp (stats_inst p') = 0 \<and> cnt_udp (stats_inst p') = 0
    \<and> cnt_arp (stats_inst p') = 0 \<and> cnt_drops (stats_inst p') = 0 \<and> cnt_errors (stats_inst p') = 0
    \<and> (pipe_valid (pipe (match_inst p')) \<longrightarrow> class_id (pipe_meta (match_inst p')) = 0)
    \<and> {k. flow_find pad (flow_ram (flow_inst p')) k \<noteq> None} \<subseteq> {flow_key_of meta0}"
proof -
  have "first_beat (eth_inst (pipeline_step oob pad p0 p))"
    using assms(2) by (simp add: pipeline_step_def eth_step_def meta_stage_step_def track_first_def Let_def)
  then have p': "no_headers p'"
    unfolding p'_def using no_headers_run [OF no_headers_reset [OF assms(2)]] assms(3) by simp
  then have "pipe_valid (pipe (match_inst p')) \<Longrightarrow> class_id (pipe_meta (match_inst p')) = 0"
    using stage_okD [of "match_inst p'"] unparsedD(7) by (simp add: no_headers_def)
  then show ?thesis using p' one_flow_find by (simp add: no_headers_def nothing_counted_def)
qed

text \<open>A packet of two beats, of which the second has the type of IPv4 on lanes 12 and 13.\<close>

theorem headers_only_in_first_beat_witness:
  fixes pns :: "pipe_pins list" and d :: bus
  defines "d \<equiv> push_bit 96 8"
  defines "pns \<equiv> [pipe_pins0\<lparr>rst_n := True, s_tvalid := True, s_tkeep := 255, s_tdata := 7, m_tready := True\<rparr>,
      pipe_pins0\<lparr>rst_n := True, s_tvalid := True, s_tlast := True, s_tkeep := 255, s_tdata := d, m_tready := True\<rparr>]"
  shows "word16_be d 12 = ETYPE_IPV4 \<and>
    (\<forall>p. cnt_ipv4 (stats_inst (fold (pipeline_step (\<lambda>_ _. False) 0) (pns @ replicate 9 (pipe_pins0\<lparr>rst_n := True, m_tready := True\<rparr>))
      (pipeline_step (\<lambda>_ _. False) 0 pipe_pins0 p))) = 0)"
proof
  show "word16_be d 12 = ETYPE_IPV4" unfolding d_def by code_simp
  show "\<forall>p. cnt_ipv4 (stats_inst (fold (pipeline_step (\<lambda>_ _. False) 0) (pns @ replicate 9 (pipe_pins0\<lparr>rst_n := True, m_tready := True\<rparr>))
      (pipeline_step (\<lambda>_ _. False) 0 pipe_pins0 p))) = 0"
  proof
    fix p
    have "byte_at (7 :: bus) 12 = 0" "byte_at (7 :: bus) 13 = 0" by (simp_all add: byte_at_def)
    then have "word16_be (7 :: bus) 12 = 0" by (rule narrow_word)
    moreover have "pipe_ready r (pipeline_step (\<lambda>_ _. False) 0 pipe_pins0 p)" for r
      by (simp add: pipe_ready_def pipeline_step_def pipe_pins0_def eth_step_def meta_stage_step_def
          axis_register_step_def reg_ready_def Let_def)
    ultimately have "plain_first_beats (\<lambda>_ _. False) 0 True (pns @ replicate 9 (pipe_pins0\<lparr>rst_n := True, m_tready := True\<rparr>))
        (pipeline_step (\<lambda>_ _. False) 0 pipe_pins0 p)"
      by (simp add: pns_def pipe_pins0_def numeral_eq_Suc Let_def)
    then show "cnt_ipv4 (stats_inst (fold (pipeline_step (\<lambda>_ _. False) 0) (pns @ replicate 9 (pipe_pins0\<lparr>rst_n := True, m_tready := True\<rparr>))
      (pipeline_step (\<lambda>_ _. False) 0 pipe_pins0 p))) = 0"
      using headers_only_in_first_beat [where ?p0.0 = pipe_pins0 and p = p and oob = "\<lambda>_ _. False" and pad = 0
        and pns = "pns @ replicate 9 (pipe_pins0\<lparr>rst_n := True, m_tready := True\<rparr>)"]
      by (simp add: pipe_pins0_def)
  qed
qed

text \<open>The twenty flows of the flow bench are one: for every power-on state and whatever the
  undetermined reads yield, the loop of \<open>test_multi_flow\<close>, which sends UDP packets with twenty
  different pairs of ports, returns, and then the flow table has no other flow than that of all
  zeros and the statistics have counted no UDP packet, because the bench sends eight bytes per beat.\<close>

theorem multi_flow_is_one_flow:
  "\<exists>s g. for_loop (flow_send u (\<lambda>i. bench_udp h0 (of_nat (100 + i)) (of_nat (200 + i)) (replicate 10 0x78))) 0 20
      (psim_reset u 4 (psim_new p), new_gen) = Some (s, g)
    \<and> {k. flow_find (snd u) (flow_ram (flow_inst (vregs (pdut s)))) k \<noteq> None} \<subseteq> {flow_key_of meta0}
    \<and> cnt_udp (stats_inst (vregs (pdut s))) = 0"
proof -
  let ?mk = "\<lambda>i. bench_udp h0 (of_nat (100 + i)) (of_nat (200 + i)) (replicate 10 0x78)"
  obtain st where "for_loop (flow_send u ?mk) 0 20 (psim_reset u 4 (psim_new p), new_gen) = Some st" "narrow (fst st)"
    using flow_loop_narrow [of ?mk u 20 p new_gen] by auto
  then show ?thesis
    using one_flow_find by (cases st) (auto simp: narrow_def no_headers_def nothing_counted_def)
qed

end
