(* ===== verification/Back_To_Back.thy ===== *)
theory Back_To_Back
  imports Narrow_Beats
begin

text \<open>
  What the statistics engine of \<open>rtl/top/parser_pipeline.sv\<close> counts when packets follow each other
  closely. It looks at the last beat of a packet at the output of the modifier, but takes the
  metadata at the output of the match table, one stage earlier, where the next packet may already be.
  The runs here are of packets of one beat each with a ready receiver: the pipeline is a shift
  register, and its state is given by the history of its inputs.
\<close>

section \<open>Metadata up to the length\<close>

text \<open>The length in the metadata depends on the packets before; everything else does not.\<close>

definition nolen :: "packet_metadata \<Rightarrow> packet_metadata" where
  "nolen m = m\<lparr>pkt_length := 0\<rparr>"

lemma nolen_fields [simp]:
  "nolen (m\<lparr>pkt_length := n\<rparr>) = nolen m" "nolen (nolen m) = nolen m" "vlan_valid (nolen m) = vlan_valid m"
  "ethertype (nolen m) = ethertype m" "ipv4_valid (nolen m) = ipv4_valid m" "tcp_valid (nolen m) = tcp_valid m"
  "udp_valid (nolen m) = udp_valid m" "protocol (nolen m) = protocol m" "meta_drop (nolen m) = meta_drop m"
  by (simp_all add: nolen_def)

lemma nolen_parse:
  "nolen (eth_parse d meta0) = eth_parse d meta0"
  "nolen (vlan_parse d m) = vlan_parse d (nolen m)"
  "nolen (ipv4_parse d m) = ipv4_parse d (nolen m)"
  "nolen (udp_parse d m) = udp_parse d (nolen m)"
  "nolen (tcp_parse d m) = tcp_parse d (nolen m)"
  "nolen (l4_select mt mu) = l4_select (nolen mt) (nolen mu)"
  "nolen (match_parse m) = match_parse (nolen m)"
proof -
  show "nolen (eth_parse d meta0) = eth_parse d meta0" by (simp add: nolen_def eth_parse_def meta0_def)
  show "nolen (vlan_parse d m) = vlan_parse d (nolen m)" by (simp add: nolen_def vlan_parse_def Let_def)
  have off: "ip_off (nolen m) = ip_off m" "l4_off (nolen m) = l4_off m"
    by (simp_all add: nolen_def ip_off_def l4_off_def)
  show "nolen (ipv4_parse d m) = ipv4_parse d (nolen m)"
    using off(1) by (simp add: ipv4_parse_def Let_def) (simp add: nolen_def)
  show "nolen (udp_parse d m) = udp_parse d (nolen m)"
    using off(2) by (simp add: udp_parse_def Let_def) (simp add: nolen_def)
  show "nolen (tcp_parse d m) = tcp_parse d (nolen m)"
    using off(2) by (simp add: tcp_parse_def Let_def) (simp add: nolen_def)
  show "nolen (l4_select mt mu) = l4_select (nolen mt) (nolen mu)" by (simp add: l4_select_def)
  have "service (nolen m) = service m" by (simp add: nolen_def service_def port_is_def)
  then show "nolen (match_parse m) = match_parse (nolen m)"
    by (simp add: match_parse_def match_lookup_eq) (simp add: nolen_def)
qed

text \<open>The metadata of a packet whose first beat carries \<open>d\<close>, stage by stage.\<close>

definition meta_eth :: "bus \<Rightarrow> packet_metadata" where "meta_eth d = eth_parse d meta0"
definition meta_vlan :: "bus \<Rightarrow> packet_metadata" where "meta_vlan d = vlan_parse d (meta_eth d)"
definition meta_ip :: "bus \<Rightarrow> packet_metadata" where "meta_ip d = ipv4_parse d (meta_vlan d)"
definition meta_match :: "bus \<Rightarrow> packet_metadata" where "meta_match d = match_parse (parse_headers d)"

lemma meta_match_eq: "meta_match d = match_parse (l4_select (tcp_parse d (meta_ip d)) (udp_parse d (meta_ip d)))"
  by (simp add: meta_match_def parse_headers_def meta_ip_def meta_vlan_def meta_eth_def Let_def)

section \<open>The pipeline as a shift register\<close>

text \<open>A stage that holds \<open>o'\<close>, a single-beat packet or nothing, with the metadata \<open>F\<close> of the packet.\<close>

definition stage_has :: "(bus \<Rightarrow> packet_metadata) \<Rightarrow> axis_beat option \<Rightarrow> 'x parser_regs_scheme \<Rightarrow> bool" where
  "stage_has F i s \<longleftrightarrow> first_beat s \<and> pipe_valid (pipe s) = (i \<noteq> None) \<and>
     (\<forall>b. i = Some b \<longrightarrow> pipe_beat (pipe s) = b \<and> tlast b \<and> nolen (pipe_meta s) = F (tdata b))"

lemma stage_hasD:
  assumes "stage_has F i s"
  shows "first_beat s" "pipe_valid (pipe s) \<longleftrightarrow> i \<noteq> None"
    "i = Some b \<Longrightarrow> pipe_beat (pipe s) = b" "i = Some b \<Longrightarrow> tlast b" "i = Some b \<Longrightarrow> nolen (pipe_meta s) = F (tdata b)"
  using assms by (simp_all add: stage_has_def)

lemma stage_has_step:
  assumes "first_beat s" "v \<longleftrightarrow> i \<noteq> None"
    "\<And>b'. i = Some b' \<Longrightarrow> b = b' \<and> tlast b' \<and> nolen (upd b m) = F (tdata b')"
  shows "stage_has F i (meta_stage_step upd True b v True m s)"
  using assms
  by (auto simp: stage_has_def meta_stage_step_def axis_register_step_def track_first_def reg_ready_def Let_def)

lemma all_ready:
  "r_flow True p" "r_stats True p" "r_mod True p" "r_match True p" "r_ip True p" "r_vlan True p" "r_eth True p"
  by (simp_all add: r_eth_def r_vlan_def r_ip_def r_match_def r_mod_def r_stats_def r_flow_def reg_ready_def)

text \<open>The state after the inputs \<open>h\<close>, the last one first.\<close>

definition flowing :: "axis_beat option list \<Rightarrow> pipeline \<Rightarrow> bool" where
  "flowing h p \<longleftrightarrow> 6 \<le> length h \<and>
     stage_has meta_eth (h ! 0) (eth_inst p) \<and> stage_has meta_vlan (h ! 1) (vlan_inst p) \<and>
     stage_has meta_ip (h ! 2) (ip_inst p) \<and>
     stage_has (\<lambda>d. udp_parse d (meta_ip d)) (h ! 3) (udp_inst p) \<and>
     stage_has (\<lambda>d. tcp_parse d (meta_ip d)) (h ! 3) (tcp_inst p) \<and>
     stage_has meta_match (h ! 4) (match_inst p) \<and>
     (h ! 4 = None \<longrightarrow> (\<forall>b. h ! 5 = Some b \<longrightarrow> nolen (pipe_meta (match_inst p)) = meta_match (tdata b))) \<and>
     pipe_valid (mod_pipe (mod_inst p)) = (h ! 5 \<noteq> None) \<and>
     (h ! 5 \<noteq> None \<longrightarrow> tlast (pipe_beat (mod_pipe (mod_inst p))))"

text \<open>The input of a cycle: a packet of one beat, or none.\<close>

definition single_pins :: "axis_beat \<Rightarrow> axis_beat option \<Rightarrow> pipe_pins" where
  "single_pins x i = (case i of Some b \<Rightarrow> beat_pins b True True | None \<Rightarrow> beat_pins x False True)"

lemma single_pins_simps [simp]:
  "rst_n (single_pins x i)" "m_tready (single_pins x i)" "s_tvalid (single_pins x i) \<longleftrightarrow> i \<noteq> None"
  "i = Some b \<Longrightarrow> s_beat (single_pins x i) = b"
  by (cases i; simp add: single_pins_def)+

lemma tlast_modify [simp]: "tlast (modify act md m b) = tlast b"
  by (simp add: modify_def split: modifier_action.split)

text \<open>The Ethernet parser and the match table have the frame of the other parsers, and only the
  length and the order besides.\<close>

lemma stage_frames:
  "first_beat (eth_step rst b v r m e) = first_beat (meta_stage_step (\<lambda>b. eth_parse (tdata b)) rst b v r m e)"
  "nolen (pipe_meta (eth_step rst b v r m e)) = nolen (pipe_meta (meta_stage_step (\<lambda>b. eth_parse (tdata b)) rst b v r m e))"
  "first_beat (match_step rst b v r m t) = first_beat (meta_stage_step (\<lambda>b. match_parse) rst b v r m t)"
  "pipe_meta (match_step rst b v r m t) = pipe_meta (meta_stage_step (\<lambda>b. match_parse) rst b v r m t)"
  by (simp_all add: eth_step_def match_step_def Let_def)

lemma stage_has_frames:
  "stage_has F i (eth_step rst b v r m e) = stage_has F i (meta_stage_step (\<lambda>b. eth_parse (tdata b)) rst b v r m e)"
  "stage_has F i (match_step rst b v r m t) = stage_has F i (meta_stage_step (\<lambda>b. match_parse) rst b v r m t)"
  by (simp_all only: stage_has_def stage_frames stage_pipes)

lemma eth_has_step:
  assumes "first_beat e" "v \<longleftrightarrow> i \<noteq> None" "\<And>b'. i = Some b' \<Longrightarrow> b = b' \<and> tlast b'"
  shows "stage_has meta_eth i (eth_step True b v True meta0 e)"
  unfolding stage_has_frames
  by (rule stage_has_step [OF assms(1,2)]) (use assms(3) in \<open>simp add: nolen_parse meta_eth_def\<close>)

lemma match_has_step:
  assumes "first_beat t" "v \<longleftrightarrow> i \<noteq> None"
    "\<And>b'. i = Some b' \<Longrightarrow> b = b' \<and> tlast b' \<and> nolen (match_parse m) = meta_match (tdata b')"
  shows "stage_has meta_match i (match_step True b v True m t)"
  unfolding stage_has_frames by (rule stage_has_step [OF assms(1,2)]) (use assms(3) in simp)

lemma parser_has_step:
  assumes "first_beat s" "stage_has G i t" "\<And>d. nolen (upd d (pipe_meta t)) = upd d (nolen (pipe_meta t))"
    "\<And>d. F d = upd d (G d)"
  shows "stage_has F i (meta_stage_step (\<lambda>b. upd (tdata b)) True (pipe_beat (pipe t)) (pipe_valid (pipe t)) True (pipe_meta t) s)"
  by (rule stage_has_step [OF assms(1)]) (use stage_hasD [OF assms(2)] assms(3,4) in simp_all)

lemma match_meta_stays:
  assumes "flowing h p" "h ! 3 = None"
  shows "pipe_meta (match_inst (pipeline_step oob pad (single_pins x i) p)) = pipe_meta (match_inst p)"
proof -
  have "stage_has (\<lambda>d. udp_parse d (meta_ip d)) (h ! 3) (udp_inst p)" "stage_has (\<lambda>d. tcp_parse d (meta_ip d)) (h ! 3) (tcp_inst p)"
    using assms(1) by (simp_all add: flowing_def)
  then have "\<not> v_l4 p" using assms(2) stage_hasD(2) by (auto simp: v_l4_def)
  then show ?thesis by (simp add: pipeline_step_def Let_def stage_frames meta_stage_step_def)
qed

lemma flowing_step:
  assumes "flowing h p" "\<And>b. i = Some b \<Longrightarrow> tlast b"
  shows "flowing (i # h) (pipeline_step oob pad (single_pins x i) p)"
proof -
  note parts = assms(1) [unfolded flowing_def]
  let ?p = "pipeline_step oob pad (single_pins x i) p"
  have fb: "first_beat (eth_inst p)" "first_beat (vlan_inst p)" "first_beat (ip_inst p)" "first_beat (udp_inst p)"
    "first_beat (tcp_inst p)" using parts stage_hasD(1) by blast+
  have eth: "stage_has meta_eth i (eth_inst ?p)"
    using eth_has_step [OF fb(1), of "i \<noteq> None" i "s_beat (single_pins x i)"] assms(2)
    by (simp add: pipeline_step_def Let_def all_ready)
  have vlan: "stage_has meta_vlan (h ! 0) (vlan_inst ?p)"
    using parser_has_step [OF fb(2), of meta_eth "h ! 0" "eth_inst p" vlan_parse meta_vlan] parts
    by (simp add: pipeline_step_def Let_def all_ready vlan_step_def nolen_parse meta_vlan_def)
  have ip: "stage_has meta_ip (h ! 1) (ip_inst ?p)"
    using parser_has_step [OF fb(3), of meta_vlan "h ! 1" "vlan_inst p" ipv4_parse meta_ip] parts
    by (simp add: pipeline_step_def Let_def all_ready ipv4_step_def nolen_parse meta_ip_def)
  have udp: "stage_has (\<lambda>d. udp_parse d (meta_ip d)) (h ! 2) (udp_inst ?p)"
    using parser_has_step [OF fb(4), of meta_ip "h ! 2" "ip_inst p" udp_parse "\<lambda>d. udp_parse d (meta_ip d)"] parts
    by (simp add: pipeline_step_def Let_def all_ready udp_step_def nolen_parse)
  have tcp: "stage_has (\<lambda>d. tcp_parse d (meta_ip d)) (h ! 2) (tcp_inst ?p)"
    using parser_has_step [OF fb(5), of meta_ip "h ! 2" "ip_inst p" tcp_parse "\<lambda>d. tcp_parse d (meta_ip d)"] parts
    by (simp add: pipeline_step_def Let_def all_ready tcp_step_def nolen_parse)
  have u: "stage_has (\<lambda>d. udp_parse d (meta_ip d)) (h ! 3) (udp_inst p)"
    and t: "stage_has (\<lambda>d. tcp_parse d (meta_ip d)) (h ! 3) (tcp_inst p)"
    and m: "stage_has meta_match (h ! 4) (match_inst p)" using parts by blast+
  have v: "v_l4 p \<longleftrightarrow> h ! 3 \<noteq> None" using stage_hasD(2) [OF u] stage_hasD(2) [OF t] by (auto simp: v_l4_def)
  have match: "stage_has meta_match (h ! 3) (match_inst ?p)"
    using match_has_step [of "match_inst p" "v_l4 p" "h ! 3" "b_l4 p" "m_l4 p"] v
      stage_hasD [OF u] stage_hasD [OF t] stage_hasD(1) [OF m]
    by (simp add: pipeline_step_def Let_def all_ready b_l4_def m_l4_def nolen_parse meta_match_eq)
  note stays = match_meta_stays [OF assms(1), of oob pad x i]
  have modi: "pipe_valid (mod_pipe (mod_inst ?p)) \<longleftrightarrow> h ! 4 \<noteq> None"
    "h ! 4 \<noteq> None \<longrightarrow> tlast (pipe_beat (mod_pipe (mod_inst ?p)))"
    using stage_hasD [OF m]
    by (auto simp: pipeline_step_def Let_def all_ready modifier_step_def axis_register_step_def)
  show ?thesis
    using parts eth vlan ip udp tcp match stays modi stage_hasD(5) [OF m]
    unfolding flowing_def by (simp add: nth_Cons')
qed

lemma reset_has: "stage_has F None (meta_stage_step upd False b v r m s)"
  by (simp add: stage_has_def meta_stage_step_def track_first_def axis_register_step_def Let_def)

lemma flowing_reset:
  assumes "\<not> rst_n pn"
  shows "flowing (replicate 6 None) (pipeline_step oob pad pn p)"
  using assms
  by (simp add: flowing_def pipeline_step_def parser_steps reset_has stage_has_frames modifier_step_def
      axis_register_step_def Let_def)

section \<open>Which metadata is counted\<close>

text \<open>A packet is charged with the metadata of the next one if that follows in the next cycle, and with
  its own otherwise.\<close>

definition charge :: "axis_beat \<Rightarrow> axis_beat option \<Rightarrow> packet_metadata" where
  "charge b following = meta_match (tdata (case following of Some b' \<Rightarrow> b' | None \<Rightarrow> b))"

fun charged :: "axis_beat option list \<Rightarrow> packet_metadata list" where
  "charged [] = []"
| "charged (None # is) = charged is"
| "charged (Some b # is) = charge b (case is of [] \<Rightarrow> None | i # _ \<Rightarrow> i) # charged is"

text \<open>The same on a history, of which the last input is not charged yet.\<close>

fun charged_before :: "axis_beat option list \<Rightarrow> packet_metadata list" where
  "charged_before (j # i # h) = charged_before (i # h) @ (case i of None \<Rightarrow> [] | Some b \<Rightarrow> [charge b j])"
| "charged_before h = []"

lemma charged_before_append: "charged_before (xs @ y # h) = charged_before (y # h) @ charged_before (xs @ [y])"
proof (induction xs)
  case (Cons a xs)
  then show ?case by (cases xs) simp_all
qed simp

lemma charged_before_none: "charged_before (replicate n None) = []"
proof (induction n)
  case (Suc n)
  then show ?case by (cases n) simp_all
qed simp

lemma charged_before_rev: "charged_before (None # rev is @ [i]) = charged (i # is)"
proof (induction "is" arbitrary: i)
  case Nil
  show ?case by (cases i) simp_all
next
  case (Cons j "is")
  have "charged_before (None # rev (j # is) @ [i]) = charged_before [j, i] @ charged_before (None # rev is @ [j])"
    using charged_before_append [of "None # rev is" j "[i]"] by simp
  then show ?case using Cons.IH [of j] by (cases i) simp_all
qed

lemma charged_history: "charged_before (None # rev is @ replicate (Suc n) None) = charged is"
proof -
  have "charged_before (None # rev is @ None # replicate n None) =
      charged_before (replicate (Suc n) None) @ charged_before (None # rev is @ [None])"
    using charged_before_append [of "None # rev is" None "replicate n None"] by simp
  then show ?thesis by (simp only: charged_before_none charged_before_rev) simp
qed

text \<open>The counters agree with packets that have the given metadata, up to the length.\<close>

definition stats_like :: "packet_metadata list \<Rightarrow> stats_regs \<Rightarrow> bool" where
  "stats_like cs s \<longleftrightarrow> (\<exists>ms. map nolen ms = cs \<and> stats_agree ms s)"

lemma stats_like_step:
  assumes "flowing h p" "stats_like (charged_before (drop 5 h)) (stats_inst p)"
  shows "stats_like (charged_before (drop 5 (i # h))) (stats_inst (pipeline_step oob pad (single_pins x i) p))"
proof -
  let ?s = "stats_inst p" and ?m = "pipe_meta (match_inst p)"
  have len: "6 \<le> length h" using assms(1) by (simp add: flowing_def)
  have drops: "drop 5 (i # h) = h ! 4 # h ! 5 # drop 6 h" "drop 5 h = h ! 5 # drop 6 h"
    "drop 4 h = h ! 4 # h ! 5 # drop 6 h"
    using len Cons_nth_drop_Suc [of 4 h] Cons_nth_drop_Suc [of 5 h] by simp_all
  have "pipe_valid (mod_pipe (mod_inst p)) \<longleftrightarrow> h ! 5 \<noteq> None"
    and last_beat: "h ! 5 \<noteq> None \<longrightarrow> tlast (pipe_beat (mod_pipe (mod_inst p)))"
    using assms(1) by (simp_all add: flowing_def)
  then have step: "\<exists>r. stats_inst (pipeline_step oob pad (single_pins x i) p) =
      (if h ! 5 \<noteq> None then count_packet ?m ?s else ?s)\<lparr>st_pipe := r\<rparr>"
    by (auto simp: pipeline_step_def Let_def all_ready stats_step_def reg_ready_def)
  obtain ms where ms: "map nolen ms = charged_before (drop 5 h)" "stats_agree ms ?s"
    using assms(2) by (auto simp: stats_like_def)
  show ?thesis
  proof (cases "h ! 5")
    case None
    then show ?thesis using step ms by (auto simp: stats_like_def drops)
  next
    case (Some b)
    have "nolen ?m = charge b (h ! 4)"
      using assms(1) Some stage_hasD(5) [of meta_match "h ! 4" "match_inst p"]
      by (cases "h ! 4") (simp_all add: flowing_def charge_def)
    then have "map nolen (ms @ [?m]) = charged_before (drop 5 (i # h))" using ms(1) Some by (simp add: drops)
    moreover have "stats_agree (ms @ [?m]) (stats_inst (pipeline_step oob pad (single_pins x i) p))"
      using step stats_agree_snoc [OF ms(2), of ?m] Some by auto
    ultimately show ?thesis unfolding stats_like_def by blast
  qed
qed

lemma stats_like_run:
  assumes "flowing h p" "stats_like (charged_before (drop 5 h)) (stats_inst p)" "list_all (pred_option tlast) is"
  shows "stats_like (charged_before (drop 5 (rev is @ h)))
    (stats_inst (fold (\<lambda>i. pipeline_step oob pad (single_pins x i)) is p))"
  using assms
proof (induction "is" arbitrary: h p)
  case (Cons i "is")
  have "flowing (i # h) (pipeline_step oob pad (single_pins x i) p)"
    by (rule flowing_step [OF Cons.prems(1)]) (use Cons.prems(3) in auto)
  from Cons.IH [OF this stats_like_step [OF Cons.prems(1,2)]] Cons.prems(3) show ?case by simp
qed simp

lemma number_nolen: "(\<And>m. P (nolen m) = P m) \<Longrightarrow> number P (map nolen ms) = number P ms"
  by (simp add: number_def filter_map comp_def)

lemma stats_like_counts:
  assumes "stats_like cs s"
  shows "counted (length cs) (cnt_packets s)" "counted (number ipv4_valid cs) (cnt_ipv4 s)"
    "counted (number tcp_valid cs) (cnt_tcp s)" "counted (number udp_valid cs) (cnt_udp s)"
    "counted (number (\<lambda>m. ethertype m = ETYPE_ARP) cs) (cnt_arp s)"
  using assms by (auto simp: stats_like_def stats_agree_def number_nolen)

text \<open>The counters after a run.\<close>

lemma stats_charged:
  assumes "\<not> rst_n p0" "list_all (pred_option tlast) is"
  shows "stats_like (charged is) (stats_inst (fold (\<lambda>i. pipeline_step oob pad (single_pins x i)) (is @ replicate 6 None)
      (pipeline_step oob pad p0 p)))" (is "stats_like _ ?s")
proof -
  have "stats_agree [] (stats_inst (pipeline_step oob pad p0 p))"
    using assms(1) by (simp add: pipeline_step_def stats_step_def stats_agree_def counted_0 number_def Let_def)
  then have "stats_like (charged_before (drop 5 (replicate 6 None))) (stats_inst (pipeline_step oob pad p0 p))"
    by (simp add: stats_like_def)
  moreover have "list_all (pred_option tlast) (is @ replicate 6 None)" using assms(2) by (simp add: list_all_iff)
  ultimately have "stats_like (charged_before (drop 5 (rev (is @ replicate 6 None) @ replicate 6 None))) ?s"
    by (rule stats_like_run [OF flowing_reset [OF assms(1)]])
  then have "stats_like (charged_before (drop 5 (replicate 6 None @ rev is @ replicate 6 None))) ?s"
    by (simp only: rev_append rev_replicate append_assoc)
  moreover have "drop 5 (replicate 6 None @ rev is @ replicate 6 None) = None # rev is @ replicate (Suc 5) None"
    by (simp add: numeral_eq_Suc)
  ultimately show ?thesis by (simp only: charged_history)
qed

lemma length_charged: "length (charged is) = length (filter (\<lambda>i. i \<noteq> None) is)"
  by (induction "is" rule: charged.induct) simp_all

text \<open>The chain reads an ARP packet as one.\<close>

lemma meta_match_arp:
  assumes "word16_be d 12 = ETYPE_ARP"
  shows "ethertype (meta_match d) = ETYPE_ARP"
  using assms unfolding meta_match_eq
  by (simp add: match_parse_def l4_select_def tcp_parse_def udp_parse_def meta_ip_def ipv4_parse_def
      meta_vlan_def vlan_parse_def meta_eth_def eth_parse_def meta0_def npe_consts Let_def)

section \<open>Properties\<close>

text \<open>C21: The statistics charge a packet to its successor: after reset, when packets of one beat
  each arrive in any pattern of cycles and the receiver is ready, every packet is counted once, but
  the IPv4, TCP, UDP and ARP counters take the headers of the packet in the next cycle instead, if
  there is one; only a packet followed by an idle cycle is counted by its own headers, as the
  chain of parsers reads them.\<close>

theorem statistics_charge_next_packet:
  fixes p :: pipeline and p0 :: pipe_pins and x :: axis_beat and "is" :: "axis_beat option list"
    and oob :: "u32 \<Rightarrow> nat \<Rightarrow> bool" and pad :: "6 word"
  defines "s \<equiv> stats_inst (fold (\<lambda>i. pipeline_step oob pad (single_pins x i)) (is @ replicate 6 None)
      (pipeline_step oob pad p0 p))"
  assumes "\<not> rst_n p0" "list_all (pred_option tlast) is"
  shows "counted (length (filter (\<lambda>i. i \<noteq> None) is)) (cnt_packets s)
    \<and> counted (number ipv4_valid (charged is)) (cnt_ipv4 s) \<and> counted (number tcp_valid (charged is)) (cnt_tcp s)
    \<and> counted (number udp_valid (charged is)) (cnt_udp s)
    \<and> counted (number (\<lambda>m. ethertype m = ETYPE_ARP) (charged is)) (cnt_arp s)"
  using stats_like_counts [OF stats_charged [OF assms(2,3), of oob pad x p, folded s_def]]
  by (simp only: length_charged)

theorem statistics_charge_next_packet_witness:
  "\<forall>p. let s = stats_inst (fold (\<lambda>i. pipeline_step (\<lambda>_ _. False) 0 (single_pins \<lparr>tdata = 0, tkeep = 0, tlast = False\<rparr> i))
        ([Some \<lparr>tdata = 0, tkeep = 255, tlast = True\<rparr>, Some \<lparr>tdata = push_bit 96 0x0608, tkeep = 255, tlast = True\<rparr>]
           @ replicate 6 None)
        (pipeline_step (\<lambda>_ _. False) 0 pipe_pins0 p))
     in counted 2 (cnt_packets s) \<and> counted 2 (cnt_arp s)"
proof
  fix p
  let ?is = "[Some \<lparr>tdata = 0, tkeep = 255, tlast = True\<rparr>, Some \<lparr>tdata = push_bit 96 0x0608, tkeep = 255, tlast = True\<rparr>]"
  have "byte_at (push_bit 96 0x0608 :: bus) 12 = 8" "byte_at (push_bit 96 0x0608 :: bus) 13 = 6"
    by (simp_all add: byte_at_def)
  then have "word16_be (push_bit 96 0x0608 :: bus) 12 = ETYPE_ARP" by (simp add: word16_be_def npe_consts)
  then have arp: "number (\<lambda>m. ethertype m = ETYPE_ARP) (charged ?is) = 2"
    using meta_match_arp by (simp add: number_def charge_def)
  have all: "length (filter (\<lambda>i. i \<noteq> None) ?is) = 2" "\<not> rst_n pipe_pins0" "list_all (pred_option tlast) ?is"
    by (simp_all add: pipe_pins0_def)
  from statistics_charge_next_packet [OF all(2,3), of "\<lambda>_ _. False" 0 "\<lparr>tdata = 0, tkeep = 0, tlast = False\<rparr>" p]
  show "let s = stats_inst (fold (\<lambda>i. pipeline_step (\<lambda>_ _. False) 0 (single_pins \<lparr>tdata = 0, tkeep = 0, tlast = False\<rparr> i))
        (?is @ replicate 6 None) (pipeline_step (\<lambda>_ _. False) 0 pipe_pins0 p))
     in counted 2 (cnt_packets s) \<and> counted 2 (cnt_arp s)"
    unfolding Let_def arp all(1) by blast
qed

end
