(* ===== verification/Engine_Output.thy ===== *)
theory Engine_Output
  imports Back_To_Back
begin

text \<open>
  The data path of \<open>rtl/top/parser_pipeline.sv\<close> on the streams of \<open>Back_To_Back\<close>, exactly: what the
  match table orders for a packet is what the modifier does to it, and that is what comes out, for
  every pattern of arrivals.
\<close>

section \<open>What the engine makes of a packet\<close>

text \<open>The order for a packet whose headers are in \<open>d\<close>, and the packet afterwards.\<close>

definition order_of :: "bus \<Rightarrow> modifier_action" where
  "order_of d = match_mod_action (match_lookup (parse_headers d))"

definition processed :: "axis_beat \<Rightarrow> axis_beat" where
  "processed b = modify (order_of (tdata b)) mod_data0 (meta_match (tdata b)) b"

lemma order_cases: "order_of d = (if service (parse_headers d) = 0 then MOD_TTL_DEC else MOD_NOP)"
  by (simp add: order_of_def match_lookup_eq)

lemma service_nolen: "service (nolen m) = service m"
  by (simp add: nolen_def service_def port_is_def)

lemma modify_nolen:
  assumes "act = MOD_TTL_DEC \<or> act = MOD_NOP"
  shows "modify act md (nolen m) b = modify act md m b"
  using assms by (auto simp: modify_def mod_ttl_dec_def ip_off_def)

lemma processed_eq:
  assumes "nolen m = meta_match (tdata b)"
  shows "modify (order_of (tdata b)) mod_data0 m b = processed b"
  using modify_nolen [of "order_of (tdata b)" mod_data0 m b] assms by (simp add: processed_def order_cases)

lemma tlast_processed [simp]: "tlast (processed b) = tlast b"
  by (simp add: processed_def)

section \<open>The stages behind the match table\<close>

text \<open>A register that holds the processed packet of its input, if there was one.\<close>

definition holds :: "axis_beat option \<Rightarrow> axis_reg \<Rightarrow> bool" where
  "holds i s \<longleftrightarrow> pipe_valid s = (i \<noteq> None) \<and> (\<forall>b. i = Some b \<longrightarrow> pipe_beat s = processed b)"

lemma holds_step: "holds i s \<Longrightarrow> holds i (axis_register_step True (pipe_beat s) (pipe_valid s) True t)"
  by (simp add: holds_def axis_register_step_def)

lemma holds_out: "holds i s \<Longrightarrow> reg_out s = map_option processed i"
  by (cases i) (simp_all add: holds_def reg_out_def)

definition processing :: "axis_beat option list \<Rightarrow> pipeline \<Rightarrow> bool" where
  "processing h p \<longleftrightarrow> flowing h p \<and> 8 \<le> length h \<and>
     (\<forall>b. h ! 4 = Some b \<longrightarrow> pipe_mod_action (match_inst p) = order_of (tdata b) \<and> pipe_mod_data (match_inst p) = mod_data0) \<and>
     prev_tlast (mod_inst p) \<and> holds (h ! 5) (mod_pipe (mod_inst p)) \<and>
     holds (h ! 6) (st_pipe (stats_inst p)) \<and> holds (h ! 7) (fl_pipe (flow_inst p))"

lemma match_order_step:
  assumes "first_beat t"
  shows "pipe_mod_action (match_step True b True True m t) = match_mod_action (match_lookup m)"
    "pipe_mod_data (match_step True b True True m t) = match_mod_data (match_lookup m)"
  using assms by (simp_all add: match_step_def reg_ready_def Let_def)

lemma l4_metadata:
  assumes "flowing h p" "h ! 3 = Some b"
  shows "v_l4 p" "service (m_l4 p) = service (parse_headers (tdata b))" "first_beat (match_inst p)"
proof -
  have u: "stage_has (\<lambda>d. udp_parse d (meta_ip d)) (Some b) (udp_inst p)"
    and t: "stage_has (\<lambda>d. tcp_parse d (meta_ip d)) (Some b) (tcp_inst p)"
    and m: "stage_has meta_match (h ! 4) (match_inst p)"
    using assms by (simp_all add: flowing_def)
  show "v_l4 p" using stage_hasD(2) [OF u] by (simp add: v_l4_def)
  show "first_beat (match_inst p)" by (rule stage_hasD(1) [OF m])
  have "nolen (m_l4 p) = parse_headers (tdata b)"
    using stage_hasD(5) [OF u] stage_hasD(5) [OF t]
    by (simp add: m_l4_def nolen_parse parse_headers_def meta_ip_def meta_vlan_def meta_eth_def Let_def)
  then show "service (m_l4 p) = service (parse_headers (tdata b))" using service_nolen [of "m_l4 p"] by simp
qed

lemma processing_step:
  assumes "processing h p" "\<And>b. i = Some b \<Longrightarrow> tlast b"
  shows "processing (i # h) (pipeline_step oob pad (single_pins x i) p)"
proof -
  let ?p = "pipeline_step oob pad (single_pins x i) p"
  note parts = assms(1) [unfolded processing_def]
  have f: "flowing h p" using parts by blast
  have m: "stage_has meta_match (h ! 4) (match_inst p)" using f by (simp add: flowing_def)
  have next_f: "flowing (i # h) ?p" by (rule flowing_step [OF f assms(2)])
  have order: "pipe_mod_action (match_inst ?p) = order_of (tdata b) \<and> pipe_mod_data (match_inst ?p) = mod_data0"
    if "h ! 3 = Some b" for b
    using l4_metadata [OF f that] match_order_step [of "match_inst p" "b_l4 p" "m_l4 p"]
    by (simp add: pipeline_step_def Let_def all_ready order_of_def match_lookup_eq)
  have modi: "prev_tlast (mod_inst ?p)" "holds (h ! 4) (mod_pipe (mod_inst ?p))"
    using parts stage_hasD [OF m] processed_eq [of "pipe_meta (match_inst p)"]
    by (auto simp: pipeline_step_def Let_def all_ready modifier_step_def reg_ready_def axis_register_step_def holds_def)
  have rest: "holds (h ! 5) (st_pipe (stats_inst ?p))" "holds (h ! 6) (fl_pipe (flow_inst ?p))"
    using parts by (simp_all add: pipeline_step_def Let_def all_ready stats_step_def flow_step_def holds_step)
  show ?thesis using parts next_f order modi rest by (simp add: processing_def)
qed

lemma processing_reset:
  assumes "\<not> rst_n pn"
  shows "processing (replicate 8 None) (pipeline_step oob pad pn p)"
proof -
  have "flowing (replicate 6 None) (pipeline_step oob pad pn p)" by (rule flowing_reset [OF assms])
  then have "flowing (replicate 8 None) (pipeline_step oob pad pn p)" by (simp add: flowing_def)
  then show ?thesis
    using assms
    by (simp add: processing_def holds_def pipeline_step_def Let_def modifier_step_def stats_step_def flow_step_def
        axis_register_step_def)
qed

section \<open>Runs\<close>

lemma cycle_single: "pipe_cycle oob pad x i True p = pipeline_step oob pad (single_pins x i) p"
  by (simp add: pipe_cycle_def single_pins_def split: option.split)

definition present :: "'a option list \<Rightarrow> 'a list" where
  "present is = map the (filter (\<lambda>i. i \<noteq> None) is)"

lemma present_simps [simp]:
  "present [] = []" "present (Some b # is) = b # present is" "present (None # is) = present is"
  "present (xs @ ys) = present xs @ present ys" "present (replicate n None) = []"
  by (simp_all add: present_def)

text \<open>What comes out is what went in eight cycles before.\<close>

lemma delivered_run:
  assumes "processing h p" "list_all (pred_option tlast) is"
  shows "stage_delivered pipe_out (pipe_cycle oob pad x) (map (\<lambda>i. (i, True)) is) p =
    map processed (present (take (length is) (rev (take 8 h) @ is)))"
  using assms
proof (induction "is" arbitrary: h p)
  case (Cons i "is")
  have "processing (i # h) (pipeline_step oob pad (single_pins x i) p)"
    by (rule processing_step [OF Cons.prems(1)]) (use Cons.prems(2) in auto)
  note IH = Cons.IH [OF this]
  have h: "8 \<le> length h" "pipe_out p = map_option processed (h ! 7)"
    using Cons.prems(1) holds_out by (auto simp: processing_def pipe_out_def)
  have t: "take 8 h = take 7 h @ [h ! 7]" "take 8 (i # h) = i # take 7 h"
    using h(1) take_Suc_conv_app_nth [of 7 h] by simp_all
  show ?case
    using IH Cons.prems(2) h(2) unfolding t by (cases "h ! 7") (simp_all add: cycle_single)
qed simp

text \<open>The order, spelled out.\<close>

lemma processed_cases:
  "processed b = (if service (parse_headers (tdata b)) = 0
     then b\<lparr>tdata := mod_ttl_dec (parse_headers (tdata b)) (tdata b)\<rparr> else b)"
proof -
  have "vlan_valid (meta_match d) = vlan_valid (parse_headers d)" for d
    by (simp add: meta_match_def match_parse_def Let_def)
  then show ?thesis by (simp add: processed_def order_cases modify_def mod_ttl_dec_def ip_off_def Let_def)
qed

lemma delivered_after_reset:
  assumes "\<not> rst_n p0" "list_all (pred_option tlast) is"
  shows "stage_delivered pipe_out (pipe_cycle oob pad x) (map (\<lambda>i. (i, True)) (is @ replicate 8 None))
      (pipeline_step oob pad p0 p) = map processed (present is)"
proof -
  have "list_all (pred_option tlast) (is @ replicate 8 None)" using assms(2) by (simp add: list_all_iff)
  then have run: "stage_delivered pipe_out (pipe_cycle oob pad x) (map (\<lambda>i. (i, True)) (is @ replicate 8 None))
      (pipeline_step oob pad p0 p) =
    map processed (present (take (length (is @ replicate 8 None)) (rev (take 8 (replicate 8 None)) @ is @ replicate 8 None)))"
    by (rule delivered_run [OF processing_reset [OF assms(1)]])
  have "take (length (is @ replicate 8 None)) (rev (take 8 (replicate 8 None)) @ is @ replicate 8 None) = replicate 8 None @ is"
    by simp
  then show ?thesis unfolding run by (simp only: present_simps append_Nil)
qed

text \<open>An ARP packet is none of the known services.\<close>

lemma arp_headers:
  assumes "word16_be d 12 = ETYPE_ARP"
  shows "service (parse_headers d) = 0" "\<not> vlan_valid (parse_headers d)"
proof -
  have "protocol (parse_headers d) = 0" "\<not> vlan_valid (parse_headers d)"
    using assms
    by (simp_all add: parse_headers_def l4_select_def tcp_parse_def udp_parse_def ipv4_parse_def vlan_parse_def
        eth_parse_def meta0_def npe_consts Let_def)
  then show "service (parse_headers d) = 0" "\<not> vlan_valid (parse_headers d)"
    by (simp_all add: service_def npe_consts)
qed

section \<open>Properties\<close>

text \<open>C3: The data path of the engine, exactly: after reset, when packets of one beat each arrive in any
  pattern of cycles and the receiver is ready, the engine delivers, in order, every packet as the
  match table orders for its own headers: unchanged if they are those of a known service, and with the
  lanes of TTL and checksum rewritten otherwise, whether the packet is IP or not.\<close>

theorem engine_output_exact:
  fixes p :: pipeline and p0 :: pipe_pins and x :: axis_beat and "is" :: "axis_beat option list"
    and oob :: "u32 \<Rightarrow> nat \<Rightarrow> bool" and pad :: "6 word"
  assumes "\<not> rst_n p0" "list_all (pred_option tlast) is"
  shows "stage_delivered pipe_out (pipe_cycle oob pad x) (map (\<lambda>i. (i, True)) (is @ replicate 8 None))
      (pipeline_step oob pad p0 p) =
    map (\<lambda>b. if service (parse_headers (tdata b)) = 0
             then b\<lparr>tdata := mod_ttl_dec (parse_headers (tdata b)) (tdata b)\<rparr> else b) (present is)"
  using delivered_after_reset [OF assms, of oob pad x p] by (simp add: processed_cases)

theorem engine_output_exact_witness:
  "\<forall>p. \<exists>b. tkeep b = 255 \<and> stage_delivered pipe_out (pipe_cycle (\<lambda>_ _. False) 0 \<lparr>tdata = 0, tkeep = 0, tlast = False\<rparr>)
     (map (\<lambda>i. (i, True)) ([None, Some \<lparr>tdata = 0, tkeep = 255, tlast = True\<rparr>] @ replicate 8 None))
     (pipeline_step (\<lambda>_ _. False) 0 pipe_pins0 p) = [b]"
proof
  fix p
  let ?is = "[None, Some \<lparr>tdata = 0, tkeep = 255, tlast = True\<rparr>]"
  have "\<not> rst_n pipe_pins0" "list_all (pred_option tlast) ?is" by (simp_all add: pipe_pins0_def)
  note exact = engine_output_exact [OF this, of "\<lambda>_ _. False" 0 "\<lparr>tdata = 0, tkeep = 0, tlast = False\<rparr>" p,
    unfolded present_simps list.map]
  show "\<exists>b. tkeep b = 255 \<and> stage_delivered pipe_out (pipe_cycle (\<lambda>_ _. False) 0 \<lparr>tdata = 0, tkeep = 0, tlast = False\<rparr>)
     (map (\<lambda>i. (i, True)) (?is @ replicate 8 None)) (pipeline_step (\<lambda>_ _. False) 0 pipe_pins0 p) = [b]"
    unfolding list.map by (rule exI, rule conjI [OF _ exact]) simp
qed

text \<open>C16: The engine corrupts ARP: an ARP packet that \<open>make_arp_packet\<close> built, sent after reset in one
  beat, comes out with the first byte of the sender's hardware address decremented and its fourth byte
  copied over the third, as the order for packets of no known service is to decrement the TTL of a
  header that an ARP packet does not have. All other bytes are unchanged.\<close>

theorem arp_packets_corrupted:
  fixes p :: pipeline and p0 :: pipe_pins and b x :: axis_beat and oob :: "u32 \<Rightarrow> nat \<Rightarrow> bool" and pad :: "6 word"
    and sm dm :: "u8 list" and sip tip :: u32
  assumes "\<not> rst_n p0" "tlast b" "length sm = 6" "length dm = 6" "carries (tdata b) (make_arp_packet sm dm sip tip)"
  shows "\<exists>b'. stage_delivered pipe_out (pipe_cycle oob pad x) ((Some b, True) # replicate 8 (None, True))
      (pipeline_step oob pad p0 p) = [b'] \<and> tkeep b' = tkeep b \<and> tlast b'
    \<and> (\<forall>j < 42. byte_at (tdata b') j = ((make_arp_packet sm dm sip tip)[22 := sm ! 0 - 1, 24 := sm ! 3]) ! j)"
proof -
  let ?pkt = "make_arp_packet sm dm sip tip"
  have len: "length ?pkt = 42" using assms(3,4) by (simp add: make_arp_wire eth_wire_def)
  have lane: "byte_at (tdata b) j = ?pkt ! j" if "j < 42" for j using assms(5) that len by (simp add: carries_def)
  have bytes: "?pkt ! 12 = 8" "?pkt ! 13 = 6" "?pkt ! 22 = sm ! 0" "?pkt ! 25 = sm ! 3"
    using assms(3,4) by (simp_all add: make_arp_wire eth_wire_def nth_append be16_bytes byte_at_def)
  have "word16_be (tdata b) 12 = ETYPE_ARP" using lane [of 12] lane [of 13] bytes by (simp add: word16_be_def npe_consts)
  note arp = arp_headers [OF this]
  let ?b = "b\<lparr>tdata := mod_ttl_dec (parse_headers (tdata b)) (tdata b)\<rparr>"
  have "stage_delivered pipe_out (pipe_cycle oob pad x) (map (\<lambda>i. (i, True)) ([Some b] @ replicate 8 None))
      (pipeline_step oob pad p0 p) = [?b]"
    using delivered_after_reset [OF assms(1), of "[Some b]" oob pad x p] assms(2) arp(1) by (simp add: processed_cases)
  moreover have "byte_at (tdata ?b) j = (?pkt[22 := sm ! 0 - 1, 24 := sm ! 3]) ! j" if "j < 42" for j
    using that arp(2) lane [OF that] lane [of 22] lane [of 25] bytes len by (simp add: ttl_dec_lanes ip_off_def nth_list_update)
  ultimately show ?thesis using assms(2) by (intro exI [of _ ?b]) simp
qed

theorem arp_packets_corrupted_witness:
  "\<forall>p. \<exists>b. stage_delivered pipe_out (pipe_cycle (\<lambda>_ _. False) 0 \<lparr>tdata = 0, tkeep = 0, tlast = False\<rparr>)
     ((Some \<lparr>tdata = set32 0 (make_arp_packet [2, 0, 0, 0, 0, 1] [2, 0, 0, 0, 0, 2] 0xC0A80001 0xC0A80002) 42,
         tkeep = mask 42, tlast = True\<rparr>, True) # replicate 8 (None, True))
     (pipeline_step (\<lambda>_ _. False) 0 pipe_pins0 p) = [b] \<and> byte_at (tdata b) 22 = 1"
proof
  fix p
  let ?pkt = "make_arp_packet [2, 0, 0, 0, 0, 1] [2, 0, 0, 0, 0, 2] 0xC0A80001 0xC0A80002"
  let ?b = "\<lparr>tdata = set32 0 ?pkt 42, tkeep = mask 42, tlast = True\<rparr>"
  have len: "length ?pkt = 42" by (simp add: make_arp_wire eth_wire_def)
  then have c: "carries (tdata ?b) ?pkt" using carries_set32 [of 0 ?pkt] by simp
  have "\<not> rst_n pipe_pins0" "tlast ?b" "length [2, 0, 0, 0, 0, 1 :: u8] = 6" "length [2, 0, 0, 0, 0, 2 :: u8] = 6"
    by (simp_all add: pipe_pins0_def)
  from arp_packets_corrupted [OF this c, where oob = "\<lambda>_ _. False" and pad = 0
      and x = "\<lparr>tdata = 0, tkeep = 0, tlast = False\<rparr>" and p = p]
  obtain b where b: "stage_delivered pipe_out (pipe_cycle (\<lambda>_ _. False) 0 \<lparr>tdata = 0, tkeep = 0, tlast = False\<rparr>)
      ((Some ?b, True) # replicate 8 (None, True)) (pipeline_step (\<lambda>_ _. False) 0 pipe_pins0 p) = [b]"
    "\<forall>j < 42. byte_at (tdata b) j = (?pkt[22 := [2, 0, 0, 0, 0, 1] ! 0 - 1, 24 := [2, 0, 0, 0, 0, 1] ! 3]) ! j"
    by blast
  have "byte_at (tdata b) 22 = 1" using b(2) [rule_format, of 22] len by (simp add: nth_list_update)
  then show "\<exists>b. stage_delivered pipe_out (pipe_cycle (\<lambda>_ _. False) 0 \<lparr>tdata = 0, tkeep = 0, tlast = False\<rparr>)
      ((Some ?b, True) # replicate 8 (None, True)) (pipeline_step (\<lambda>_ _. False) 0 pipe_pins0 p) = [b]
      \<and> byte_at (tdata b) 22 = 1"
    using b(1) by blast
qed

end
