(* ===== verification/Flow_History.thy ===== *)
theory Flow_History
  imports Flow_Table
begin

text \<open>
  What the entries of \<open>rtl/memory/flow_table.sv\<close> say about the past: a run from reset is compared with
  the log of the packets that were accepted in it.
\<close>

section \<open>The log of a run\<close>

text \<open>Flow, length and time of each packet whose last beat is accepted.\<close>

type_synonym flow_log_entry = "flow_key \<times> u16 \<times> u32"

fun flow_log :: "(u32 \<Rightarrow> nat \<Rightarrow> bool) \<Rightarrow> 6 word \<Rightarrow> flow_pins list \<Rightarrow> flow_regs \<Rightarrow> flow_log_entry list" where
  "flow_log oob pad [] s = []"
| "flow_log oob pad ((b, v, r, m) # cs) s =
     (if v \<and> reg_ready r (fl_pipe s) \<and> tlast b then [(flow_key_of m, pkt_length m, now s)] else []) @
     flow_log oob pad cs (flow_step oob pad True b v r m s)"

definition packets_of :: "flow_key \<Rightarrow> flow_log_entry list \<Rightarrow> (u16 \<times> u32) list" where
  "packets_of k xs = map snd (filter (\<lambda>x. fst x = k) xs)"

lemma packets_of_snoc:
  "packets_of k (xs @ [(k', len, t)]) = packets_of k xs @ (if k' = k then [(len, t)] else [])"
  by (simp add: packets_of_def)

text \<open>Packets each less than the timeout after the one before.\<close>

definition no_gap :: "(u16 \<times> u32) list \<Rightarrow> bool" where
  "no_gap = successively (\<lambda>x y. snd y - snd x < TIMEOUT_CYCLES)"

lemma no_gap_snoc: "xs \<noteq> [] \<Longrightarrow> no_gap (xs @ [(len, t)]) \<longleftrightarrow> no_gap xs \<and> t - snd (last xs) < TIMEOUT_CYCLES"
  by (simp add: no_gap_def successively_append_iff)

text \<open>An entry that counts the packets \<open>xs\<close>.\<close>

definition counts :: "(u16 \<times> u32) list \<Rightarrow> flow_entry \<Rightarrow> bool" where
  "counts xs e \<longleftrightarrow> xs \<noteq> [] \<and> fe_packet_count e = of_nat (length xs) \<and>
     fe_byte_count e = (\<Sum>x\<leftarrow>xs. ucast (fst x)) \<and> fe_last_seen e = snd (last xs)"

lemma counts_fresh: "counts [(len, t)] (fresh_entry t k len)"
  by (simp add: counts_def fresh_entry_def)

lemma counts_hit:
  "counts xs e \<Longrightarrow> way_valid t e \<Longrightarrow> counts (xs @ [(len, t)]) (hit_entry t k len e)"
  by (simp add: counts_def hit_entry_def)

lemma valid_last: "counts xs e \<Longrightarrow> fe_valid e \<Longrightarrow> way_valid t e \<longleftrightarrow> t - snd (last xs) < TIMEOUT_CYCLES"
  by (simp add: counts_def way_valid_def)

section \<open>The invariant\<close>

text \<open>A flow with a set of its own.\<close>

definition alone :: "6 word \<Rightarrow> flow_key \<Rightarrow> flow_log_entry list \<Rightarrow> bool" where
  "alone pad k xs \<longleftrightarrow> list_all (\<lambda>x. set_idx pad (fst x) = set_idx pad k \<longrightarrow> fst x = k) xs"

definition logged :: "6 word \<Rightarrow> flow_log_entry list \<Rightarrow> flow_ram \<Rightarrow> bool" where
  "logged pad xs ram \<longleftrightarrow> flow_inv ram \<and>
     (\<forall>k e. flow_find pad ram k = Some e \<longrightarrow>
        (\<exists>old recent. packets_of k xs = old @ recent \<and> no_gap recent \<and> counts recent e)) \<and>
     (\<forall>k. alone pad k xs \<and> no_gap (packets_of k xs) \<and> packets_of k xs \<noteq> [] \<longrightarrow>
        (\<exists>e. flow_find pad ram k = Some e \<and> counts (packets_of k xs) e))"

lemma loggedD:
  assumes "logged pad xs ram"
  shows "flow_find pad ram k = Some e \<Longrightarrow> \<exists>old recent. packets_of k xs = old @ recent \<and> no_gap recent \<and> counts recent e"
    "alone pad k xs \<Longrightarrow> no_gap (packets_of k xs) \<Longrightarrow> packets_of k xs \<noteq> [] \<Longrightarrow>
      \<exists>e. flow_find pad ram k = Some e \<and> counts (packets_of k xs) e"
  using assms unfolding logged_def by blast+

lemma logged_reset: "logged pad [] (\<lambda>_ _. flow_entry0)"
proof -
  have "flow_find pad (\<lambda>_ _. flow_entry0) k = None" for k
    by (simp add: flow_find_def way_hit_def flow_entry0_def Let_def)
  then show ?thesis by (simp add: logged_def flow_inv_reset packets_of_def)
qed

lemma find_valid: "flow_find pad ram k = Some e \<Longrightarrow> fe_valid e"
  by (auto simp: flow_find_def way_hit_def Let_def split: if_splits)

text \<open>One packet: what the entries count afterwards, and that a flow alone in its set is not forgotten.\<close>

lemma entry_update:
  fixes ram :: flow_ram and l :: lru_bits
  assumes "logged pad xs ram"
    "flow_find pad (fst (flow_update oob t k (set_idx pad k) len (ram, l))) k' = Some e"
  shows "\<exists>old recent. packets_of k' (xs @ [(k, len, t)]) = old @ recent \<and> no_gap recent \<and> counts recent e"
proof -
  have "flow_inv ram" using assms(1) by (simp add: logged_def)
  note upd = flow_find_update [OF this, where pad = pad and oob = oob and t = t and k = k and len = len and l = l]
  consider "k' \<noteq> k" | e0 where "k' = k" "flow_find pad ram k = Some e0" "way_valid t e0"
    | "k' = k" "e = fresh_entry t k len"
    using upd(1) assms(2) by (cases "k' = k") (auto simp: hit_entry_def split: option.splits if_splits)
  then show ?thesis
  proof cases
    case 1
    then have "flow_find pad ram k' = Some e" using upd(2) [where k' = k'] assms(2) by auto
    then show ?thesis using loggedD(1) [OF assms(1)] 1 by (simp add: packets_of_snoc)
  next
    case 2
    obtain old recent where r: "packets_of k xs = old @ recent" "no_gap recent" "counts recent e0"
      using loggedD(1) [OF assms(1) 2(2)] by blast
    have "no_gap (recent @ [(len, t)])"
      using r(2,3) 2(3) valid_last [OF r(3) find_valid [OF 2(2)]] by (simp add: no_gap_snoc counts_def)
    moreover have "e = hit_entry t k len e0" using upd(1) assms(2) 2 by simp
    then have "counts (recent @ [(len, t)]) e" using counts_hit [OF r(3) 2(3)] by blast
    moreover have "packets_of k' (xs @ [(k, len, t)]) = old @ (recent @ [(len, t)])"
      using 2(1) r(1) by (simp add: packets_of_snoc)
    ultimately show ?thesis by blast
  next
    case 3
    have "no_gap [(len, t)]" by (simp add: no_gap_def)
    moreover have "packets_of k' (xs @ [(k, len, t)]) = packets_of k xs @ [(len, t)]" using 3(1) by (simp add: packets_of_snoc)
    moreover have "counts [(len, t)] e" unfolding 3(2) by (rule counts_fresh)
    ultimately show ?thesis by blast
  qed
qed

lemma alone_update:
  fixes ram :: flow_ram and l :: lru_bits
  assumes "logged pad xs ram" "alone pad k' (xs @ [(k, len, t)])" "no_gap (packets_of k' (xs @ [(k, len, t)]))"
    "packets_of k' (xs @ [(k, len, t)]) \<noteq> []"
  shows "\<exists>e. flow_find pad (fst (flow_update oob t k (set_idx pad k) len (ram, l))) k' = Some e \<and>
    counts (packets_of k' (xs @ [(k, len, t)])) e"
proof -
  have "flow_inv ram" using assms(1) by (simp add: logged_def)
  note upd = flow_find_update [OF this, where pad = pad and oob = oob and t = t and k = k and len = len and l = l]
  consider "k' \<noteq> k" | "k' = k" "packets_of k xs = []" | "k' = k" "packets_of k xs \<noteq> []" by blast
  then show ?thesis
  proof cases
    case 1
    then have "set_idx pad k' \<noteq> set_idx pad k" using assms(2) by (auto simp: alone_def)
    then show ?thesis
      using upd(2) [OF 1] loggedD(2) [OF assms(1), of k'] assms(2-4) 1 by (auto simp: packets_of_snoc alone_def)
  next
    case 2
    have "flow_find pad ram k = None"
      using loggedD(1) [OF assms(1), of k] 2(2) by (cases "flow_find pad ram k") (auto simp: counts_def)
    then show ?thesis using 2 upd(1) counts_fresh by (auto simp: packets_of_snoc)
  next
    case 3
    have g: "no_gap (packets_of k xs)" "t - snd (last (packets_of k xs)) < TIMEOUT_CYCLES"
      using assms(3) 3 by (simp_all add: packets_of_snoc no_gap_snoc)
    have "alone pad k xs" using assms(2) 3(1) by (simp add: alone_def)
    then obtain e0 where e0: "flow_find pad ram k = Some e0" "counts (packets_of k xs) e0"
      using loggedD(2) [OF assms(1) _ g(1) 3(2)] by blast
    have "way_valid t e0" using valid_last [OF e0(2) find_valid [OF e0(1)]] g(2) by simp
    then show ?thesis using upd(1) 3(1) e0(1) counts_hit [OF e0(2)] by (simp add: packets_of_snoc)
  qed
qed

lemma logged_update:
  assumes "logged pad xs ram"
  shows "logged pad (xs @ [(k, len, t)]) (fst (flow_update oob t k (set_idx pad k) len (ram, l)))"
proof -
  have "flow_inv ram" using assms by (simp add: logged_def)
  then show ?thesis
    using entry_update [OF assms] alone_update [OF assms] unfolding logged_def
    by (intro conjI allI impI flow_update_inv) blast+
qed

lemma logged_run:
  "logged pad xs (flow_ram s) \<Longrightarrow> logged pad (xs @ flow_log oob pad cs s) (flow_ram (flow_run oob pad cs s))"
proof (induction oob pad cs s arbitrary: xs rule: flow_log.induct)
  case (2 oob pad b v r m cs s)
  let ?s = "flow_step oob pad True b v r m s"
  have "logged pad (xs @ (if v \<and> reg_ready r (fl_pipe s) \<and> tlast b then [(flow_key_of m, pkt_length m, now s)] else []))
      (flow_ram ?s)"
    using 2 logged_update by (simp add: flow_step_def Let_def)
  from "2.IH" [OF this] show ?case by simp
qed simp

section \<open>Properties\<close>

text \<open>C7: What an entry of the flow table means: after reset, for every input and back-pressure, the
  entry of a flow counts the packets and bytes (modulo \<open>2 ^ 48\<close> and \<open>2 ^ 64\<close>) of exactly its last
  packets, one or more, which follow each other within the timeout
  (on the clock of 32 bits, which wraps); its time is that of the last
  packet. If no other flow of its set has sent anything and there was no gap, these are all packets of
  the flow.\<close>

theorem flow_entries_count_packets:
  fixes s :: flow_regs and oob :: "u32 \<Rightarrow> nat \<Rightarrow> bool" and pad :: "6 word" and m :: packet_metadata
    and b :: axis_beat and v r :: bool
  defines "s0 \<equiv> flow_step oob pad False b v r m s"
  shows "(\<forall>k e. flow_find pad (flow_ram (flow_run oob pad cs s0)) k = Some e \<longrightarrow>
      (\<exists>old recent. packets_of k (flow_log oob pad cs s0) = old @ recent \<and> no_gap recent \<and> counts recent e))
    \<and> (\<forall>k. alone pad k (flow_log oob pad cs s0) \<and> no_gap (packets_of k (flow_log oob pad cs s0))
        \<and> packets_of k (flow_log oob pad cs s0) \<noteq> [] \<longrightarrow>
      (\<exists>e. flow_find pad (flow_ram (flow_run oob pad cs s0)) k = Some e
        \<and> counts (packets_of k (flow_log oob pad cs s0)) e))"
proof -
  have "logged pad ([] @ flow_log oob pad cs s0) (flow_ram (flow_run oob pad cs s0))"
    by (rule logged_run) (simp add: s0_def flow_step_def logged_reset Let_def)
  then show ?thesis by (simp add: logged_def)
qed

theorem flow_entries_count_packets_witness:
  fixes b :: axis_beat and cs :: "flow_pins list"
  defines "b \<equiv> \<lparr>tdata = 3, tkeep = 1, tlast = True\<rparr>"
  defines "cs \<equiv> [(b, True, True, meta0\<lparr>pkt_length := 60\<rparr>), (b, False, True, meta0), (b, True, True, meta0\<lparr>pkt_length := 40\<rparr>)]"
  shows "\<forall>s. \<exists>e. flow_find 0 (flow_ram (flow_run (\<lambda>_ _. False) 0 cs (flow_step (\<lambda>_ _. False) 0 False b True True meta0 s)))
      (flow_key_of meta0) = Some e \<and> fe_packet_count e = 2 \<and> fe_byte_count e = 100 \<and> fe_last_seen e = 2"
proof
  fix s
  let ?s = "flow_step (\<lambda>_ _. False) 0 False b True True meta0 s" and ?k = "flow_key_of meta0"
  have k: "flow_key_of (meta0\<lparr>pkt_length := n\<rparr>) = ?k" for n by (simp add: flow_key_of_def)
  have log: "flow_log (\<lambda>_ _. False) 0 cs ?s = [(?k, 60, 0), (?k, 40, 2)]"
    by (simp add: cs_def flow_step_def Let_def reg_ready_def b_def k)
  have "packets_of ?k [(?k, 60, 0), (?k, 40, 2)] = [(60, 0), (40, 2)]" by (simp add: packets_of_def)
  moreover have "alone 0 ?k [(?k, 60, 0), (?k, 40, 2)]" by (simp add: alone_def)
  moreover have "no_gap [(60, 0), (40, 2)]" by (simp add: no_gap_def TIMEOUT_CYCLES_def)
  ultimately show "\<exists>e. flow_find 0 (flow_ram (flow_run (\<lambda>_ _. False) 0 cs ?s)) ?k = Some e
      \<and> fe_packet_count e = 2 \<and> fe_byte_count e = 100 \<and> fe_last_seen e = 2"
    using conjunct2 [OF flow_entries_count_packets [where oob = "\<lambda>_ _. False" and pad = 0
        and cs = cs and b = b and v = True and r = True and m = meta0 and s = s], unfolded log]
    by (auto simp: counts_def)
qed

end
