(* ===== verification/Flow_Charging.thy ===== *)
theory Flow_Charging
  imports Engine_Output Flow_History
begin

text \<open>
  The flow table inside \<open>rtl/top/parser_pipeline.sv\<close>, on the streams of \<open>Back_To_Back\<close>: it sees the last
  beat of a packet two stages after the match table, whose metadata it takes. The log of packets of
  \<open>Flow_History\<close> is determined by the inputs, and with the counters and the data path gives the path of
  a single generated packet through the whole engine.
\<close>

section \<open>The flow a packet is charged to\<close>

text \<open>The newest packet of a history.\<close>

fun recent :: "'a option list \<Rightarrow> 'a option" where
  "recent [] = None"
| "recent (Some b # h) = Some b"
| "recent (None # h) = recent h"

lemma recent_none [simp]: "recent (replicate n None) = None"
  by (induction n) simp_all

definition flow_of :: "bus \<Rightarrow> flow_key" where
  "flow_of d = flow_key_of (meta_match d)"

text \<open>The last packet of the two cycles after it, or itself.\<close>

definition charge_flow :: "axis_beat \<Rightarrow> axis_beat option list \<Rightarrow> flow_key" where
  "charge_flow b later = flow_of (tdata (case recent (rev later) of Some b' \<Rightarrow> b' | None \<Rightarrow> b))"

lemma recent_idle: "recent (replicate n None @ h) = recent h"
  by (induction n) simp_all

lemma charge_flow_idle: "charge_flow b (later @ replicate n None) = charge_flow b later"
  by (simp add: charge_flow_def recent_idle)

text \<open>The bytes of the inputs, as the length counter of the Ethernet parser adds them up: single-beat
  packets do not restart it, so that the length in the metadata of a packet is the sum over all packets
  since the reset, modulo \<open>2 ^ 16\<close>.\<close>

definition kept_bytes :: "axis_beat option \<Rightarrow> u16" where
  "kept_bytes i = (case i of None \<Rightarrow> 0 | Some b \<Rightarrow> word_of_nat (count_keep (tkeep b)))"

definition byte_sum :: "axis_beat option list \<Rightarrow> u16" where
  "byte_sum is = (\<Sum>i\<leftarrow>is. kept_bytes i)"

lemma byte_sum_simps [simp]:
  "byte_sum [] = 0" "byte_sum (i # is) = kept_bytes i + byte_sum is" "byte_sum (is @ js) = byte_sum is + byte_sum js"
  "byte_sum (rev is) = byte_sum is" "byte_sum (replicate n None) = 0"
  by (simp_all add: byte_sum_def kept_bytes_def sum_list_replicate flip: rev_map)

text \<open>What the flow table makes of the input of cycle \<open>j\<close>, counted from the reset: a packet reaches it seven
  cycles later, with the metadata of the last packet up to cycle \<open>j + 2\<close>.\<close>

definition charged_at :: "axis_beat option list \<Rightarrow> nat \<Rightarrow> flow_log_entry list" where
  "charged_at is j =
     (case is ! j of None \<Rightarrow> []
      | Some b \<Rightarrow> [(charge_flow b (take 2 (drop (Suc j) is)), byte_sum (take (j + 3) is), word_of_nat (j + 7))])"

definition flow_charges :: "axis_beat option list \<Rightarrow> flow_log_entry list" where
  "flow_charges is = concat (map (charged_at is) [0..<length is])"

lemma charged_at_idle:
  assumes "j < length is"
  shows "charged_at (is @ replicate n None) j = charged_at is j"
proof (cases "is ! j")
  case (Some b)
  then have "(is @ replicate n None) ! j = Some b" using assms by (simp add: nth_append)
  then show ?thesis
    using assms Some charge_flow_idle by (simp add: charged_at_def)
qed (use assms in \<open>simp add: charged_at_def nth_append\<close>)

lemma charges_idle: "concat (map (charged_at (is @ replicate n None)) [0..<length is]) = flow_charges is"
  unfolding flow_charges_def by (intro arg_cong [where f = concat] map_cong) (simp_all add: charged_at_idle)

section \<open>The flow table in the pipeline\<close>

text \<open>The metadata at the output of the match table is that of the newest packet it has seen.\<close>

definition labelled :: "axis_beat option list \<Rightarrow> pipeline \<Rightarrow> bool" where
  "labelled h p \<longleftrightarrow> flowing h p \<and> 7 \<le> length h \<and>
     (\<forall>b. recent (drop 4 h) = Some b \<longrightarrow> nolen (pipe_meta (match_inst p)) = meta_match (tdata b)) \<and>
     pipe_valid (st_pipe (stats_inst p)) = (h ! 6 \<noteq> None) \<and>
     (h ! 6 \<noteq> None \<longrightarrow> tlast (pipe_beat (st_pipe (stats_inst p))))"

lemma labelled_step:
  assumes "labelled h p" "\<And>b. i = Some b \<Longrightarrow> tlast b"
  shows "labelled (i # h) (pipeline_step oob pad (single_pins x i) p)"
proof -
  let ?p = "pipeline_step oob pad (single_pins x i) p"
  have f: "flowing h p" "7 \<le> length h" and meta: "recent (drop 4 h) = Some b \<Longrightarrow> nolen (pipe_meta (match_inst p)) = meta_match (tdata b)" for b
    using assms(1) by (simp_all add: labelled_def)
  have next_f: "flowing (i # h) ?p" by (rule flowing_step [OF f(1) assms(2)])
  then have "stage_has meta_match (h ! 3) (match_inst ?p)" by (simp add: flowing_def)
  note now = stage_hasD(5) [OF this]
  have "drop 3 h = h ! 3 # drop 4 h" using Cons_nth_drop_Suc [of 3 h] f(2) by simp
  then have "nolen (pipe_meta (match_inst ?p)) = meta_match (tdata b)" if "recent (drop 3 h) = Some b" for b
    using that now meta match_meta_stays [OF f(1), of oob pad x i] by (cases "h ! 3") auto
  moreover have "pipe_valid (mod_pipe (mod_inst p)) \<longleftrightarrow> h ! 5 \<noteq> None" "h ! 5 \<noteq> None \<longrightarrow> tlast (pipe_beat (mod_pipe (mod_inst p)))"
    using f(1) by (simp_all add: flowing_def)
  then have "pipe_valid (st_pipe (stats_inst ?p)) \<longleftrightarrow> h ! 5 \<noteq> None" "h ! 5 \<noteq> None \<longrightarrow> tlast (pipe_beat (st_pipe (stats_inst ?p)))"
    by (simp_all add: pipeline_step_def Let_def all_ready stats_step_def axis_register_step_def)
  ultimately show ?thesis using next_f f(2) by (simp add: labelled_def)
qed

lemma labelled_reset:
  assumes "\<not> rst_n pn"
  shows "labelled (replicate 7 None) (pipeline_step oob pad pn p)"
proof -
  have "flowing (replicate 6 None) (pipeline_step oob pad pn p)" by (rule flowing_reset [OF assms])
  then have "flowing (replicate 7 None) (pipeline_step oob pad pn p)" by (simp add: flowing_def)
  moreover have "\<not> pipe_valid (st_pipe (stats_inst (pipeline_step oob pad pn p)))"
    using assms by (simp add: pipeline_step_def Let_def stats_step_def axis_register_step_def)
  ultimately show ?thesis by (simp add: labelled_def)
qed

text \<open>The lengths in the stages.\<close>

lemma parse_length [simp]:
  "pkt_length (vlan_parse d m) = pkt_length m" "pkt_length (ipv4_parse d m) = pkt_length m"
  "pkt_length (udp_parse d m) = pkt_length m" "pkt_length (tcp_parse d m) = pkt_length m"
  "pkt_length (match_parse m) = pkt_length m"
  "pkt_length mt = n \<Longrightarrow> pkt_length mu = n \<Longrightarrow> pkt_length (l4_select mt mu) = n"
  by (simp_all add: vlan_parse_def ipv4_parse_def udp_parse_def tcp_parse_def match_parse_def l4_select_def Let_def)

definition lengths :: "axis_beat option list \<Rightarrow> pipeline \<Rightarrow> bool" where
  "lengths h p \<longleftrightarrow> pkt_len (eth_inst p) = byte_sum h \<and>
     (h ! 0 \<noteq> None \<longrightarrow> pkt_length (pipe_meta (eth_inst p)) = byte_sum h) \<and>
     (h ! 1 \<noteq> None \<longrightarrow> pkt_length (pipe_meta (vlan_inst p)) = byte_sum (drop 1 h)) \<and>
     (h ! 2 \<noteq> None \<longrightarrow> pkt_length (pipe_meta (ip_inst p)) = byte_sum (drop 2 h)) \<and>
     (h ! 3 \<noteq> None \<longrightarrow> pkt_length (pipe_meta (udp_inst p)) = byte_sum (drop 3 h) \<and>
        pkt_length (pipe_meta (tcp_inst p)) = byte_sum (drop 3 h)) \<and>
     (recent (drop 4 h) \<noteq> None \<longrightarrow> pkt_length (pipe_meta (match_inst p)) = byte_sum (drop 4 h))"

lemma stage_length:
  assumes "stage_has F i s" "stage_has G j t" "j \<noteq> None" "\<And>b m. pkt_length (upd b m) = pkt_length m"
  shows "pkt_length (pipe_meta (meta_stage_step upd True b (pipe_valid (pipe t)) True (pipe_meta t) s)) = pkt_length (pipe_meta t)"
  using assms(3,4) stage_hasD(1) [OF assms(1)] stage_hasD(2) [OF assms(2)]
  by (simp add: meta_stage_step_def reg_ready_def Let_def)

lemma eth_length:
  assumes "\<And>b. i = Some b \<Longrightarrow> tlast b"
  shows "pkt_len (eth_inst (pipeline_step oob pad (single_pins x i) p)) = kept_bytes i + pkt_len (eth_inst p)"
    and "i \<noteq> None \<Longrightarrow> pkt_length (pipe_meta (eth_inst (pipeline_step oob pad (single_pins x i) p))) =
      kept_bytes i + pkt_len (eth_inst p)"
  using assms
  by (auto simp: pipeline_step_def Let_def all_ready eth_step_def meta_stage_step_def reg_ready_def kept_bytes_def
      split: option.splits)

lemma lengths_step:
  assumes "flowing h p" "lengths h p" "\<And>b. i = Some b \<Longrightarrow> tlast b"
  shows "lengths (i # h) (pipeline_step oob pad (single_pins x i) p)"
proof -
  let ?p = "pipeline_step oob pad (single_pins x i) p"
  note has = assms(1) [unfolded flowing_def] and len = assms(2) [unfolded lengths_def]
  have vlan: "h ! 0 \<noteq> None \<longrightarrow> pkt_length (pipe_meta (vlan_inst ?p)) = byte_sum h"
    using has len stage_length [of meta_vlan "h ! 1" "vlan_inst p" meta_eth "h ! 0" "eth_inst p"]
    by (simp add: pipeline_step_def Let_def all_ready vlan_step_def)
  have ip: "h ! 1 \<noteq> None \<longrightarrow> pkt_length (pipe_meta (ip_inst ?p)) = byte_sum (drop 1 h)"
    using has len stage_length [of meta_ip "h ! 2" "ip_inst p" meta_vlan "h ! 1" "vlan_inst p"]
    by (simp add: pipeline_step_def Let_def all_ready ipv4_step_def)
  have l4: "h ! 2 \<noteq> None \<longrightarrow> pkt_length (pipe_meta (udp_inst ?p)) = byte_sum (drop 2 h) \<and>
      pkt_length (pipe_meta (tcp_inst ?p)) = byte_sum (drop 2 h)"
    using has len stage_length [of "\<lambda>d. udp_parse d (meta_ip d)" "h ! 3" "udp_inst p" meta_ip "h ! 2" "ip_inst p"]
      stage_length [of "\<lambda>d. tcp_parse d (meta_ip d)" "h ! 3" "tcp_inst p" meta_ip "h ! 2" "ip_inst p"]
    by (simp add: pipeline_step_def Let_def all_ready udp_step_def tcp_step_def)
  have drop3: "drop 3 h = h ! 3 # drop 4 h" using has Cons_nth_drop_Suc [of 3 h] by simp
  have match: "pkt_length (pipe_meta (match_inst ?p)) = byte_sum (drop 3 h)" if "recent (drop 3 h) \<noteq> None"
  proof (cases "h ! 3")
    case None
    then show ?thesis using that len match_meta_stays [OF assms(1) None] by (simp add: drop3 kept_bytes_def)
  next
    case (Some b)
    have "pipe_valid (pipe (udp_inst p))" "pipe_valid (pipe (tcp_inst p))" "first_beat (match_inst p)"
      using has Some stage_hasD(1,2) by blast+
    moreover have "pkt_length (m_l4 p) = byte_sum (drop 3 h)" using len Some by (simp add: m_l4_def)
    ultimately show ?thesis
      by (simp add: pipeline_step_def Let_def all_ready stage_frames meta_stage_step_def reg_ready_def v_l4_def)
  qed
  show ?thesis
    using vlan ip l4 match eth_length [OF assms(3), where x = x and oob = oob and pad = pad and p = p] len
    by (simp add: lengths_def)
qed

section \<open>The log of the flow table\<close>

text \<open>The state after the first \<open>m\<close> of the inputs \<open>is\<close>.\<close>

definition charged_upto :: "6 word \<Rightarrow> axis_beat option list \<Rightarrow> nat \<Rightarrow> pipeline \<Rightarrow> bool" where
  "charged_upto pad is m p \<longleftrightarrow> (let h = rev (take m is) @ replicate 7 None in labelled h p \<and> lengths h p) \<and>
     now (flow_inst p) = word_of_nat m \<and>
     logged pad (concat (map (charged_at is) [0..<m - 7])) (flow_ram (flow_inst p))"

lemma flow_key_nolen: "flow_key_of (nolen m) = flow_key_of m"
  by (simp add: flow_key_of_def nolen_def)

lemma history_nth:
  assumes "m \<le> length is" "i < 7"
  shows "(rev (take m is) @ replicate 7 None) ! i = (if i < m then is ! (m - Suc i) else None)"
  using assms by (auto simp: nth_append rev_nth)

text \<open>The metadata at the flow table while the packet of cycle \<open>m - 7\<close> is there.\<close>

lemma charged_meta:
  assumes "charged_upto pad is m p" "m < length is" "7 \<le> m" "is ! (m - 7) = Some b"
  shows "[(flow_key_of (pipe_meta (match_inst p)), pkt_length (pipe_meta (match_inst p)), now (flow_inst p))] = charged_at is (m - 7)"
proof -
  define h where "h = rev (take m is) @ replicate 7 None"
  have st: "labelled h p" "lengths h p" "now (flow_inst p) = word_of_nat m"
    using assms(1) by (simp_all add: charged_upto_def h_def Let_def)
  have at: "h ! 4 = is ! (m - 5)" "h ! 5 = is ! (m - 6)" "h ! 6 = Some b"
    using history_nth [of m "is"] assms(2-4) by (simp_all add: h_def)
  have "7 \<le> length h" by (simp add: h_def)
  then have "drop 4 h = h ! 4 # h ! 5 # h ! 6 # drop 7 h"
    using Cons_nth_drop_Suc [of 4 h] Cons_nth_drop_Suc [of 5 h] Cons_nth_drop_Suc [of 6 h] by simp
  then obtain b' where b': "recent (drop 4 h) = Some b'" "charge_flow b [h ! 5, h ! 4] = flow_of (tdata b')"
    by (cases "h ! 4"; cases "h ! 5") (simp_all add: charge_flow_def at(3))
  then have "flow_key_of (pipe_meta (match_inst p)) = charge_flow b [h ! 5, h ! 4]"
    using st(1) flow_key_nolen [of "pipe_meta (match_inst p)"] by (simp add: labelled_def flow_of_def)
  moreover have "pkt_length (pipe_meta (match_inst p)) = byte_sum (drop 4 h)"
    using st(2) b'(1) by (simp add: lengths_def)
  moreover have "drop 4 h = rev (take (m - 4) is) @ replicate 7 None"
    using assms(2,3) by (simp add: h_def drop_rev min_def)
  moreover have i: "Suc (m - 7) = m - 6" "Suc (m - 6) = m - 5" "m - 6 < length is" "m - 5 < length is"
    using assms(2,3) by linarith+
  then have "drop (m - 6) is = is ! (m - 6) # is ! (m - 5) # drop (Suc (m - 5)) is"
    using Cons_nth_drop_Suc [OF i(3)] Cons_nth_drop_Suc [OF i(4)] by simp
  then have "take 2 (drop (Suc (m - 7)) is) = [h ! 5, h ! 4]" by (simp add: at i(1))
  ultimately show ?thesis using assms(3,4) st(3) by (simp add: charged_at_def)
qed

lemma charged_upto_step:
  assumes "charged_upto pad is m p" "m < length is" "\<And>b. is ! m = Some b \<Longrightarrow> tlast b"
  shows "charged_upto pad is (Suc m) (pipeline_step oob pad (single_pins x (is ! m)) p)"
proof -
  let ?h = "rev (take m is) @ replicate 7 None" and ?m = "pipe_meta (match_inst p)"
  let ?p = "pipeline_step oob pad (single_pins x (is ! m)) p"
  have st: "labelled ?h p" "lengths ?h p" "now (flow_inst p) = word_of_nat m"
    "logged pad (concat (map (charged_at is) [0..<m - 7])) (flow_ram (flow_inst p))"
    using assms(1) by (simp_all add: charged_upto_def Let_def)
  have "rev (take (Suc m) is) @ replicate 7 None = is ! m # ?h" using assms(2) by (simp add: take_Suc_conv_app_nth)
  moreover have "labelled (is ! m # ?h) ?p" by (rule labelled_step [OF st(1) assms(3)])
  moreover have "flowing ?h p" using st(1) by (simp add: labelled_def)
  then have "lengths (is ! m # ?h) ?p" by (rule lengths_step [OF _ st(2) assms(3)])
  moreover have "now (flow_inst ?p) = word_of_nat (Suc m)" using st(3) by (simp add: pipeline_step_def flow_step_def Let_def)
  moreover have flow: "pipe_valid (st_pipe (stats_inst p)) \<longleftrightarrow> ?h ! 6 \<noteq> None"
    "?h ! 6 \<noteq> None \<Longrightarrow> tlast (pipe_beat (st_pipe (stats_inst p)))"
    using st(1) by (simp_all add: labelled_def)
  have "logged pad (concat (map (charged_at is) [0..<Suc m - 7])) (flow_ram (flow_inst ?p))"
  proof (cases "?h ! 6")
    case None
    then have "flow_ram (flow_inst ?p) = flow_ram (flow_inst p)"
      using flow by (simp add: pipeline_step_def Let_def flow_step_def)
    moreover have "Suc m - 7 = Suc (m - 7) \<and> charged_at is (m - 7) = [] \<or> Suc m - 7 = m - 7"
      using None history_nth [of m "is" 6] assms(2) by (auto simp: charged_at_def split: if_splits)
    ultimately show ?thesis using st(4) by auto
  next
    case (Some b)
    then have m: "7 \<le> m" "is ! (m - 7) = Some b"
      using history_nth [of m "is" 6] assms(2) by (auto split: if_splits)
    have "flow_ram (flow_inst ?p) = fst (flow_update (oob (now (flow_inst p)) (set_idx pad (flow_key_of ?m))) (now (flow_inst p))
        (flow_key_of ?m) (set_idx pad (flow_key_of ?m)) (pkt_length ?m) (flow_ram (flow_inst p), lru (flow_inst p)))"
      using flow Some by (simp add: pipeline_step_def Let_def flow_step_def reg_ready_def)
    then have "logged pad (concat (map (charged_at is) [0..<m - 7]) @ charged_at is (m - 7)) (flow_ram (flow_inst ?p))"
      unfolding charged_meta [OF assms(1,2) m, symmetric] using logged_update [OF st(4)] by simp
    moreover have "Suc m - 7 = Suc (m - 7)" using m(1) by linarith
    ultimately show ?thesis by (simp only: upt_Suc) simp
  qed
  ultimately show ?thesis by (simp add: charged_upto_def)
qed

lemma charged_upto_reset:
  assumes "\<not> rst_n p0"
  shows "charged_upto pad is 0 (pipeline_step oob pad p0 p)"
  using labelled_reset [OF assms, of oob pad p] assms logged_reset [of pad]
  by (simp add: charged_upto_def lengths_def pipeline_step_def eth_step_def meta_stage_step_def flow_step_def
      numeral_eq_Suc byte_sum_def kept_bytes_def Let_def)

lemma charged_upto_run:
  assumes "\<not> rst_n p0" "list_all (pred_option tlast) is" "m \<le> length is"
  shows "charged_upto pad is m (fold (\<lambda>i. pipeline_step oob pad (single_pins x i)) (take m is) (pipeline_step oob pad p0 p))"
  using assms(3)
proof (induction m)
  case 0
  show ?case using charged_upto_reset [OF assms(1)] by simp
next
  case (Suc m)
  have "tlast b" if "is ! m = Some b" for b
    using that assms(2) Suc.prems by (auto simp: list_all_length dest!: spec [of _ m])
  then show ?case
    using charged_upto_step [of pad "is" m] Suc by (simp add: take_Suc_conv_app_nth)
qed

lemma flows_charged:
  assumes "\<not> rst_n p0" "list_all (pred_option tlast) is"
  shows "logged pad (flow_charges is) (flow_ram (flow_inst (fold (\<lambda>i. pipeline_step oob pad (single_pins x i))
    (is @ replicate 7 None) (pipeline_step oob pad p0 p))))"
proof -
  have "list_all (pred_option tlast) (is @ replicate 7 None)" using assms(2) by (simp add: list_all_iff)
  from charged_upto_run [OF assms(1) this order_refl, of pad oob x p] show ?thesis
    by (simp add: charged_upto_def charges_idle)
qed

section \<open>A single packet\<close>

lemma run_fold:
  "stage_run (pipe_cycle oob pad x) (map (\<lambda>i. (i, True)) is) p = fold (\<lambda>i. pipeline_step oob pad (single_pins x i)) is p"
proof (induction "is" arbitrary: p)
  case (Cons i "is")
  then show ?case by (simp add: cycle_single)
qed simp

lemma counted_small: "counted 0 c \<longleftrightarrow> c = 0" "counted 1 c \<longleftrightarrow> c = 1"
  by (simp_all add: counted_def word_unat_eq_iff)

text \<open>The input of the run, as the lemmas on the counters and on the flow table see it.\<close>

lemma one_packet_run:
  "stage_run (pipe_cycle oob pad x) ((Some b, True) # replicate 8 (None, True)) p =
     fold (\<lambda>i. pipeline_step oob pad (single_pins x i)) ([Some b, None, None] @ replicate 6 None) p"
  "stage_run (pipe_cycle oob pad x) ((Some b, True) # replicate 8 (None, True)) p =
     fold (\<lambda>i. pipeline_step oob pad (single_pins x i)) ([Some b, None] @ replicate 7 None) p"
  unfolding run_fold [symmetric] by (simp_all add: numeral_eq_Suc)

lemma one_packet_charged:
  fixes p :: pipeline and p0 :: pipe_pins and b x :: axis_beat and oob :: "u32 \<Rightarrow> nat \<Rightarrow> bool" and pad :: "6 word"
  assumes "\<not> rst_n p0" "tlast b"
  defines "e \<equiv> stage_run (pipe_cycle oob pad x) ((Some b, True) # replicate 8 (None, True)) (pipeline_step oob pad p0 p)"
  shows "stats_like [meta_match (tdata b)] (stats_inst e)"
    "\<exists>f. flow_find pad (flow_ram (flow_inst e)) (flow_of (tdata b)) = Some f \<and> fe_packet_count f = 1"
proof -
  have "charged [Some b, None, None] = [meta_match (tdata b)]" by (simp add: charge_def)
  then show "stats_like [meta_match (tdata b)] (stats_inst e)"
    using stats_charged [OF assms(1), of "[Some b, None, None]" oob pad x p] assms(2)
    unfolding e_def one_packet_run(1) by simp
  have "list_all (pred_option tlast) [Some b, None]" using assms(2) by simp
  from flows_charged [OF assms(1) this, of pad oob x p]
  have log: "logged pad (flow_charges [Some b, None]) (flow_ram (flow_inst e))"
    unfolding e_def one_packet_run(2) .
  have l: "flow_charges [Some b, None] = [(flow_of (tdata b), kept_bytes (Some b), 7)]"
    by (simp add: flow_charges_def charged_at_def charge_flow_def kept_bytes_def)
  have "packets_of (flow_of (tdata b)) (flow_charges [Some b, None]) = [(kept_bytes (Some b), 7)]"
    by (simp add: l packets_of_def)
  moreover have "alone pad (flow_of (tdata b)) (flow_charges [Some b, None])" by (simp add: l alone_def)
  ultimately show "\<exists>f. flow_find pad (flow_ram (flow_inst e)) (flow_of (tdata b)) = Some f \<and> fe_packet_count f = 1"
    using loggedD(2) [OF log, of "flow_of (tdata b)"] by (auto simp: no_gap_def counts_def)
qed

section \<open>Properties\<close>

text \<open>C22: The flow table charges a packet to a packet behind it: after reset, when packets of one beat
  each arrive in any pattern of cycles and the receiver is ready, the table is that of the log
  \<open>flow_charges\<close>, a function of the inputs: it has one entry per packet, in order, at the time seven
  cycles after the packet arrived, but the flow of the entry is that of the last packet in the two
  cycles after the packet, if there is one, and its own only if two idle cycles follow, and the length
  is the number of bytes of all packets since the reset up to that one, modulo \<open>2 ^ 16\<close>. An entry of
  the table counts the last packets of the log for its flow, all of them if its set has no other flow
  and there was no gap.\<close>

theorem flow_table_charges_ahead:
  fixes p :: pipeline and p0 :: pipe_pins and x :: axis_beat and "is" :: "axis_beat option list"
    and oob :: "u32 \<Rightarrow> nat \<Rightarrow> bool" and pad :: "6 word" and ram :: flow_ram and log :: "flow_log_entry list"
  defines "ram \<equiv> flow_ram (flow_inst (fold (\<lambda>i. pipeline_step oob pad (single_pins x i)) (is @ replicate 7 None)
      (pipeline_step oob pad p0 p)))" and "log \<equiv> flow_charges is"
  assumes "\<not> rst_n p0" "list_all (pred_option tlast) is"
  shows "(\<forall>k e. flow_find pad ram k = Some e \<longrightarrow>
        (\<exists>old recent. packets_of k log = old @ recent \<and> no_gap recent \<and> counts recent e))
    \<and> (\<forall>k. alone pad k log \<and> no_gap (packets_of k log) \<and> packets_of k log \<noteq> [] \<longrightarrow>
        (\<exists>e. flow_find pad ram k = Some e \<and> counts (packets_of k log) e))"
  using flows_charged [OF assms(3,4), of pad oob x p]
  unfolding ram_def log_def logged_def by blast

text \<open>Two packets of eight bytes with an idle cycle between them: both are counted for the flow of the
  second, with 16 bytes each.\<close>

theorem flow_table_charges_ahead_witness:
  "\<forall>p. \<exists>e. flow_find 0 (flow_ram (flow_inst (fold (\<lambda>i. pipeline_step (\<lambda>_ _. False) 0
         (single_pins \<lparr>tdata = 0, tkeep = 0, tlast = False\<rparr> i))
         ([Some \<lparr>tdata = 3, tkeep = 255, tlast = True\<rparr>, None, Some \<lparr>tdata = 7, tkeep = 255, tlast = True\<rparr>] @ replicate 7 None)
         (pipeline_step (\<lambda>_ _. False) 0 pipe_pins0 p)))) (flow_of 7) = Some e
     \<and> fe_packet_count e = 2 \<and> fe_byte_count e = 32 \<and> fe_last_seen e = 9"
proof
  fix p
  let ?is = "[Some \<lparr>tdata = 3, tkeep = 255, tlast = True\<rparr>, None, Some \<lparr>tdata = 7, tkeep = 255, tlast = True\<rparr>]"
  have "count_keep 255 = 8" by code_simp
  then have log: "flow_charges ?is = [(flow_of 7, 16, 7), (flow_of 7, 16, 9)]"
    by (simp add: flow_charges_def charged_at_def charge_flow_def kept_bytes_def numeral_eq_Suc)
  have "packets_of (flow_of 7) (flow_charges ?is) = [(16, 7), (16, 9)]" by (simp add: log packets_of_def)
  moreover have "alone 0 (flow_of 7) (flow_charges ?is)" by (simp add: log alone_def)
  moreover have "no_gap [(16, 7), (16, 9)]" by (simp add: no_gap_def TIMEOUT_CYCLES_def)
  moreover have "\<not> rst_n pipe_pins0" "list_all (pred_option tlast) ?is" by (simp_all add: pipe_pins0_def)
  note flow_table_charges_ahead [OF this, where oob = "\<lambda>_ _. False" and pad = 0
      and x = "\<lparr>tdata = 0, tkeep = 0, tlast = False\<rparr>" and p = p, THEN conjunct2, THEN spec [of _ "flow_of 7"]]
  ultimately obtain e where "flow_find 0 (flow_ram (flow_inst (fold (\<lambda>i. pipeline_step (\<lambda>_ _. False) 0
         (single_pins \<lparr>tdata = 0, tkeep = 0, tlast = False\<rparr> i)) (?is @ replicate 7 None)
         (pipeline_step (\<lambda>_ _. False) 0 pipe_pins0 p)))) (flow_of 7) = Some e" "counts [(16, 7), (16, 9)] e"
    by auto
  then show "\<exists>e. flow_find 0 (flow_ram (flow_inst (fold (\<lambda>i. pipeline_step (\<lambda>_ _. False) 0
         (single_pins \<lparr>tdata = 0, tkeep = 0, tlast = False\<rparr> i)) (?is @ replicate 7 None)
         (pipeline_step (\<lambda>_ _. False) 0 pipe_pins0 p)))) (flow_of 7) = Some e
     \<and> fe_packet_count e = 2 \<and> fe_byte_count e = 32 \<and> fe_last_seen e = 9"
    by (intro exI [of _ e]) (simp add: counts_def)
qed

text \<open>C4: A generated packet on its way through the whole engine: a UDP packet that \<open>make_udp_packet\<close>
  built, sent after reset in one beat of the 512-bit bus (its headers fit) and followed by eight idle
  cycles, comes out once, unchanged if it goes to port 53 (DNS) and with its TTL and checksum lanes
  rewritten otherwise; the counters have one packet, IPv4 and UDP, and none for TCP and ARP; and the flow table has an entry, with one packet, for
  the flow of the addresses and ports that were requested.\<close>

theorem udp_packet_through_engine:
  fixes p :: pipeline and p0 :: pipe_pins and b x :: axis_beat and oob :: "u32 \<Rightarrow> nat \<Rightarrow> bool" and pad :: "6 word"
    and h0 :: ipv4_hdr and g :: packet_gen and payload sm dm :: "u8 list" and sip dip :: u32 and sp dp :: u16
  defines "e \<equiv> stage_run (pipe_cycle oob pad x) ((Some b, True) # replicate 8 (None, True)) (pipeline_step oob pad p0 p)"
    and "k \<equiv> \<lparr>fk_src_ip = sip, fk_dst_ip = dip, fk_protocol = 17, fk_src_port = sp, fk_dst_port = dp\<rparr>"
  assumes "\<not> rst_n p0" "length sm = 6" "length dm = 6" "tlast b"
    "carries (tdata b) (fst (make_udp_packet h0 sm dm sip dip sp dp payload g))"
  shows "stage_delivered pipe_out (pipe_cycle oob pad x) ((Some b, True) # replicate 8 (None, True))
      (pipeline_step oob pad p0 p) =
        [if dp = 53 then b else b\<lparr>tdata := mod_ttl_dec (parse_headers (tdata b)) (tdata b)\<rparr>]
    \<and> cnt_packets (stats_inst e) = 1 \<and> cnt_ipv4 (stats_inst e) = 1 \<and> cnt_udp (stats_inst e) = 1
    \<and> cnt_tcp (stats_inst e) = 0 \<and> cnt_arp (stats_inst e) = 0
    \<and> (\<exists>f. flow_find pad (flow_ram (flow_inst e)) k = Some f \<and> fe_packet_count f = 1)"
proof -
  define M where "M = (ip_meta dm sm (word_of_nat (28 + length payload)) (ip_id_counter g) 17 sip dip)
    \<lparr>udp_valid := True, src_port := sp, dst_port := dp\<rparr>"
  have headers: "parse_headers (tdata b) = M" using parse_udp_packet [OF assms(4,5,7)] by (simp add: M_def)
  then have d: "meta_match (tdata b) = match_parse M" by (simp add: meta_match_def)
  have "service M = 0 \<longleftrightarrow> dp \<noteq> 53"
    by (simp add: service_def port_is_def M_def ip_meta_def meta0_def npe_consts)
  then have out: "stage_delivered pipe_out (pipe_cycle oob pad x) ((Some b, True) # replicate 8 (None, True))
      (pipeline_step oob pad p0 p) = [if dp = 53 then b else b\<lparr>tdata := mod_ttl_dec M (tdata b)\<rparr>]"
    using delivered_after_reset [OF assms(3), of "[Some b]" oob pad x p] assms(6) headers by (simp add: processed_cases)
  have fields: "ipv4_valid (match_parse M)" "udp_valid (match_parse M)" "\<not> tcp_valid (match_parse M)"
    "ethertype (match_parse M) \<noteq> ETYPE_ARP" "flow_key_of (match_parse M) = k"
    by (simp_all add: M_def ip_meta_def meta0_def match_parse_def flow_key_of_def k_def npe_consts Let_def)
  note own = one_packet_charged [OF assms(3,6), where oob = oob and pad = pad and x = x and p = p, folded e_def]
  have "flow_of (tdata b) = k" by (simp add: flow_of_def d fields)
  then show ?thesis
    using stats_like_counts [OF own(1)] own(2) out
    by (simp add: d headers fields number_def counted_small [simplified])
qed

theorem udp_packet_through_engine_witness:
  "\<forall>p. cnt_udp (stats_inst (stage_run (pipe_cycle (\<lambda>_ _. False) 0 \<lparr>tdata = 0, tkeep = 0, tlast = False\<rparr>)
     ((Some \<lparr>tdata = set32 0 (fst (make_udp_packet zero_hdr [2, 0, 0, 0, 0, 1] [2, 0, 0, 0, 0, 2]
         0xC0A80001 0xC0A80002 1234 53 [0x48, 0x69] \<lparr>ip_id_counter = 0\<rparr>)) 44, tkeep = mask 44, tlast = True\<rparr>, True)
       # replicate 8 (None, True)) (pipeline_step (\<lambda>_ _. False) 0 pipe_pins0 p))) = 1"
proof
  fix p
  let ?pkt = "fst (make_udp_packet zero_hdr [2, 0, 0, 0, 0, 1] [2, 0, 0, 0, 0, 2]
     0xC0A80001 0xC0A80002 1234 53 [0x48, 0x69] \<lparr>ip_id_counter = 0\<rparr>)"
  let ?b = "\<lparr>tdata = set32 0 ?pkt 44, tkeep = mask 44, tlast = True\<rparr>"
  have "length ?pkt = 44" by (simp add: make_udp_wire eth_wire_def)
  then have c: "carries (tdata ?b) ?pkt" using carries_set32 [of 0 ?pkt] by simp
  have "\<not> rst_n pipe_pins0" "length [2, 0, 0, 0, 0, 1 :: u8] = 6" "length [2, 0, 0, 0, 0, 2 :: u8] = 6" "tlast ?b"
    by (simp_all add: pipe_pins0_def)
  note through = udp_packet_through_engine [OF this c, where oob = "\<lambda>_ _. False" and pad = 0
    and x = "\<lparr>tdata = 0, tkeep = 0, tlast = False\<rparr>" and p = p]
  show "cnt_udp (stats_inst (stage_run (pipe_cycle (\<lambda>_ _. False) 0 \<lparr>tdata = 0, tkeep = 0, tlast = False\<rparr>)
     ((Some ?b, True) # replicate 8 (None, True)) (pipeline_step (\<lambda>_ _. False) 0 pipe_pins0 p))) = 1"
    by (rule through [THEN conjunct2, THEN conjunct2, THEN conjunct2, THEN conjunct1])
qed

end
