(* ===== verification/Axis_Protocol.thy ===== *)
theory Axis_Protocol
  imports Parser_Pipeline Packet_Scheduler Register_Iface
begin

text \<open>
  The handshake rule of AXI at the outputs of the design: what is offered with \<open>valid\<close> stays until it
  is taken. The FIFO and every pipeline stage keep it as prompt stages (\<open>axis_source\<close> in
  \<open>Axis_Stage\<close>); here are the pipeline as a whole, the scheduler, which keeps it in the round-robin
  mode and breaks it in the strict one, and the response channels of the register interface.
\<close>

section \<open>The pipeline\<close>

interpretation npe_src: axis_source "\<lambda>_. True" pipe_out "pipe_cycle oob pad x" for oob pad x
  by unfold_locales
    (auto simp: pipe_cycle_def pipeline_step_def pipe_out_def flow_step_def axis_register_step_def reg_out_def Let_def
      split: option.splits if_splits)

section \<open>The scheduler\<close>

text \<open>A cycle out of reset; the weights, and the data pins without a valid input, are those of \<open>p\<close>.\<close>

definition sched_cycle_pins :: "sched_pins \<Rightarrow> (axis_beat \<times> meta_bits) option \<Rightarrow> bool \<Rightarrow> sched_pins" where
  "sched_cycle_pins p i r =
     (case i of
        Some (b, m) \<Rightarrow> p\<lparr>Packet_Scheduler.rst_n := True, Packet_Scheduler.s_tdata := tdata b,
          Packet_Scheduler.s_tkeep := tkeep b, Packet_Scheduler.s_tlast := tlast b,
          Packet_Scheduler.s_tvalid := True, s_meta := m, Packet_Scheduler.m_tready := r\<rparr>
      | None \<Rightarrow> p\<lparr>Packet_Scheduler.rst_n := True, Packet_Scheduler.s_tvalid := False,
          Packet_Scheduler.m_tready := r\<rparr>)"

definition sched_cycle ::
  "nat \<Rightarrow> nat \<Rightarrow> sched_pins \<Rightarrow> (axis_beat \<times> meta_bits) option \<Rightarrow> bool \<Rightarrow> scheduler \<Rightarrow> scheduler" where
  "sched_cycle depth mode p i r = scheduler_step depth mode (sched_cycle_pins p i r)"

lemma sched_cycle_pins_simps [simp]:
  "Packet_Scheduler.rst_n (sched_cycle_pins p i r)" "Packet_Scheduler.m_tready (sched_cycle_pins p i r) = r"
  "wrr_weight (sched_cycle_pins p i r) = wrr_weight p"
  by (auto simp: sched_cycle_pins_def wrr_weight_def fun_eq_iff split: option.split)

definition wrr_inv :: "nat \<Rightarrow> sched_pins \<Rightarrow> scheduler \<Rightarrow> bool" where
  "wrr_inv k p s \<longleftrightarrow> sched_inv k s \<and> credit_ok (wrr_weight p) s \<and> (\<forall>q<3. wrr_weight p q \<noteq> 0)"

text \<open>What a queue holds after a cycle in which nothing is taken.\<close>

lemma stalled_contents:
  assumes "sched_inv k s" "Packet_Scheduler.rst_n p" "q < 3" "\<not> Packet_Scheduler.m_tready p"
    "sched_contents k s q \<noteq> []"
  shows "hd (sched_contents k (scheduler_step (2 ^ k) mode p s) q) = hd (sched_contents k s q)"
    "sched_contents k (scheduler_step (2 ^ k) mode p s) q \<noteq> []"
  using sched_contents_step [OF assms(1-3), of mode] assms(4,5) by (simp_all add: queues_step_def)

lemma sched_out_contents:
  assumes "sched_inv k s"
  shows "sched_out (2 ^ k) s = Some b \<longleftrightarrow>
    sched_contents k s (arb_state s) \<noteq> [] \<and> hd (sched_contents k s (arb_state s)) = b"
  using sched_flags(4) [OF assms [unfolded sched_inv_rep]] by (auto split: list.splits)

interpretation wrr_src: axis_source "wrr_inv k p" "sched_out (2 ^ k)" "sched_cycle (2 ^ k) 1 p" for k p
proof
  fix s i r b
  assume inv: "wrr_inv k p s"
  show next_inv: "wrr_inv k p (sched_cycle (2 ^ k) 1 p i r s)" for r
    using inv by (simp add: wrr_inv_def sched_cycle_def sched_inv_step credit_step)
  assume out: "sched_out (2 ^ k) s = Some b"
  have s: "sched_inv k s" "arb_state s < 3" using inv by (simp_all add: wrr_inv_def sched_inv_def)
  have "arb_state (sched_cycle (2 ^ k) 1 p i False s) = arb_state s"
    using wrr_stays [OF s(1), of "sched_cycle_pins p i False"] inv out s
    by (simp add: sched_cycle_def wrr_inv_def sched_out_contents)
  then show "sched_out (2 ^ k) (sched_cycle (2 ^ k) 1 p i False s) = Some b"
    using stalled_contents [OF s(1) _ s(2), of "sched_cycle_pins p i False" 1] out s(1) next_inv [of False]
    by (simp add: sched_cycle_def wrr_inv_def sched_out_contents)
qed

section \<open>The response channels of the register interface\<close>

lemma write_channel:
  assumes "reg_rst_n p"
  shows "bvalid (register_iface_step oob p s) \<longleftrightarrow> wst s = W_RESP"
    "wst s = W_RESP \<Longrightarrow> wst (register_iface_step oob p s) = (if bready p then W_IDLE else W_RESP)"
proof -
  have "bvalid (read_fsm oob p rs t) = bvalid t" "wst (read_fsm oob p rs t) = wst t" for rs t
    by (simp_all add: read_fsm_def Let_def split: rstate.split)
  then show "bvalid (register_iface_step oob p s) \<longleftrightarrow> wst s = W_RESP"
    "wst s = W_RESP \<Longrightarrow> wst (register_iface_step oob p s) = (if bready p then W_IDLE else W_RESP)"
    using assms by (simp_all add: register_iface_step_def write_fsm_def Let_def split: wstate.split)
qed

lemma read_channel:
  assumes "reg_rst_n p"
  shows "rvalid (register_iface_step oob p s) \<longleftrightarrow> rst s = R_DATA \<or> arvalid p"
    "rst s = R_DATA \<Longrightarrow> rst (register_iface_step oob p s) = (if rready p then R_IDLE else R_DATA)"
    "rst s = R_DATA \<Longrightarrow> rdata (register_iface_step oob p s) = rdata s"
proof -
  have "rvalid (write_fsm p s) = rvalid s" "rst (write_fsm p s) = rst s" "rdata (write_fsm p s) = rdata s"
    by (simp_all add: write_fsm_def Let_def split: wstate.split)
  then show "rvalid (register_iface_step oob p s) \<longleftrightarrow> rst s = R_DATA \<or> arvalid p"
    "rst s = R_DATA \<Longrightarrow> rst (register_iface_step oob p s) = (if rready p then R_IDLE else R_DATA)"
    "rst s = R_DATA \<Longrightarrow> rdata (register_iface_step oob p s) = rdata s"
    using assms by (cases "rst s"; simp add: register_iface_step_def read_fsm_def Let_def)+
qed

section \<open>Properties\<close>

text \<open>C8: The engine keeps the handshake rule of AXI-Stream: whatever it offers on its output, in any
  state and for any input and back-pressure, stays offered unchanged until the receiver takes it, and
  is the next beat the receiver gets.\<close>

theorem pipeline_offer_binding:
  fixes p :: pipeline and oob :: "u32 \<Rightarrow> nat \<Rightarrow> bool" and pad :: "6 word" and x :: axis_beat
  assumes "pipe_out p = Some b"
  shows "if list_ex snd cs then \<exists>bs. stage_delivered pipe_out (pipe_cycle oob pad x) cs p = b # bs
    else stage_delivered pipe_out (pipe_cycle oob pad x) cs p = []
      \<and> pipe_out (stage_run (pipe_cycle oob pad x) cs p) = Some b"
  using npe_src.offer_binding [OF TrueI assms, of cs oob pad x] by (auto simp: neq_Nil_conv split: if_splits)

theorem pipeline_offer_binding_witness:
  fixes b :: axis_beat
  defines "b \<equiv> \<lparr>tdata = 3, tkeep = 1, tlast = True\<rparr>"
  shows "\<forall>p. \<exists>bs. stage_delivered pipe_out (pipe_cycle (\<lambda>_ _. False) 0 b) [(None, False), (Some b, False), (None, True)]
    (p\<lparr>flow_inst := (flow_inst p)\<lparr>fl_pipe := \<lparr>pipe_beat = b, pipe_valid = True\<rparr>\<rparr>\<rparr>) = b # bs"
proof
  fix p :: pipeline
  let ?p = "p\<lparr>flow_inst := (flow_inst p)\<lparr>fl_pipe := \<lparr>pipe_beat = b, pipe_valid = True\<rparr>\<rparr>\<rparr>"
  have "pipe_out ?p = Some b" by (simp add: pipe_out_def reg_out_def)
  from pipeline_offer_binding [OF this, of "[(None, False), (Some b, False), (None, True)]" "\<lambda>_ _. False" 0 b]
  show "\<exists>bs. stage_delivered pipe_out (pipe_cycle (\<lambda>_ _. False) 0 b) [(None, False), (Some b, False), (None, True)] ?p = b # bs"
    by (simp del: stage_delivered.simps)
qed

text \<open>So does the scheduler in the round-robin mode after reset, if no weight is 0: what it offers
  stays until it is taken, whatever arrives for the other queues.\<close>

theorem wrr_offer_binding:
  fixes s :: scheduler and p :: sched_pins and k :: nat
  defines "s0 \<equiv> scheduler_step (2 ^ k) 1 (p\<lparr>Packet_Scheduler.rst_n := False\<rparr>) s"
    and "run \<equiv> stage_run (sched_cycle (2 ^ k) 1 p)"
  assumes "\<forall>q<3. length (ram (queue_fifo s q)) = 2 ^ k" "\<forall>q<3. wrr_weight p q \<noteq> 0"
    and "sched_out (2 ^ k) (run cs s0) = Some b"
  shows "if list_ex snd ds
    then \<exists>bs. stage_delivered (sched_out (2 ^ k)) (sched_cycle (2 ^ k) 1 p) ds (run cs s0) = b # bs
    else stage_delivered (sched_out (2 ^ k)) (sched_cycle (2 ^ k) 1 p) ds (run cs s0) = []
      \<and> sched_out (2 ^ k) (run ds (run cs s0)) = Some b"
proof -
  note reset = sched_reset_rep [OF assms(3), where p = "p\<lparr>Packet_Scheduler.rst_n := False\<rparr>" and mode = 1, folded s0_def]
  have "wrr_inv k p s0" using assms(4) sched_repI [OF reset(1)] reset(2) by (simp add: wrr_inv_def credit_ok_def)
  then have "wrr_inv k p (run cs s0)"
    unfolding run_def by (rule wrr_src.source_run)
  from wrr_src.offer_binding [OF this assms(5), of ds] show ?thesis
    unfolding run_def by (auto simp: neq_Nil_conv split: if_splits)
qed

theorem wrr_offer_binding_witness:
  fixes s :: scheduler and p :: sched_pins
  defines "s \<equiv> \<lparr>queue_fifo = (\<lambda>_. sample_fifo True), arb_state = 3, wrr_count = (\<lambda>_. 9)\<rparr>"
    and "p \<equiv> sched_pins0\<lparr>weight_high := 1, weight_med := 1, weight_low := 1\<rparr>"
  shows "sched_out 2 (stage_run (sched_cycle 2 1 p) [(Some (sample_beat, 0), False), (Some (sample_beat, 1572864), False)]
    (stage_run (sched_cycle 2 1 p) [(Some (sample_beat, 1572864), False)]
      (scheduler_step 2 1 (p\<lparr>Packet_Scheduler.rst_n := False\<rparr>) s))) = Some sample_beat"
proof -
  define s0 where "s0 = scheduler_step (2 ^ 1) 1 (p\<lparr>Packet_Scheduler.rst_n := False\<rparr>) s"
  let ?i = "Some (sample_beat, 1572864 :: meta_bits)"
  have ram: "\<forall>q<3. length (ram (queue_fifo s q)) = 2 ^ 1" by (simp add: s_def sample_fifo_def)
  note reset = sched_reset_rep [OF ram, where p = "p\<lparr>Packet_Scheduler.rst_n := False\<rparr>" and mode = 1, folded s0_def]
  have s0: "sched_inv 1 s0" "sched_contents 1 s0 0 = []" "sched_contents 1 s0 1 = []" "sched_contents 1 s0 2 = []" "arb_state s0 = 0"
    using sched_repI [OF reset(1)] reset(3) by simp_all
  have "class_id (unpack_meta 1572864) = 3" by (simp add: unpack_meta_def field_def)
  then have "dest (sched_cycle_pins p ?i False) = 0" by (simp add: sched_cycle_pins_def dest_def dest_queue_def)
  then have "sched_contents 1 (sched_cycle (2 ^ 1) 1 p ?i False s0) 0 = [sample_beat]"
    using sched_contents_step [OF s0(1), of "sched_cycle_pins p ?i False" 0 1] s0(2)
    by (simp add: sched_cycle_def queues_step_def sched_cycle_pins_def Packet_Scheduler.s_beat_def sample_beat_def)
  moreover have "arb_state (sched_cycle (2 ^ 1) 1 p ?i False s0) = 0"
    using sched_flags(2) [OF s0(1) [unfolded sched_inv_rep]] s0(2-5)
    by (simp add: sched_cycle_def scheduler_step_def arb_next_def Let_def)
  moreover have "sched_inv 1 (sched_cycle (2 ^ 1) 1 p ?i False s0)"
    unfolding sched_cycle_def by (rule sched_inv_step [OF s0(1)]) simp
  ultimately have "sched_out (2 ^ 1) (sched_cycle (2 ^ 1) 1 p ?i False s0) = Some sample_beat"
    by (metis sched_out_contents list.sel(1) list.distinct(1))
  then have "sched_out (2 ^ 1) (stage_run (sched_cycle (2 ^ 1) 1 p) [(?i, False)] s0) = Some sample_beat"
    by (simp only: stage_run.simps)
  then show ?thesis
    using wrr_offer_binding [OF ram, of p "[(?i, False)]" sample_beat "[(Some (sample_beat, 0), False), (?i, False)]"]
    by (simp add: s0_def p_def wrr_weight_def del: stage_run.simps)
qed

text \<open>C17: The strict mode breaks the rule and cuts packets: while the scheduler offers a beat of a
  queue, a beat that waits in a queue of higher priority takes its place in the next cycle. If the
  receiver was not ready, the offered beat is withdrawn (it is still the first of its queue); if it
  was, the rest of the packet waits, although the beat taken need not have been the last one, and the
  receiver finds a beat of another packet after it.\<close>

theorem strict_preempts_packets:
  fixes s :: scheduler and p :: sched_pins and k :: nat
  defines "s' \<equiv> scheduler_step (2 ^ k) 0 p s"
  assumes "sched_inv k s" "Packet_Scheduler.rst_n p" "sched_out (2 ^ k) s = Some b"
    "q < arb_state s" "sched_contents k s q \<noteq> []" "\<forall>i<q. sched_contents k s i = []"
  shows "arb_state s' = q \<and> sched_out (2 ^ k) s' = Some (hd (sched_contents k s q))
    \<and> (\<not> Packet_Scheduler.m_tready p \<longrightarrow> hd (sched_contents k s' (arb_state s)) = b)
    \<and> (Packet_Scheduler.m_tready p \<longrightarrow> (\<exists>new. sched_contents k s' (arb_state s) = tl (sched_contents k s (arb_state s)) @ new))"
proof -
  have a: "arb_state s < 3" using assms(2) by (simp add: sched_inv_def)
  have s': "sched_inv k s'" unfolding s'_def by (rule sched_inv_step [OF assms(2,3)])
  have arb: "arb_state s' = q" unfolding s'_def by (rule strict_next) (use assms a in simp_all)
  moreover have "sched_contents k s' q \<noteq> []" "hd (sched_contents k s' q) = hd (sched_contents k s q)"
    using sched_contents_step [OF assms(2,3), of q 0] assms(5,6) a by (simp_all add: s'_def queues_step_def)
  moreover have "sched_contents k s' (arb_state s) =
      queues_step k p (arb_state s) (sched_contents k s) (arb_state s)"
    unfolding s'_def by (rule sched_contents_step [OF assms(2,3) a])
  ultimately show ?thesis
    using assms(4) sched_out_contents [OF assms(2)] sched_out_contents [OF s'] by (auto simp: queues_step_def)
qed

theorem strict_preempts_packets_witness:
  fixes s :: scheduler and b :: axis_beat
  defines "b \<equiv> \<lparr>tdata = 9, tkeep = 1, tlast = False\<rparr>"
    and "s \<equiv> \<lparr>queue_fifo = (\<lambda>q. if q = 2 then \<lparr>wr_ptr = 1, rd_ptr = 0, m_tvalid = True,
      ram = [\<lparr>tdata = 9, tkeep = 1, tlast = False\<rparr>, sample_beat]\<rparr> else sample_fifo (q = 0)), arb_state = 2, wrr_count = (\<lambda>_. 0)\<rparr>"
  shows "sched_out 2 s = Some b \<and>
    sched_out 2 (scheduler_step 2 0 (sched_pins0\<lparr>Packet_Scheduler.rst_n := True, Packet_Scheduler.m_tready := True\<rparr>) s) = Some sample_beat"
proof -
  let ?f = "\<lparr>wr_ptr = 1, rd_ptr = 0, m_tvalid = True, ram = [\<lparr>tdata = 9, tkeep = 1, tlast = False\<rparr>, sample_beat]\<rparr>"
  have f: "fifo_rep 1 ?f [b]" by (simp add: fifo_rep_def b_def)
  then have "\<exists>xs. fifo_rep 1 (queue_fifo s q) xs" for q using sample_rep [of "q = 0"] by (auto simp: s_def)
  then have inv: "sched_inv 1 s" by (auto simp: sched_inv_def fifo_inv_rep s_def)
  have c: "sched_contents 1 s 0 = [sample_beat]" "sched_contents 1 s 2 = [b]"
    using contents_rep [OF sample_rep [of True]] contents_rep [OF f] by (simp_all add: sched_contents_def s_def)
  have "sched_out (2 ^ 1) s = Some b" using c(2) unfolding sched_out_contents [OF inv] by (simp add: s_def)
  then show ?thesis
    using strict_preempts_packets [OF inv, of "sched_pins0\<lparr>Packet_Scheduler.rst_n := True, Packet_Scheduler.m_tready := True\<rparr>" b 0] c(1)
    by (simp add: s_def)
qed

text \<open>C39: The response channels of the register interface break the rule of AXI-Lite. A write response
  that meets \<open>bready\<close> in the cycle before it is valid is offered for one cycle only, and lost if the
  master is not ready in that one; a read response that is taken is offered a second time, with the
  same data.\<close>

theorem axi_responses_not_binding:
  fixes s :: reg_file and p q :: reg_pins and oob :: u32
  defines "s1 \<equiv> register_iface_step oob p s" and "s2 \<equiv> register_iface_step oob q (register_iface_step oob p s)"
  assumes "reg_rst_n p" "reg_rst_n q"
  shows "(wst s = W_RESP \<and> bready p \<and> \<not> bready q \<longrightarrow> bvalid s1 \<and> \<not> bvalid s2)
    \<and> (rst s = R_DATA \<and> rvalid s \<and> rready p \<longrightarrow> rvalid s1 \<and> rdata s1 = rdata s \<and> rvalid s2 = arvalid q)"
proof (intro conjI impI)
  assume "wst s = W_RESP \<and> bready p \<and> \<not> bready q"
  then show "bvalid s1" "\<not> bvalid s2"
    using assms(3,4) by (simp_all add: s1_def s2_def write_channel)
next
  assume "rst s = R_DATA \<and> rvalid s \<and> rready p"
  then show "rvalid s1" "rdata s1 = rdata s" "rvalid s2 = arvalid q"
    using assms(3,4) by (simp_all add: s1_def s2_def read_channel)
qed

theorem axi_responses_not_binding_witness:
  fixes s :: reg_file and p :: reg_pins
  defines "s \<equiv> \<lparr>regs = replicate 64 0, wst = W_RESP, awready = True, wready = True, bvalid = False, bresp = 0,
      waddr_q = 0, rst = R_DATA, arready = True, rvalid = True, rdata = 7, rresp = 0\<rparr>"
    and "p \<equiv> reg_pins0\<lparr>reg_rst_n := True, bready := True, rready := True\<rparr>"
  shows "bvalid (register_iface_step 0 p s) \<and>
    \<not> bvalid (register_iface_step 0 (p\<lparr>bready := False\<rparr>) (register_iface_step 0 p s)) \<and>
    rvalid (register_iface_step 0 p s) \<and> rdata (register_iface_step 0 p s) = 7"
  using axi_responses_not_binding [of p "p\<lparr>bready := False\<rparr>" s 0] by (simp add: s_def p_def)

end
