(* ===== verification/Spec2Isabelle.thy ===== *)
theory Spec2Isabelle
  imports Tb_Axis_Fifo Fifo_Formal Token_Bucket Register_Iface Packet_Modifier Tb_Stress Tb_Flow Tb_Random
    Tb_Pipeline Tb_Perf_Rates Tb_Scheduler Narrow_Beats
    Flow_Charging Axis_Protocol
begin

text \<open>
  Verification of the FPGA network processing engine: the C++ test benches under \<open>sim/\<close> and the
  SystemVerilog modules under \<open>rtl/\<close> that they drive.

  The program. Each bench instantiates one RTL module as a Verilator object, drives its pins clock
  by clock and judges what comes out. \<open>sim/packet_generators/packet_gen.h\<close> builds the packets,
  \<open>sim/packet_monitors/packet_mon.h\<close> is the scoreboard. The modules exchange beats of a 512-bit
  AXI-Stream with \<open>tvalid\<close>/\<open>tready\<close> handshakes.

  How code is modelled. A module is a record of its registers, a step function for its clocked
  processes and functions for its outputs; a bench is a function on the device object of
  \<open>Verilated\<close> (pins, clock and registers) and on its C++ objects. Machine integers are words of
  their width, byte vectors are lists, the exceptions of the generator are a sum type, and a wait
  loop without a bound is a \<open>partial_function\<close> into \<open>option\<close>, so that a bench that hangs has the
  value \<open>None\<close>. Registers that no reset has written have arbitrary values.

  Theories on the stream modules and their benches.
  \<^item> \<open>NPE_Prelude\<close>: widths, collections of simplification rules, chunks of lists, \<open>$clog2\<close>.
  \<^item> \<open>Byte_Lanes\<close>: the data bus as bytes, for the RTL (part selects) and for the benches (\<open>VlWide\<close>,
    \<open>set32\<close>, \<open>vlwide_set_bytes\<close>, \<open>vlwide_get_bytes\<close>); what is written is read back.
  \<^item> \<open>Verilated\<close>: \<open>eval\<close>, the clock, reset.
  \<^item> \<open>Crc32\<close>: \<open>rtl/interfaces/crc32.sv\<close>, \<open>PacketMon::crc32\<close> with its table, and \<open>tb_crc.cpp\<close>; the
    bit-serial and the table-driven checksum agree on every stream of frames.
  \<^item> \<open>Packet_Mon\<close>: the scoreboard; what it counts, and that it accepts a faithful device.
  \<^item> \<open>Packet_Gen\<close>: the packet builders; wire format, header checksum, sizes and the length error.
  \<^item> \<open>Axis_Stage\<close>: the stream contract as locales, from \<open>axis_stage\<close> (nothing lost, duplicated or
    reordered) to \<open>axis_flush_stage\<close> (everything comes out) and \<open>axis_bounded_stage\<close>; the rule of the
    handshake as the locale \<open>axis_source\<close> (what is offered stays until taken); and
    \<open>rtl/interfaces/axis_register.sv\<close> as an instance.
  \<^item> \<open>Axis_Fifo\<close>: \<open>rtl/interfaces/axis_fifo.sv\<close> for every power-of-two depth: refinement of a bounded
    queue, and data integrity through the stream contract.
  \<^item> \<open>Fifo_Formal\<close>: the harness \<open>formal/fifo.sv\<close> as a transition system, with the assertions that are
    invariants and the two that are not.
  \<^item> \<open>Tb_Axis_Fifo\<close>: \<open>tb_axis_fifo.cpp\<close> on top of the FIFO, the generator and the scoreboard: every run
    ends and passes, for any packets.
  \<^item> \<open>Token_Bucket\<close>: \<open>rtl/filters/token_bucket.sv\<close> and \<open>tb_rate_limiter.cpp\<close>: the traffic contract, the
    refill, and what the bench observes.
  \<^item> \<open>Register_Iface\<close>: \<open>rtl/top/register_iface.sv\<close> and \<open>tb_axi_lite.cpp\<close>: the register bus contract as a
    locale, the bench's driver as its instance, and the corners of the bus protocol.
  \<^item> \<open>Packet_Scheduler\<close>, \<open>Tb_Scheduler\<close>: \<open>rtl/schedulers/packet_scheduler.sv\<close>, three FIFOs and an arbiter:
    order within a class, strict priority, draining, and the round-robin that does not rotate; and
    \<open>tb_scheduler.cpp\<close>, which never returns.

  Theories on the packet pipeline.
  \<^item> \<open>Npe_Pkg\<close>: the structs and constants of \<open>rtl/common/npe_pkg.sv\<close>, and the metadata as packed bits.
  \<^item> \<open>Parsers\<close>: \<open>rtl/parsers/\<close>: a step function for the frame that the parsers share (first-beat
    tracker, register, metadata), the function each computes on its metadata, and the contract that
    every beat of a packet carries the metadata of its first one.
  \<^item> \<open>Parse_Headers\<close>: the chain of parsers reads back what \<open>PacketGen\<close> wrote.
  \<^item> \<open>Match_Table\<close>: \<open>match_table.sv\<close>, \<open>packet_classifier.sv\<close> and \<open>rule_engine.sv\<close>: the priority encoders
    with the default rules, against a reference by services.
  \<^item> \<open>Packet_Modifier\<close>: \<open>packet_modifier.sv\<close>: all actions on lanes, tag push and pop, the TTL order and
    the checksum, and the effect of a stall.
  \<^item> \<open>Stats_Engine\<close>: \<open>stats_engine.sv\<close>: what each counter is after any run.
  \<^item> \<open>Flow_Table\<close>: \<open>flow_table.sv\<close>: hash, ways, aging and replacement, as a refinement of a map that
    forgets at most one flow per packet.
  \<^item> \<open>Flow_History\<close>: the entries of the flow table against the log of the packets accepted in a run.
  \<^item> \<open>Axis_Protocol\<close>: the rule of the handshake at the outputs of the pipeline and of the scheduler, in its
    two modes, and at the response channels of the register interface.
  \<^item> \<open>Axis_Line\<close>: a line of registers with a combinational ready chain, as an abstract stage.
  \<^item> \<open>Parser_Pipeline\<close>: \<open>parser_pipeline.sv\<close>: the composition, which refines a line of eight registers
    on the lanes that no order changes, and keeps the stream contract.
  \<^item> \<open>Pipeline_Sim\<close>: the \<open>Sim\<close> object and the push, capture and drain loops that the benches of the
    pipeline have in common, in terms of the queue the pipeline holds.
  \<^item> \<open>Tb_Stress\<close>, \<open>Tb_Flow\<close> (with \<open>tb_match_action.cpp\<close>), \<open>Tb_Random\<close>, \<open>Tb_Pipeline\<close>, \<open>Tb_Perf\<close>: these
    benches return and pass, for every power-on state; \<open>Tb_Perf\<close> has the exact cycle counts.
  \<^item> \<open>Binary64\<close> and \<open>Tb_Perf_Rates\<close>: the type \<open>double\<close> with the rounding of every operation, and the rates
    \<open>tb_perf.cpp\<close> computes in it: their relative error, and what the program reports.
  \<^item> \<open>Narrow_Beats\<close>: what the metadata, the statistics and the flow table are when the first beats of
    the packets hold no headers, whatever the others hold; with beats of eight bytes, as in all of these
    benches, this is so.
  \<^item> \<open>Back_To_Back\<close>: packets of one beat in any pattern: what the statistics count when they follow closely.
  \<^item> \<open>Engine_Output\<close>: what the engine delivers for such packets, exactly, and what it makes of ARP.
  \<^item> \<open>Flow_Charging\<close>: the same for the flow table, whose log of flows, lengths and times is a function of the
    inputs, and a generated packet on its way through the engine.

  Bounds. \<open>drain_all\<close> of the FIFO bench has 10000 rounds, and 16 suffice for a FIFO of depth 16; the
  drains of the pipeline benches have 100000 or 10000, and 8 suffice after a packet, as the pipeline
  has eight registers. Unbounded wait loops are partial functions: they end after one round in the
  FIFO bench, at once in the pipeline benches, and never in two tests of the scheduler bench. Beats
  of 1 to 63 bytes are covered for the FIFO and the scheduler (the mask of a 64-byte beat shifts by
  the full width of its type) and of up to 22 bytes for the pipeline, below the lanes that the TTL
  order changes. What the code leaves undetermined (power-on registers, reads beyond the two-bit
  replacement vector of the flow table, the padding bits of its hash, the random draws) is a
  parameter of the model and universally quantified.

  Not modelled: console output and its formatting; the debug outputs of
  the flow table; the register port of the pipeline, which the module leaves unconnected; the
  Python scripts, synthesis and its constraints, and the documents.
\<close>

end
